(* ===== verification/Prelude.thy ===== *)
theory Prelude
  imports Main "HOL-Library.Word" "HOL-Library.Multiset"
begin

text \<open>
  The prelude of the development: the result type of operations that can fail, the
  fixed-size containers (\<open>std::array\<close>, \<open>std::vector\<close>) the program indexes, the
  collections of rewrite rules the component theories share, and generic lemmas on lists,
  maps and words.
\<close>

section \<open>Shared collections\<close>

named_theorems exec_simps \<open>equations that run a model definition forward\<close>
named_theorems state_defs \<open>definitions of the invariants of the components\<close>

section \<open>Failures\<close>

text \<open>
  Every way the program can stop or leave defined behaviour is a value:
  dereferencing \<open>nullptr\<close>, touching an object that is not alive, indexing a container out of
  its range with \<open>operator[]\<close>, an \<open>ASSERT_CONDITION\<close> that calls
  \<open>std::terminate\<close>, \<open>FATAL\<close> that calls \<open>exit\<close>, an exception that leaves a
  \<open>noexcept\<close> function, a read through a pointer that was moved out of its object, and a
  loop that never ends. \<open>memcpy\<close> between overlapping ranges is undefined as well.
\<close>

datatype fault =
    NullDeref
  | UseAfterFree
  | OutOfBounds
  | AssertFailed string
  | FatalExit string
  | Uncaught string
  | StrayRead
  | OverlappingCopy
  | Diverges

type_synonym 'a res = "fault + 'a"

text \<open>Sequencing: the first failure ends the run.\<close>

definition bind_res :: "'a res \<Rightarrow> ('a \<Rightarrow> 'b res) \<Rightarrow> 'b res" where
  "bind_res m f = (case m of Inl e \<Rightarrow> Inl e | Inr x \<Rightarrow> f x)"

lemma bind_res_Inr [simp]: "bind_res (Inr x) f = f x"
  by (simp add: bind_res_def)

lemma bind_res_Inl [simp]: "bind_res (Inl e) f = Inl e"
  by (simp add: bind_res_def)

lemma bind_res_eq_Inr [simp]:
  "bind_res m f = Inr y \<longleftrightarrow> (\<exists>x. m = Inr x \<and> f x = Inr y)"
  by (cases m) auto

lemma bind_res_assoc: "bind_res (bind_res m f) g = bind_res m (\<lambda>x. bind_res (f x) g)"
  by (cases m) auto

lemma bind_res_if:
  "bind_res (if c then m else n) f = (if c then bind_res m f else bind_res n f)"
  by simp

lemma bind_res_cong [fundef_cong]:
  assumes "m = m'" and "\<And>x. m' = Inr x \<Longrightarrow> f x = f' x"
  shows "bind_res m f = bind_res m' f'"
  using assms by (cases m') auto

text \<open>For running a model on a concrete input: only the step at hand is rewritten, not what follows it.\<close>

lemma bind_res_weak_cong: "m = m' \<Longrightarrow> bind_res m f = bind_res m' f"
  by simp

text \<open>A loop over the elements of a list.\<close>

fun runAll :: "('c \<Rightarrow> 'r \<Rightarrow> 'c res) \<Rightarrow> 'c \<Rightarrow> 'r list \<Rightarrow> 'c res" where
  "runAll f c [] = Inr c"
| "runAll f c (r # rs) = bind_res (f c r) (\<lambda>c'. runAll f c' rs)"

lemma runAll_append: "runAll f c (rs @ qs) = bind_res (runAll f c rs) (\<lambda>c'. runAll f c' qs)"
  by (induction rs arbitrary: c) (auto simp: bind_res_assoc)

lemma runAll_then: "runAll f c rs = Inr c' \<Longrightarrow> runAll f c' qs = d \<Longrightarrow> runAll f c (rs @ qs) = d"
  by (simp only: runAll_append bind_res_Inr)

lemma runAll_invariant:
  assumes "runAll f c rs = Inr c'" "I c" "\<And>c r c'. r \<in> set rs \<Longrightarrow> I c \<Longrightarrow> f c r = Inr c' \<Longrightarrow> I c'"
  shows "I c'"
  using assms by (induction rs arbitrary: c) auto

section \<open>Fixed-size containers\<close>

text \<open>
  \<open>std::vector\<close> and \<open>std::array\<close> are used at a size fixed by their constructor: a size
  and the elements below it. \<open>operator[]\<close> out of range is undefined behaviour
  (\<^const>\<open>OutOfBounds\<close>); \<open>.at()\<close> throws.
\<close>

record 'a vec =
  vsize :: nat
  velem :: "nat \<Rightarrow> 'a"

definition vfill :: "nat \<Rightarrow> 'a \<Rightarrow> 'a vec" where
  "vfill n x = \<lparr>vsize = n, velem = (\<lambda>_. x)\<rparr>"

definition vget :: "'a vec \<Rightarrow> nat \<Rightarrow> 'a res" where
  "vget v i = (if i < vsize v then Inr (velem v i) else Inl OutOfBounds)"

definition vset :: "'a vec \<Rightarrow> nat \<Rightarrow> 'a \<Rightarrow> 'a vec res" where
  "vset v i x =
     (if i < vsize v then Inr (v\<lparr>velem := (velem v)(i := x)\<rparr>) else Inl OutOfBounds)"

definition vat :: "'a vec \<Rightarrow> nat \<Rightarrow> 'a res" where
  "vat v i = (if i < vsize v then Inr (velem v i) else Inl (Uncaught ''std::out_of_range''))"

lemma vsize_vfill [simp]: "vsize (vfill n x) = n"
  by (simp add: vfill_def)

lemma velem_vfill [simp]: "velem (vfill n x) = (\<lambda>_. x)"
  by (simp add: vfill_def)

lemma vget_eq_Inr [simp]: "vget v i = Inr x \<longleftrightarrow> i < vsize v \<and> x = velem v i"
  by (auto simp: vget_def)

lemma vset_eq_Inr [simp]:
  "vset v i x = Inr w \<longleftrightarrow> i < vsize v \<and> w = v\<lparr>velem := (velem v)(i := x)\<rparr>"
  by (auto simp: vset_def)

lemma vat_eq_Inr [simp]: "vat v i = Inr x \<longleftrightarrow> i < vsize v \<and> x = velem v i"
  by (auto simp: vat_def)

lemma vget_in [simp]: "i < vsize v \<Longrightarrow> vget v i = Inr (velem v i)"
  by simp

lemma vset_in [simp]: "i < vsize v \<Longrightarrow> vset v i x = Inr (v\<lparr>velem := (velem v)(i := x)\<rparr>)"
  by simp

lemma vat_in [simp]: "i < vsize v \<Longrightarrow> vat v i = Inr (velem v i)"
  by simp

lemmas vec_exec [exec_simps] = vget_def vset_def vat_def vfill_def

section \<open>Time\<close>

text \<open>\<open>utils::Nanos\<close> (src/src/lib/time_utils.h) is a signed 64-bit integer.\<close>

type_synonym Nanos = "64 word"

definition NANOS_TO_MICROS :: Nanos where
  "NANOS_TO_MICROS = 1000"

definition MICROS_TO_MILLIS :: Nanos where
  "MICROS_TO_MILLIS = 1000"

definition MILLIS_TO_SECS :: Nanos where
  "MILLIS_TO_SECS = 1000"

definition NANOS_TO_MILLIS :: Nanos where
  "NANOS_TO_MILLIS = NANOS_TO_MICROS * MICROS_TO_MILLIS"

definition NANOS_TO_SECS :: Nanos where
  "NANOS_TO_SECS = NANOS_TO_MILLIS * MILLIS_TO_SECS"

lemmas time_constants = NANOS_TO_MICROS_def MICROS_TO_MILLIS_def MILLIS_TO_SECS_def NANOS_TO_MILLIS_def NANOS_TO_SECS_def

section \<open>Lists, maps and words\<close>

lemma distinct_map_fst_same:
  "distinct (map fst xs) \<Longrightarrow> (a, u) \<in> set xs \<Longrightarrow> (a, v) \<in> set xs \<Longrightarrow> u = v"
  by (meson eq_key_imp_eq_value)

lemma unat_min: "unat (min a b) = min (unat a) (unat b)" for a b :: "'a::len word"
  by (simp add: min_def word_le_nat_alt)

lemma unat_diff_min: "unat (a - min b a) = unat a - min (unat b) (unat a)" for a b :: "'a::len word"
  by (simp add: unat_sub unat_min)

lemma word_le_min_zero: "b \<noteq> 0 \<Longrightarrow> a - min b a \<noteq> 0 \<Longrightarrow> min b a = b" for a b :: "'a::len word"
  by (auto simp: min_def split: if_splits)

text \<open>Sums over the domain of a finite map under a point update.\<close>

lemma sum_map_remove:
  fixes w :: "'a \<Rightarrow> nat"
  assumes "finite (dom m)" "m i = Some x"
  shows "(\<Sum>k\<in>dom m. w (the (m k))) = w x + (\<Sum>k\<in>dom (m(i := None)). w (the ((m(i := None)) k)))"
proof -
  have "(\<Sum>k\<in>dom m. w (the (m k))) = w (the (m i)) + (\<Sum>k\<in>dom m - {i}. w (the (m k)))"
    using assms by (intro sum.remove) auto
  also have "(\<Sum>k\<in>dom m - {i}. w (the (m k))) = (\<Sum>k\<in>dom m - {i}. w (the ((m(i := None)) k)))"
    by (intro sum.cong) auto
  finally show ?thesis using assms by (simp add: dom_fun_upd)
qed

lemma sum_map_update:
  fixes w :: "'a \<Rightarrow> nat"
  assumes "finite (dom m)" "m i = Some x"
  shows "(\<Sum>k\<in>dom (m(i \<mapsto> y)). w (the ((m(i \<mapsto> y)) k))) + w x = (\<Sum>k\<in>dom m. w (the (m k))) + w y"
proof -
  have "(m(i \<mapsto> y))(i := None) = m(i := None)" by simp
  then show ?thesis
    using sum_map_remove [OF assms, of w] sum_map_remove [of "m(i \<mapsto> y)" i y w] assms(1)
    by simp
qed

end
