(* ===== verification/Exchange_Types.thy ===== *)
theory Exchange_Types
  imports Prelude
begin

text \<open>
  The exchange's identifiers, limits and enumerations (src/src/core/exchange/types.h) with
  their textual form. \<open>Price\<close> is a signed 64-bit integer, read with \<^const>\<open>sint\<close>;
  every other identifier is unsigned.
\<close>

section \<open>Limits\<close>

text \<open>The limits of the production build (\<open>IS_TEST_SUITE\<close> not defined).\<close>

definition OME_SIZE :: nat where
  "OME_SIZE = 256"

definition MAX_TICKERS :: nat where
  "MAX_TICKERS = 8"

definition MAX_CLIENT_UPDATES :: nat where
  "MAX_CLIENT_UPDATES = OME_SIZE * 1024"

definition MAX_MARKET_UPDATES :: nat where
  "MAX_MARKET_UPDATES = OME_SIZE * 1024"

definition MAX_N_CLIENTS :: nat where
  "MAX_N_CLIENTS = OME_SIZE"

definition MAX_ORDER_IDS :: nat where
  "MAX_ORDER_IDS = 1024 * 1024"

definition MAX_PRICE_LEVELS :: nat where
  "MAX_PRICE_LEVELS = OME_SIZE"

definition MAX_PENDING_ORDER_REQUESTS :: nat where
  "MAX_PENDING_ORDER_REQUESTS = 1024"

lemmas limits = OME_SIZE_def MAX_TICKERS_def MAX_CLIENT_UPDATES_def MAX_MARKET_UPDATES_def
  MAX_N_CLIENTS_def MAX_ORDER_IDS_def MAX_PRICE_LEVELS_def MAX_PENDING_ORDER_REQUESTS_def

declare limits [exec_simps]

section \<open>Identifiers\<close>

type_synonym OrderID = "64 word"
type_synonym TickerID = "32 word"
type_synonym ClientID = "32 word"
type_synonym Price = "64 word"
type_synonym Qty = "32 word"
type_synonym Priority = "64 word"

text \<open>\<open>INVALID_ID<T>\<close> is the largest value of the type: all ones, or for a signed type all ones
  but the sign bit.\<close>

definition INVALID_ID :: "'a::len word" where
  "INVALID_ID = - 1"

definition OrderID_INVALID :: OrderID where
  "OrderID_INVALID = INVALID_ID"

definition TickerID_INVALID :: TickerID where
  "TickerID_INVALID = INVALID_ID"

definition ClientID_INVALID :: ClientID where
  "ClientID_INVALID = INVALID_ID"

definition Qty_INVALID :: Qty where
  "Qty_INVALID = INVALID_ID"

definition Priority_INVALID :: Priority where
  "Priority_INVALID = INVALID_ID"

definition Price_INVALID :: Price where
  "Price_INVALID = word_of_int (2 ^ 63 - 1)"

lemmas invalid_ids = INVALID_ID_def OrderID_INVALID_def TickerID_INVALID_def ClientID_INVALID_def
  Qty_INVALID_def Priority_INVALID_def Price_INVALID_def

section \<open>Numbers as text\<close>

text \<open>\<open>std::to_string\<close> on unsigned and signed integers: decimal digits, a minus sign.\<close>

fun to_string_nat :: "nat \<Rightarrow> string" where
  "to_string_nat n =
     (if n < 10 then [char_of (48 + n)] else to_string_nat (n div 10) @ [char_of (48 + n mod 10)])"

declare to_string_nat.simps [simp del]

definition to_string_int :: "int \<Rightarrow> string" where
  "to_string_int k = (if k < 0 then CHR ''-'' # to_string_nat (nat (- k)) else to_string_nat (nat k))"

definition numericToStr :: "'a::len word \<Rightarrow> string" where
  "numericToStr v = (if v = INVALID_ID then ''INVALID'' else to_string_nat (unat v))"

definition orderIdToStr :: "OrderID \<Rightarrow> string" where
  "orderIdToStr v = numericToStr v"

definition tickerIdToStr :: "TickerID \<Rightarrow> string" where
  "tickerIdToStr v = numericToStr v"

definition clientIdToStr :: "ClientID \<Rightarrow> string" where
  "clientIdToStr v = numericToStr v"

definition qtyToStr :: "Qty \<Rightarrow> string" where
  "qtyToStr v = numericToStr v"

definition priorityToStr :: "Priority \<Rightarrow> string" where
  "priorityToStr v = numericToStr v"

text \<open>The instance of \<open>numericToStr\<close> at the signed type of prices.\<close>

definition priceToStr :: "Price \<Rightarrow> string" where
  "priceToStr v = (if v = Price_INVALID then ''INVALID'' else to_string_int (sint v))"

section \<open>Sides\<close>

text \<open>
  An enumeration over \<open>std::int8_t\<close>: bytes that are none of the three named values can arrive
  from the network and are kept apart.
\<close>

datatype Side = Side_INVALID | BUY | SELL | Side_other "8 word"

definition side_of_byte :: "8 word \<Rightarrow> Side" where
  "side_of_byte b =
     (if b = 0 then Side_INVALID else if b = 1 then BUY else if b = - 1 then SELL else Side_other b)"

fun sideToStr :: "Side \<Rightarrow> string" where
  "sideToStr BUY = ''BUY''"
| "sideToStr SELL = ''SELL''"
| "sideToStr Side_INVALID = ''INVALID''"
| "sideToStr (Side_other b) = ''UNKNOWN''"

section \<open>The text of an identifier determines it\<close>

definition digit_val :: "char \<Rightarrow> nat" where
  "digit_val c = of_char c - 48"

definition parse_nat :: "string \<Rightarrow> nat" where
  "parse_nat s = foldl (\<lambda>a c. 10 * a + digit_val c) 0 s"

lemma digit_val_char_of: "d < 10 \<Longrightarrow> digit_val (char_of (48 + d)) = d"
  by (simp add: digit_val_def)

lemma to_string_nat_nonempty: "to_string_nat n \<noteq> []"
  by (subst to_string_nat.simps) simp

lemma parse_to_string_nat: "parse_nat (to_string_nat n) = n"
proof (induction n rule: to_string_nat.induct)
  case (1 n)
  show ?case
  proof (cases "n < 10")
    case True
    then show ?thesis by (subst to_string_nat.simps) (simp add: parse_nat_def digit_val_char_of)
  next
    case False
    with 1 have "foldl (\<lambda>a c. 10 * a + digit_val c) 0 (to_string_nat (n div 10)) = n div 10"
      by (simp add: parse_nat_def)
    with False show ?thesis
      by (subst to_string_nat.simps) (simp add: parse_nat_def digit_val_char_of)
  qed
qed

lemma to_string_nat_digits: "set (to_string_nat n) \<subseteq> {c. 48 \<le> (of_char c :: nat) \<and> of_char c < (58 :: nat)}"
proof (induction n rule: to_string_nat.induct)
  case (1 n)
  show ?case
    by (subst to_string_nat.simps) (use 1 in auto)
qed

lemma to_string_nat_not_INVALID: "to_string_nat n \<noteq> ''INVALID''"
  using to_string_nat_digits [of n] by auto

lemma to_string_nat_inj: "to_string_nat n = to_string_nat m \<longleftrightarrow> n = m"
  by (metis parse_to_string_nat)

lemma to_string_nat_no_sign: "to_string_nat n \<noteq> CHR ''-'' # s"
proof
  assume "to_string_nat n = CHR ''-'' # s"
  then have "CHR ''-'' \<in> set (to_string_nat n)" by simp
  with to_string_nat_digits [of n] show False by auto
qed

lemma to_string_int_inj: "to_string_int j = to_string_int k \<longleftrightarrow> j = k"
  using to_string_nat_no_sign by (auto simp: to_string_int_def to_string_nat_inj dest: sym)

lemma to_string_int_not_INVALID: "to_string_int k \<noteq> ''INVALID''"
  by (simp add: to_string_int_def to_string_nat_not_INVALID)

text \<open>The text of an identifier determines it: two different identifiers of the same type never print alike, and the
  invalid one prints as no number does.\<close>

theorem identifiers_print_injectively:
  "(numericToStr v = numericToStr w) = (v = w) \<and> (priceToStr p = priceToStr r) = (p = r) \<and>
   (numericToStr v = ''INVALID'') = (v = INVALID_ID)"
proof -
  have "to_string_nat (unat a) = to_string_nat (unat b) \<longleftrightarrow> a = b" for a b :: "'b::len word"
    by (simp add: to_string_nat_inj word_unat_eq_iff)
  then have "(numericToStr v = numericToStr w) = (v = w)"
    using to_string_nat_not_INVALID by (auto simp: numericToStr_def dest: sym)
  moreover have "(priceToStr p = priceToStr r) = (p = r)"
    using to_string_int_not_INVALID word_eq_iff_signed [of p r]
    by (auto simp: priceToStr_def to_string_int_inj dest: sym)
  ultimately show ?thesis using to_string_nat_not_INVALID by (simp add: numericToStr_def)
qed

end
