(* ===== verification/Exchange_Messages.thy ===== *)
theory Exchange_Messages
  imports Exchange_Types
begin

text \<open>
  The messages between the components: client requests
  (src/src/core/exchange/order_server_request.h), client responses
  (order_server_response.h), market updates (market_data.h), and the objects of the order
  book (matching_engine_order.h). A pointer to an order or to a price level is the address of
  its block in the book's pools; \<open>nullptr\<close> is \<^const>\<open>None\<close>.
\<close>

section \<open>Client requests\<close>

datatype RequestType = Req_INVALID | Req_NEW | Req_CANCEL | Req_other "8 word"

record OMEClientRequest =
  req_type :: RequestType
  req_clientId :: ClientID
  req_tickerId :: TickerID
  req_orderId :: OrderID
  req_side :: Side
  req_price :: Price
  req_qty :: Qty

definition OMEClientRequest_default :: OMEClientRequest where
  "OMEClientRequest_default =
     \<lparr>req_type = Req_INVALID, req_clientId = ClientID_INVALID, req_tickerId = TickerID_INVALID,
      req_orderId = OrderID_INVALID, req_side = Side_INVALID, req_price = Price_INVALID,
      req_qty = Qty_INVALID\<rparr>"

fun req_typeToStr :: "RequestType \<Rightarrow> string" where
  "req_typeToStr Req_NEW = ''NEW''"
| "req_typeToStr Req_CANCEL = ''CANCEL''"
| "req_typeToStr Req_INVALID = ''INVALID''"
| "req_typeToStr (Req_other b) = ''UNKNOWN''"

definition req_toStr :: "OMEClientRequest \<Rightarrow> string" where
  "req_toStr r =
     ''<OMEClientRequest> [type: '' @ req_typeToStr (req_type r) @
     '', clientId: '' @ clientIdToStr (req_clientId r) @
     '', tickerId: '' @ tickerIdToStr (req_tickerId r) @
     '', orderId: '' @ orderIdToStr (req_orderId r) @
     '', side: '' @ sideToStr (req_side r) @
     '', price: '' @ priceToStr (req_price r) @
     '', qty: '' @ qtyToStr (req_qty r) @ '']''"

text \<open>The request as a participant sends it, with its sequence number (a \<open>std::size_t\<close>).\<close>

record OGSClientRequest =
  ogs_nSeq :: "64 word"
  omeRequest :: OMEClientRequest

definition OGSClientRequest_toStr :: "OGSClientRequest \<Rightarrow> string" where
  "OGSClientRequest_toStr r =
     ''<OGSClientRequest> [nSeq: '' @ to_string_nat (unat (ogs_nSeq r)) @
     '', omeRequest: '' @ req_toStr (omeRequest r) @ '']''"

section \<open>Client responses\<close>

datatype ResponseType =
  Res_INVALID | Res_ACCEPTED | Res_CANCELLED | Res_FILLED | Res_CANCEL_REJECTED

record OMEClientResponse =
  res_type :: ResponseType
  res_clientId :: ClientID
  res_tickerId :: TickerID
  res_clientOrderId :: OrderID
  res_marketOrderId :: OrderID
  res_side :: Side
  res_price :: Price
  qtyExec :: Qty
  qtyRemain :: Qty

definition OMEClientResponse_default :: OMEClientResponse where
  "OMEClientResponse_default =
     \<lparr>res_type = Res_INVALID, res_clientId = ClientID_INVALID, res_tickerId = TickerID_INVALID,
      res_clientOrderId = OrderID_INVALID, res_marketOrderId = OrderID_INVALID,
      res_side = Side_INVALID, res_price = Price_INVALID, qtyExec = Qty_INVALID,
      qtyRemain = Qty_INVALID\<rparr>"

fun res_typeToStr :: "ResponseType \<Rightarrow> string" where
  "res_typeToStr Res_ACCEPTED = ''ACCEPTED''"
| "res_typeToStr Res_CANCELLED = ''CANCELLED''"
| "res_typeToStr Res_FILLED = ''FILLED''"
| "res_typeToStr Res_CANCEL_REJECTED = ''CANCEL_REJECTED''"
| "res_typeToStr Res_INVALID = ''INVALID''"

definition res_toStr :: "OMEClientResponse \<Rightarrow> string" where
  "res_toStr r =
     ''<OMEClientResponse> [type: '' @ res_typeToStr (res_type r) @
     '', client: '' @ clientIdToStr (res_clientId r) @
     '', ticker: '' @ tickerIdToStr (res_tickerId r) @
     '', oid_client: '' @ orderIdToStr (res_clientOrderId r) @
     '', oid_market: '' @ orderIdToStr (res_marketOrderId r) @
     '', side: '' @ sideToStr (res_side r) @
     '', qty_exec: '' @ qtyToStr (qtyExec r) @
     '', qty_remain: '' @ qtyToStr (qtyRemain r) @
     '', price: '' @ priceToStr (res_price r) @ '']''"

record OGSClientResponse =
  ogs_res_nSeq :: "64 word"
  omeResponse :: OMEClientResponse

definition OGSClientResponse_toString :: "OGSClientResponse \<Rightarrow> string" where
  "OGSClientResponse_toString r =
     ''<OGSClientResponse> [n: '' @ to_string_nat (unat (ogs_res_nSeq r)) @ '', '' @
     res_toStr (omeResponse r) @ '']''"

section \<open>Market updates\<close>

datatype UpdateType =
  MU_INVALID | MU_CLEAR | MU_ADD | MU_MODIFY | MU_CANCEL | MU_TRADE | MU_SNAPSHOT_START | MU_SNAPSHOT_END

record OMEMarketUpdate =
  mu_type :: UpdateType
  mu_orderId :: OrderID
  mu_tickerId :: TickerID
  mu_side :: Side
  mu_price :: Price
  mu_qty :: Qty
  mu_priority :: Priority

definition OMEMarketUpdate_default :: OMEMarketUpdate where
  "OMEMarketUpdate_default =
     \<lparr>mu_type = MU_INVALID, mu_orderId = OrderID_INVALID, mu_tickerId = TickerID_INVALID,
      mu_side = Side_INVALID, mu_price = Price_INVALID, mu_qty = Qty_INVALID,
      mu_priority = Priority_INVALID\<rparr>"

fun mu_typeToStr :: "UpdateType \<Rightarrow> string" where
  "mu_typeToStr MU_CLEAR = ''CLEAR''"
| "mu_typeToStr MU_ADD = ''ADD''"
| "mu_typeToStr MU_MODIFY = ''MODIFY''"
| "mu_typeToStr MU_CANCEL = ''CANCEL''"
| "mu_typeToStr MU_TRADE = ''TRADE''"
| "mu_typeToStr MU_SNAPSHOT_START = ''SNAPSHOT_START''"
| "mu_typeToStr MU_SNAPSHOT_END = ''SNAPSHOT_END''"
| "mu_typeToStr MU_INVALID = ''INVALID''"

definition mu_toStr :: "OMEMarketUpdate \<Rightarrow> string" where
  "mu_toStr u =
     ''<OMEMarketUpdate> [type: '' @ mu_typeToStr (mu_type u) @
     '', ticker: '' @ tickerIdToStr (mu_tickerId u) @
     '', oid: '' @ orderIdToStr (mu_orderId u) @
     '', side: '' @ sideToStr (mu_side u) @
     '', qty: '' @ qtyToStr (mu_qty u) @
     '', price: '' @ priceToStr (mu_price u) @
     '', priority: '' @ priorityToStr (mu_priority u) @ '']''"

record MDPMarketUpdate =
  mdp_nSeq :: "64 word"
  omeUpdate :: OMEMarketUpdate

definition MDPMarketUpdate_toStr :: "MDPMarketUpdate \<Rightarrow> string" where
  "MDPMarketUpdate_toStr u =
     ''<MDPMarketUpdate> [nSeq: '' @ to_string_nat (unat (mdp_nSeq u)) @ '', '' @
     mu_toStr (omeUpdate u) @ '']''"

section \<open>Orders and price levels\<close>

type_synonym ptr = "nat option"

record Order =
  tickerId :: TickerID
  clientId :: ClientID
  clientOrderId :: OrderID
  marketOrderId :: OrderID
  side :: Side
  price :: Price
  qty :: Qty
  priority :: Priority
  prev :: ptr
  nxt :: ptr

record OrdersAtPrice =
  level_side :: Side
  level_price :: Price
  order0 :: ptr
  level_prev :: ptr
  level_next :: ptr

text \<open>\<open>Order::to_string\<close> reads the neighbours' market identifiers through its two pointers:
  \<open>look\<close> is the memory the pointers refer to.\<close>

definition neighbourToStr :: "(nat \<Rightarrow> Order res) \<Rightarrow> ptr \<Rightarrow> string res" where
  "neighbourToStr look p =
     (case p of None \<Rightarrow> Inr (orderIdToStr OrderID_INVALID)
      | Some i \<Rightarrow> bind_res (look i) (\<lambda>n. Inr (orderIdToStr (marketOrderId n))))"

definition Order_to_string :: "(nat \<Rightarrow> Order res) \<Rightarrow> Order \<Rightarrow> string res" where
  "Order_to_string look ord =
     bind_res (neighbourToStr look (prev ord)) (\<lambda>p.
     bind_res (neighbourToStr look (nxt ord)) (\<lambda>n.
       Inr (''<Order>[ticker: '' @ tickerIdToStr (tickerId ord) @
            '', client: '' @ clientIdToStr (clientId ord) @
            '', oid_client: '' @ orderIdToStr (clientOrderId ord) @
            '', oid_market: '' @ orderIdToStr (marketOrderId ord) @
            '', side_: '' @ sideToStr (side ord) @
            '', price_: '' @ priceToStr (price ord) @
            '', qty_: '' @ qtyToStr (qty ord) @
            '', priority_: '' @ priorityToStr (priority ord) @
            '', prev_: '' @ p @ '', next_: '' @ n @ '']'')))"

end
