(* ===== verification/Memory_Pool.thy ===== *)
theory Memory_Pool
  imports Prelude
begin

text \<open>
  \<open>utils::MemoryPool<T>\<close> (src/src/lib/memory_pool.h): a fixed number of blocks, a flag per
  block, the index where the next object goes. A pointer returned by \<open>allocate\<close> is the
  index of its block; \<open>nullptr\<close> is \<^const>\<open>None\<close>. The storage of a block holds
  \<^const>\<open>Some\<close> object between its construction and its destruction.
\<close>

section \<open>The pool\<close>

record 'a MemoryBlock =
  storage :: "'a option"
  isFree :: bool

record 'a MemoryPool =
  memoryBlocks :: "'a MemoryBlock vec"
  nextFreeIndex :: nat
  freeBlocksCount :: nat
  lastFreedIndex :: nat

definition freshBlock :: "'a MemoryBlock" where
  "freshBlock = \<lparr>storage = None, isFree = True\<rparr>"

text \<open>
  The constructor's assertion compares the address of \<open>memoryBlocks[0]\<close> with that of its
  first member: it holds whenever that element exists.
\<close>

definition MemoryPool_init :: "nat \<Rightarrow> 'a MemoryPool res" where
  "MemoryPool_init n =
     (if n = 0 then Inl OutOfBounds
      else Inr \<lparr>memoryBlocks = vfill n freshBlock, nextFreeIndex = 0,
                freeBlocksCount = n, lastFreedIndex = 0\<rparr>)"

text \<open>
  The \<open>do ... while\<close> of \<open>updateNextFreeIndex\<close>. The loop only reads the flags and
  comes back to its start after as many rounds as there are blocks, so that many rounds are
  enough (\<open>nextFreeLoop_total\<close> below); running out of rounds is a loop that never ends.
\<close>

fun nextFreeLoop :: "nat \<Rightarrow> 'a MemoryBlock vec \<Rightarrow> nat \<Rightarrow> nat \<Rightarrow> nat res" where
  "nextFreeLoop rounds blocks startIndex cur =
     (if rounds = 0 then Inl Diverges
      else (let nxt = (cur + 1) mod vsize blocks in
        bind_res (vget blocks nxt) (\<lambda>b.
          if isFree b then Inr nxt
          else if nxt \<noteq> startIndex then nextFreeLoop (rounds - 1) blocks startIndex nxt
          else Inl (AssertFailed ''No free blocks found in Memory Pool.''))))"

declare nextFreeLoop.simps [simp del]

definition updateNextFreeIndex :: "'a MemoryPool \<Rightarrow> 'a MemoryPool res" where
  "updateNextFreeIndex p =
     bind_res (vget (memoryBlocks p) (nextFreeIndex p)) (\<lambda>b.
       if isFree b then Inr p
       else bind_res (nextFreeLoop (vsize (memoryBlocks p)) (memoryBlocks p)
                        (nextFreeIndex p) (nextFreeIndex p))
              (\<lambda>i. Inr (p\<lparr>nextFreeIndex := i\<rparr>)))"

definition allocate :: "'a MemoryPool \<Rightarrow> 'a \<Rightarrow> (nat option \<times> 'a MemoryPool) res" where
  "allocate p obj =
     (if freeBlocksCount p = 0 then Inr (None, p)
      else bind_res (vget (memoryBlocks p) (nextFreeIndex p)) (\<lambda>blk.
        if \<not> isFree blk then Inl (AssertFailed ''Expected free MemoryBlock at index'')
        else bind_res (vset (memoryBlocks p) (nextFreeIndex p) \<lparr>storage = Some obj, isFree = False\<rparr>) (\<lambda>bs.
          let ret = nextFreeIndex p;
              p1 = p\<lparr>memoryBlocks := bs, freeBlocksCount := freeBlocksCount p - 1\<rparr>
          in if freeBlocksCount p1 > 0
             then bind_res (updateNextFreeIndex p1) (\<lambda>p2. Inr (Some ret, p2))
             else Inr (Some ret, p1))))"

definition deallocate :: "'a MemoryPool \<Rightarrow> nat \<Rightarrow> 'a MemoryPool res" where
  "deallocate p elemIndex =
     (if \<not> elemIndex < vsize (memoryBlocks p) then Inl (AssertFailed ''Invalid element index.'')
      else bind_res (vget (memoryBlocks p) elemIndex) (\<lambda>blk.
        if isFree blk then Inl (AssertFailed ''Expected in-use MemoryBlock at index'')
        else bind_res (vset (memoryBlocks p) elemIndex \<lparr>storage = None, isFree = True\<rparr>) (\<lambda>bs.
          Inr (p\<lparr>memoryBlocks := bs, freeBlocksCount := freeBlocksCount p + 1,
                 lastFreedIndex := elemIndex, nextFreeIndex := elemIndex\<rparr>))))"

definition getFreeBlocksCount :: "'a MemoryPool \<Rightarrow> nat" where
  "getFreeBlocksCount p = freeBlocksCount p"

definition getTotalBlocksCount :: "'a MemoryPool \<Rightarrow> nat" where
  "getTotalBlocksCount p = vsize (memoryBlocks p)"

text \<open>
  Reading and writing an object through a pointer returned by \<^const>\<open>allocate\<close>, as the
  clients of the pool do: \<open>nullptr\<close> and objects that are not alive are failures.
\<close>

definition deref :: "'a MemoryPool \<Rightarrow> nat option \<Rightarrow> 'a res" where
  "deref p ptr =
     (case ptr of None \<Rightarrow> Inl NullDeref
      | Some i \<Rightarrow> bind_res (vget (memoryBlocks p) i) (\<lambda>blk.
          case storage blk of None \<Rightarrow> Inl UseAfterFree | Some x \<Rightarrow> Inr x))"

definition assign :: "'a MemoryPool \<Rightarrow> nat option \<Rightarrow> ('a \<Rightarrow> 'a) \<Rightarrow> 'a MemoryPool res" where
  "assign p ptr f =
     (case ptr of None \<Rightarrow> Inl NullDeref
      | Some i \<Rightarrow> bind_res (vget (memoryBlocks p) i) (\<lambda>blk.
          case storage blk of None \<Rightarrow> Inl UseAfterFree
          | Some x \<Rightarrow> bind_res (vset (memoryBlocks p) i (blk\<lparr>storage := Some (f x)\<rparr>))
                        (\<lambda>bs. Inr (p\<lparr>memoryBlocks := bs\<rparr>))))"

section \<open>The pool as a heap\<close>

text \<open>The objects alive in a pool, by address.\<close>

definition live :: "'a MemoryPool \<Rightarrow> nat \<Rightarrow> 'a option" where
  "live p i = (if i < vsize (memoryBlocks p) then storage (velem (memoryBlocks p) i) else None)"

definition pool_wf :: "'a MemoryPool \<Rightarrow> bool" where
  "pool_wf p \<longleftrightarrow>
     nextFreeIndex p < vsize (memoryBlocks p) \<and>
     (\<forall>i < vsize (memoryBlocks p).
        isFree (velem (memoryBlocks p) i) \<longleftrightarrow> storage (velem (memoryBlocks p) i) = None) \<and>
     freeBlocksCount p + card (dom (live p)) = vsize (memoryBlocks p) \<and>
     (freeBlocksCount p > 0 \<longrightarrow> isFree (velem (memoryBlocks p) (nextFreeIndex p)))"

lemma dom_live_subset: "dom (live p) \<subseteq> {..<vsize (memoryBlocks p)}"
  by (auto simp: live_def split: if_splits)

lemma finite_dom_live [simp]: "finite (dom (live p))"
  by (rule finite_subset [OF dom_live_subset]) simp

lemma card_dom_live_le: "card (dom (live p)) \<le> vsize (memoryBlocks p)"
  using card_mono [OF _ dom_live_subset, of p] by simp

lemma deref_eq_Inr [simp]: "deref p ptr = Inr x \<longleftrightarrow> (\<exists>i. ptr = Some i \<and> live p i = Some x)"
  by (auto simp: deref_def live_def split: option.splits)

lemma deref_live [simp]: "live p i = Some x \<Longrightarrow> deref p (Some i) = Inr x"
  by simp

lemma assign_ok:
  assumes "live p i = Some x"
  shows "\<exists>p'. assign p (Some i) f = Inr p' \<and> live p' = (live p)(i \<mapsto> f x) \<and>
     vsize (memoryBlocks p') = vsize (memoryBlocks p) \<and> (pool_wf p \<longrightarrow> pool_wf p') \<and> nextFreeIndex p' = nextFreeIndex p"
proof -
  let ?blk = "velem (memoryBlocks p) i"
  let ?p' = "p\<lparr>memoryBlocks := (memoryBlocks p)
                 \<lparr>velem := (velem (memoryBlocks p))(i := ?blk\<lparr>storage := Some (f x)\<rparr>)\<rparr>\<rparr>"
  from assms have i: "i < vsize (memoryBlocks p)" "storage ?blk = Some x"
    by (auto simp: live_def split: if_splits)
  then have a: "assign p (Some i) f = Inr ?p'"
    by (simp add: assign_def)
  have l: "live ?p' = (live p)(i \<mapsto> f x)"
    using i by (auto simp: live_def fun_eq_iff)
  have "dom (live ?p') = dom (live p)"
    using assms by (subst l) auto
  then have "pool_wf p \<longrightarrow> pool_wf ?p'"
    using i by (auto simp: pool_wf_def simp del: domIff)
  with a l show ?thesis by (intro exI [of _ ?p']) simp
qed

lemma assign_live:
  assumes "assign p ptr f = Inr p'"
  shows "\<exists>i x. ptr = Some i \<and> live p i = Some x \<and> live p' = (live p)(i \<mapsto> f x)"
proof -
  from assms obtain i x where "ptr = Some i" and i: "live p i = Some x"
    by (auto simp: assign_def live_def split: option.splits)
  with assign_ok [OF i, of f] assms show ?thesis by auto
qed

lemma deallocate_live:
  assumes "deallocate p i = Inr p'"
  shows "i < vsize (memoryBlocks p)" "live p' = (live p)(i := None)"
    "vsize (memoryBlocks p') = vsize (memoryBlocks p)"
  using assms by (auto simp: deallocate_def live_def fun_eq_iff split: if_splits)

section \<open>The scan for a free block\<close>

lemma cyclic_offset:
  assumes "s < n" "f < n"
  shows "\<exists>k. 0 < k \<and> k \<le> n \<and> (s + k) mod n = (f::nat)"
proof (cases "s < f")
  case True
  with assms show ?thesis by (intro exI [of _ "f - s"]) auto
next
  case False
  with assms show ?thesis by (intro exI [of _ "f + n - s"]) auto
qed

text \<open>
  After \<open>d\<close> rounds that met no free block, the remaining \<open>n - d\<close> rounds find one if
  there is one: the scan covers every block before it is back at its start.
\<close>

lemma nextFreeLoop_finds:
  assumes "rounds + d = n" "n = vsize bs" "s < n"
    and "\<forall>k. 0 < k \<and> k \<le> d \<longrightarrow> \<not> isFree (velem bs ((s + k) mod n))"
    and "\<exists>f < n. isFree (velem bs f)" "d < n"
  shows "\<exists>k < n. nextFreeLoop rounds bs s ((s + d) mod n) = Inr k \<and> isFree (velem bs k)"
  using assms
proof (induction rounds arbitrary: d)
  case 0
  then show ?case by simp
next
  case (Suc r)
  let ?nxt = "(s + Suc d) mod n"
  have nxt: "((s + d) mod n + 1) mod vsize bs = ?nxt" and lt: "?nxt < n"
    using Suc.prems(2,3) by (simp_all add: mod_Suc_eq)
  show ?case
  proof (cases "isFree (velem bs ?nxt)")
    case True
    with nxt lt Suc.prems(2) show ?thesis
      by (subst nextFreeLoop.simps) (auto simp: Let_def)
  next
    case busy: False
    then have all: "\<forall>k. 0 < k \<and> k \<le> Suc d \<longrightarrow> \<not> isFree (velem bs ((s + k) mod n))"
      using Suc.prems(4) le_Suc_eq by auto
    obtain f where f: "f < n" "isFree (velem bs f)" using Suc.prems(5) by auto
    then obtain k where "0 < k" "k \<le> n" "(s + k) mod n = f"
      using cyclic_offset Suc.prems(3) by blast
    with all f have d: "Suc d < n" by (metis not_less le_trans)
    then have "?nxt \<noteq> s"
      using d Suc.prems(3) by (auto simp: mod_if)
    moreover have "\<exists>k < n. nextFreeLoop r bs s ?nxt = Inr k \<and> isFree (velem bs k)"
      using Suc.IH [of "Suc d"] Suc.prems all d by simp
    ultimately show ?thesis
      using busy nxt lt Suc.prems(2) by (subst nextFreeLoop.simps) (auto simp: Let_def)
  qed
qed

lemma nextFreeLoop_total:
  assumes "s < vsize bs" "\<exists>f < vsize bs. isFree (velem bs f)"
  shows "\<exists>k < vsize bs. nextFreeLoop (vsize bs) bs s s = Inr k \<and> isFree (velem bs k)"
  using nextFreeLoop_finds [of "vsize bs" 0 "vsize bs" bs s] assms by auto

section \<open>What the operations promise\<close>

lemma pool_wf_free_exists:
  assumes "pool_wf p" "freeBlocksCount p > 0"
  shows "\<exists>f < vsize (memoryBlocks p). isFree (velem (memoryBlocks p) f)"
  using assms unfolding pool_wf_def by blast

lemma pool_wf_dom:
  "pool_wf p \<Longrightarrow> dom (live p) =
     {i. i < vsize (memoryBlocks p) \<and> \<not> isFree (velem (memoryBlocks p) i)}"
  by (auto simp: pool_wf_def live_def split: if_splits)

text \<open>
  The state of \<^const>\<open>allocate\<close> between the construction of the object and the search for
  the next free index: everything of \<^const>\<open>pool_wf\<close> but that the index is free.
\<close>

lemma updateNextFreeIndex_wf:
  assumes "nextFreeIndex p < vsize (memoryBlocks p)"
    and "\<forall>i < vsize (memoryBlocks p).
        isFree (velem (memoryBlocks p) i) \<longleftrightarrow> storage (velem (memoryBlocks p) i) = None"
    and "freeBlocksCount p + card (dom (live p)) = vsize (memoryBlocks p)"
    and "freeBlocksCount p > 0"
  shows "\<exists>k. updateNextFreeIndex p = Inr (p\<lparr>nextFreeIndex := k\<rparr>) \<and> pool_wf (p\<lparr>nextFreeIndex := k\<rparr>)"
proof (cases "isFree (velem (memoryBlocks p) (nextFreeIndex p))")
  case True
  with assms show ?thesis
    by (intro exI [of _ "nextFreeIndex p"]) (simp add: updateNextFreeIndex_def pool_wf_def)
next
  case False
  have "card (dom (live p)) < card {..<vsize (memoryBlocks p)}" using assms(3,4) by simp
  then have "\<not> {..<vsize (memoryBlocks p)} \<subseteq> dom (live p)"
    by (meson card_mono finite_dom_live not_le)
  then obtain f where "f < vsize (memoryBlocks p)" "live p f = None" by auto
  with assms(2) have "\<exists>f < vsize (memoryBlocks p). isFree (velem (memoryBlocks p) f)"
    by (auto simp: live_def)
  from nextFreeLoop_total [OF assms(1) this] obtain k where
    "k < vsize (memoryBlocks p)" "isFree (velem (memoryBlocks p) k)"
    "nextFreeLoop (vsize (memoryBlocks p)) (memoryBlocks p) (nextFreeIndex p) (nextFreeIndex p) = Inr k"
    by auto
  moreover have "live (p\<lparr>nextFreeIndex := k\<rparr>) = live p" by (simp add: live_def fun_eq_iff)
  ultimately show ?thesis using assms False
    by (intro exI [of _ k]) (auto simp: updateNextFreeIndex_def pool_wf_def)
qed

lemma allocate_wf:
  assumes "pool_wf p" "card (dom (live p)) < vsize (memoryBlocks p)"
  shows "\<exists>p'. allocate p x = Inr (Some (nextFreeIndex p), p') \<and> pool_wf p' \<and>
     live p (nextFreeIndex p) = None \<and> live p' = (live p)(nextFreeIndex p \<mapsto> x) \<and>
     vsize (memoryBlocks p') = vsize (memoryBlocks p)"
proof -
  let ?i = "nextFreeIndex p"
  let ?bs = "(memoryBlocks p)\<lparr>velem := (velem (memoryBlocks p))(?i := \<lparr>storage = Some x, isFree = False\<rparr>)\<rparr>"
  let ?p1 = "p\<lparr>memoryBlocks := ?bs, freeBlocksCount := freeBlocksCount p - 1\<rparr>"
  from assms have i: "?i < vsize (memoryBlocks p)" and c: "freeBlocksCount p > 0"
    and fr: "isFree (velem (memoryBlocks p) ?i)"
    by (auto simp: pool_wf_def)
  have none: "live p ?i = None" using assms(1) i fr by (simp add: pool_wf_def live_def)
  have l: "live ?p1 = (live p)(?i \<mapsto> x)" using i by (auto simp: live_def fun_eq_iff)
  have cnt: "freeBlocksCount ?p1 + card (dom (live ?p1)) = vsize (memoryBlocks ?p1)"
    using assms(1) c none by (subst l) (simp add: pool_wf_def card_insert_if domIff)
  have st: "\<forall>j < vsize (memoryBlocks ?p1).
      isFree (velem (memoryBlocks ?p1) j) \<longleftrightarrow> storage (velem (memoryBlocks ?p1) j) = None"
    using assms(1) by (simp add: pool_wf_def)
  have run: "allocate p x = (if freeBlocksCount ?p1 > 0
      then bind_res (updateNextFreeIndex ?p1) (\<lambda>p2. Inr (Some ?i, p2)) else Inr (Some ?i, ?p1))"
    using i c fr by (simp add: allocate_def Let_def)
  show ?thesis
  proof (cases "freeBlocksCount ?p1 > 0")
    case True
    then obtain k where "updateNextFreeIndex ?p1 = Inr (?p1\<lparr>nextFreeIndex := k\<rparr>)"
      and "pool_wf (?p1\<lparr>nextFreeIndex := k\<rparr>)"
      using updateNextFreeIndex_wf [of ?p1] i st cnt by auto
    moreover have "live (?p1\<lparr>nextFreeIndex := k\<rparr>) = live ?p1" by (simp add: live_def fun_eq_iff)
    ultimately show ?thesis using run True l none by auto
  next
    case False
    then have "pool_wf ?p1" unfolding pool_wf_def using i st cnt by simp
    with run False l none show ?thesis by auto
  qed
qed

text \<open>A pool from which nothing is ever released hands out its addresses in ascending order.\<close>

definition packed :: "'a MemoryPool \<Rightarrow> nat \<Rightarrow> bool" where
  "packed p n \<longleftrightarrow> dom (live p) = {..<n} \<and> (n < vsize (memoryBlocks p) \<longrightarrow> nextFreeIndex p = n)"

lemma allocate_packed:
  assumes wf: "pool_wf p" and pk: "packed p n" and n: "n < vsize (memoryBlocks p)"
  shows "\<exists>p'. allocate p x = Inr (Some n, p') \<and> pool_wf p' \<and> packed p' (Suc n) \<and> live p' = (live p)(n \<mapsto> x) \<and>
    vsize (memoryBlocks p') = vsize (memoryBlocks p)"
proof -
  have nf: "nextFreeIndex p = n" "dom (live p) = {..<n}" using pk n by (simp_all add: packed_def)
  from allocate_wf [OF wf, of x] n nf obtain p' where p': "allocate p x = Inr (Some n, p')" "pool_wf p'"
    "live p' = (live p)(n \<mapsto> x)" "vsize (memoryBlocks p') = vsize (memoryBlocks p)" by auto
  have free: "isFree (velem (memoryBlocks p) j)" if "n \<le> j" "j < vsize (memoryBlocks p)" for j
  proof -
    have "live p j = None" using that nf(2) by (metis domIff lessThan_iff not_less)
    then show ?thesis using wf that by (simp add: pool_wf_def live_def)
  qed
  have "nextFreeIndex p' = Suc n" if s: "Suc n < vsize (memoryBlocks p)"
    using p'(1) wf s n nf free [of n] free [of "Suc n"]
    by (auto simp: allocate_def updateNextFreeIndex_def pool_wf_def Let_def nextFreeLoop.simps split: if_splits)
  then have "packed p' (Suc n)" using p'(3,4) nf(2) by (auto simp: packed_def)
  with p' show ?thesis by blast
qed

lemma allocate_full:
  assumes "pool_wf p" "card (dom (live p)) = vsize (memoryBlocks p)"
  shows "allocate p x = Inr (None, p)"
  using assms by (simp add: pool_wf_def allocate_def)

lemma deallocate_wf:
  assumes "pool_wf p" "live p i = Some x"
  shows "\<exists>p'. deallocate p i = Inr p' \<and> pool_wf p' \<and> live p' = (live p)(i := None) \<and>
     vsize (memoryBlocks p') = vsize (memoryBlocks p) \<and> nextFreeIndex p' = i"
proof -
  let ?bs = "(memoryBlocks p)\<lparr>velem := (velem (memoryBlocks p))(i := \<lparr>storage = None, isFree = True\<rparr>)\<rparr>"
  let ?p' = "p\<lparr>memoryBlocks := ?bs, freeBlocksCount := freeBlocksCount p + 1,
               lastFreedIndex := i, nextFreeIndex := i\<rparr>"
  from assms have i: "i < vsize (memoryBlocks p)" "\<not> isFree (velem (memoryBlocks p) i)"
    by (auto simp: pool_wf_def live_def split: if_splits)
  then have run: "deallocate p i = Inr ?p'" by (simp add: deallocate_def)
  have l: "live ?p' = (live p)(i := None)"
    using deallocate_live(2) [OF run] .
  have "card (dom (live p)) = Suc (card (dom (live p) - {i}))"
    using assms(2) by (intro card.remove) auto
  then have cnt: "freeBlocksCount ?p' + card (dom (live ?p')) = vsize (memoryBlocks ?p')"
    using assms(1) by (subst l) (simp add: pool_wf_def dom_fun_upd)
  have st: "\<forall>j < vsize (memoryBlocks ?p').
      isFree (velem (memoryBlocks ?p') j) \<longleftrightarrow> storage (velem (memoryBlocks ?p') j) = None"
    using assms(1) by (simp add: pool_wf_def)
  have "pool_wf ?p'" unfolding pool_wf_def using i st cnt by simp
  with run l show ?thesis by auto
qed

lemma deallocate_dead:
  assumes "pool_wf p" "live p i = None"
  shows "\<exists>m. deallocate p i = Inl (AssertFailed m)"
  using assms by (auto simp: deallocate_def pool_wf_def live_def split: if_splits)

lemma MemoryPool_init_wf:
  assumes "0 < n"
  shows "\<exists>p. MemoryPool_init n = Inr p \<and> pool_wf p \<and> live p = Map.empty \<and> vsize (memoryBlocks p) = n"
proof -
  let ?p = "\<lparr>memoryBlocks = vfill n freshBlock, nextFreeIndex = 0, freeBlocksCount = n, lastFreedIndex = 0\<rparr>"
  have "live ?p = Map.empty" by (simp add: live_def fun_eq_iff freshBlock_def)
  with assms show ?thesis
    by (intro exI [of _ ?p]) (simp add: MemoryPool_init_def pool_wf_def freshBlock_def)
qed

section \<open>The interface of a block pool\<close>

text \<open>A run of allocations with the pointers they return.\<close>

fun alloc_list :: "('p \<Rightarrow> 'a \<Rightarrow> (nat option \<times> 'p) res) \<Rightarrow> 'p \<Rightarrow> 'a list \<Rightarrow> (nat option list \<times> 'p) res" where
  "alloc_list alloc p [] = Inr ([], p)"
| "alloc_list alloc p (x # xs) =
     bind_res (alloc p x) (\<lambda>(a, p1).
       bind_res (alloc_list alloc p1 xs) (\<lambda>(as, p2). Inr (a # as, p2)))"

text \<open>
  What a client of the pool relies on: a heap \<open>heap p\<close> of live objects, a capacity, an
  allocation that either extends the heap at a fresh address or reports that every block is in
  use, and a release that takes one object out and makes its block the next to be handed out.
\<close>

locale block_pool =
  fixes wf :: "'p \<Rightarrow> bool"
    and heap :: "'p \<Rightarrow> nat \<Rightarrow> 'a option"
    and cap :: "'p \<Rightarrow> nat"
    and alloc :: "'p \<Rightarrow> 'a \<Rightarrow> (nat option \<times> 'p) res"
    and dealloc :: "'p \<Rightarrow> nat \<Rightarrow> 'p res"
    and next_addr :: "'p \<Rightarrow> nat"
  assumes fin: "finite (dom (heap p))"
    and card_le: "wf p \<Longrightarrow> card (dom (heap p)) \<le> cap p"
    and alloc_room: "wf p \<Longrightarrow> card (dom (heap p)) < cap p \<Longrightarrow>
      \<exists>p'. alloc p x = Inr (Some (next_addr p), p') \<and> wf p' \<and> heap p (next_addr p) = None \<and>
        heap p' = (heap p)(next_addr p \<mapsto> x) \<and> cap p' = cap p"
    and alloc_full: "wf p \<Longrightarrow> card (dom (heap p)) = cap p \<Longrightarrow> alloc p x = Inr (None, p)"
    and dealloc_live: "wf p \<Longrightarrow> heap p i = Some x \<Longrightarrow>
      \<exists>p'. dealloc p i = Inr p' \<and> wf p' \<and> heap p' = (heap p)(i := None) \<and> cap p' = cap p \<and>
        next_addr p' = i"
begin

lemma alloc_all_room:
  assumes "wf p" "card (dom (heap p)) + length xs \<le> cap p"
  shows "\<exists>as p'. alloc_list alloc p xs = Inr (map Some as, p') \<and> wf p' \<and> distinct as \<and>
     length as = length xs \<and> set as \<inter> dom (heap p) = {} \<and>
     heap p' = (heap p)(as [\<mapsto>] xs) \<and> cap p' = cap p"
  using assms
proof (induction xs arbitrary: p)
  case Nil
  then show ?case by (intro exI [of _ "[]"]) auto
next
  case (Cons x xs)
  let ?i = "next_addr p"
  obtain p1 where p1: "alloc p x = Inr (Some ?i, p1)" "wf p1" "heap p ?i = None"
    "heap p1 = (heap p)(?i \<mapsto> x)" "cap p1 = cap p"
    using alloc_room [of p x] Cons.prems by auto
  have c: "card (dom (heap p1)) = Suc (card (dom (heap p)))"
    unfolding p1(4) using p1(3) fin [of p] by (simp add: card_insert_if domIff)
  have "card (dom (heap p1)) + length xs \<le> cap p1"
    unfolding c using p1(5) Cons.prems(2) by simp
  from Cons.IH [OF p1(2) this] obtain as p' where as:
    "alloc_list alloc p1 xs = Inr (map Some as, p')" "wf p'" "distinct as" "length as = length xs"
    "set as \<inter> dom (heap p1) = {}" "heap p' = (heap p1)(as [\<mapsto>] xs)" "cap p' = cap p1"
    by auto
  have "?i \<notin> set as" "set as \<inter> dom (heap p) = {}"
    using as(5) unfolding p1(4) by auto
  with p1 as show ?case
    by (intro exI [of _ "?i # as"] exI [of _ p']) (auto simp: domIff)
qed

text \<open>Live objects can be released in any order.\<close>

lemma dealloc_all:
  assumes "wf p" "distinct is" "set is \<subseteq> dom (heap p)"
  shows "\<exists>p'. runAll dealloc p is = Inr p' \<and> wf p' \<and> heap p' = heap p |` (- set is) \<and> cap p' = cap p"
  using assms
proof (induction "is" arbitrary: p)
  case Nil
  then show ?case by simp
next
  case (Cons i js)
  then obtain x where "heap p i = Some x" by auto
  from dealloc_live [OF Cons.prems(1) this] obtain p1 where p1: "dealloc p i = Inr p1" "wf p1" "heap p1 = (heap p)(i := None)"
    "cap p1 = cap p" by blast
  have "heap p |` (- set (i # js)) = heap p1 |` (- set js)" unfolding p1(3) by (auto simp: restrict_map_def fun_eq_iff)
  moreover have "set js \<subseteq> dom (heap p1)" using Cons.prems(2,3) p1(3) by auto
  ultimately show ?case using Cons.IH [OF p1(2)] Cons.prems(2) p1(1,4) by auto
qed

text \<open>An address that was just released is the one handed out next, with the new object in it.\<close>

lemma realloc_same_addr:
  assumes "wf p" "heap p i = Some x"
  shows "\<exists>p1 p2. dealloc p i = Inr p1 \<and> alloc p1 y = Inr (Some i, p2) \<and> wf p2 \<and>
     heap p2 = (heap p)(i \<mapsto> y)"
proof -
  obtain p1 where p1: "dealloc p i = Inr p1" "wf p1" "heap p1 = (heap p)(i := None)"
    "cap p1 = cap p" "next_addr p1 = i"
    using dealloc_live [OF assms] by auto
  have "card (dom (heap p)) = Suc (card (dom (heap p) - {i}))"
    using assms(2) fin by (intro card.remove) auto
  with card_le [OF assms(1)] p1 have "card (dom (heap p1)) < cap p1"
    by (simp add: dom_fun_upd)
  from alloc_room [OF p1(2) this, of y] p1 show ?thesis by auto
qed

end

interpretation mp: block_pool pool_wf live "\<lambda>p. vsize (memoryBlocks p)" allocate deallocate nextFreeIndex
  by unfold_locales
    (use card_dom_live_le allocate_wf allocate_full deallocate_wf in \<open>auto simp: finite_dom_live\<close>)

lemmas pool_laws = mp.alloc_room mp.alloc_full mp.dealloc_live mp.realloc_same_addr mp.alloc_all_room

lemmas pool_exec [exec_simps] =
  MemoryPool_init_def freshBlock_def updateNextFreeIndex_def allocate_def deallocate_def
  deref_def assign_def

section \<open>Properties\<close>

text \<open>C31: a pool hands out as many objects as it has free blocks. The addresses are pairwise different and different
  from those in use, every object is where its pointer says, and the objects already there are untouched.\<close>

theorem pool_serves_capacity:
  assumes "pool_wf p" "card (dom (live p)) + length xs \<le> getTotalBlocksCount p"
  shows "\<exists>as p'. alloc_list allocate p xs = Inr (map Some as, p') \<and> pool_wf p' \<and> distinct as \<and>
    set as \<inter> dom (live p) = {} \<and> live p' = (live p)(as [\<mapsto>] xs) \<and>
    getFreeBlocksCount p' = getFreeBlocksCount p - length xs"
proof -
  obtain as p' where a: "alloc_list allocate p xs = Inr (map Some as, p')" "pool_wf p'" "distinct as" "length as = length xs"
    "set as \<inter> dom (live p) = {}" "live p' = (live p)(as [\<mapsto>] xs)" "vsize (memoryBlocks p') = vsize (memoryBlocks p)"
    using mp.alloc_all_room [OF assms(1), of xs] assms(2) by (auto simp: getTotalBlocksCount_def)
  have "dom (live p') = set as \<union> dom (live p)" using a(4,6) by (simp add: dom_map_upds)
  then have "card (dom (live p')) = length xs + card (dom (live p))"
    using a(3,4,5) by (simp add: card_Un_disjoint distinct_card)
  moreover have "freeBlocksCount p' + card (dom (live p')) = vsize (memoryBlocks p)"
    "freeBlocksCount p + card (dom (live p)) = vsize (memoryBlocks p)"
    using a(2,7) assms(1) by (auto simp: pool_wf_def)
  ultimately have "getFreeBlocksCount p' = getFreeBlocksCount p - length xs" by (simp add: getFreeBlocksCount_def)
  with a show ?thesis by blast
qed

theorem pool_serves_capacity_witness:
  "\<exists>(p :: int MemoryPool) as p'. MemoryPool_init 3 = Inr p \<and>
    alloc_list allocate p [10, 20, 30] = Inr (map Some as, p') \<and> distinct as \<and> getFreeBlocksCount p' = 0"
proof -
  obtain p :: "int MemoryPool" where p: "MemoryPool_init 3 = Inr p" "pool_wf p" "live p = Map.empty" "vsize (memoryBlocks p) = 3"
    using MemoryPool_init_wf [of 3] by auto
  then have "getFreeBlocksCount p = 3" by (simp add: pool_wf_def getFreeBlocksCount_def)
  moreover have "card (dom (live p)) + length [10 :: int, 20, 30] \<le> getTotalBlocksCount p"
    using p by (simp add: getTotalBlocksCount_def)
  from pool_serves_capacity [OF p(2) this] obtain as p' where "alloc_list allocate p [10, 20, 30] = Inr (map Some as, p')"
    "distinct as" "getFreeBlocksCount p' = getFreeBlocksCount p - length [10 :: int, 20, 30]" by blast
  ultimately show ?thesis using p(1) by (intro exI [of _ p] exI [of _ as] exI [of _ p'] conjI) simp_all
qed

text \<open>A pool with no free block returns \<open>nullptr\<close> and does not change.\<close>

theorem pool_exhausted_returns_null:
  assumes "pool_wf p" "card (dom (live p)) = getTotalBlocksCount p"
  shows "allocate p x = Inr (None, p) \<and> getFreeBlocksCount p = 0"
  using mp.alloc_full [OF assms(1)] assms by (auto simp: getTotalBlocksCount_def getFreeBlocksCount_def pool_wf_def)

theorem pool_exhausted_returns_null_witness:
  "\<exists>(p :: int MemoryPool) p'. MemoryPool_init 1 = Inr p \<and> allocate p 10 = Inr (Some 0, p') \<and> allocate p' 20 = Inr (None, p')"
proof -
  obtain p :: "int MemoryPool" where p: "MemoryPool_init 1 = Inr p" "pool_wf p" "live p = Map.empty" "vsize (memoryBlocks p) = 1"
    using MemoryPool_init_wf [of 1] by auto
  obtain p' where p': "allocate p 10 = Inr (Some (nextFreeIndex p), p')" "pool_wf p'"
    "live p' = (live p)(nextFreeIndex p \<mapsto> 10)" "vsize (memoryBlocks p') = 1"
    using mp.alloc_room [OF p(2), of 10] p by auto
  have "nextFreeIndex p = 0" using p(1) by (auto simp: MemoryPool_init_def)
  with p p' pool_exhausted_returns_null [OF p'(2), of 20] show ?thesis by (auto simp: getTotalBlocksCount_def)
qed

text \<open>A released block is the next one handed out, and the release and the new allocation together only replace the
  object at that address.\<close>

theorem pool_reuses_last_freed:
  assumes "pool_wf p" "live p i = Some x"
  shows "\<exists>p1 p2. deallocate p i = Inr p1 \<and> live p1 = (live p)(i := None) \<and> allocate p1 y = Inr (Some i, p2) \<and> pool_wf p2 \<and>
    live p2 = (live p)(i \<mapsto> y)"
  using mp.realloc_same_addr [OF assms, of y] mp.dealloc_live [OF assms] by auto

theorem pool_reuses_last_freed_witness:
  "\<exists>(p :: int MemoryPool) p0 p1 p2. MemoryPool_init 2 = Inr p \<and> allocate p 10 = Inr (Some 0, p0) \<and>
    deallocate p0 0 = Inr p1 \<and> allocate p1 20 = Inr (Some 0, p2)"
proof -
  obtain p :: "int MemoryPool" where p: "MemoryPool_init 2 = Inr p" "pool_wf p" "live p = Map.empty" "vsize (memoryBlocks p) = 2"
    using MemoryPool_init_wf [of 2] by auto
  have z: "nextFreeIndex p = 0" using p(1) by (auto simp: MemoryPool_init_def)
  obtain p' where p': "allocate p 10 = Inr (Some 0, p')" "pool_wf p'" "live p' 0 = Some 10"
    using mp.alloc_room [OF p(2), of 10] p z by auto
  with p pool_reuses_last_freed [OF p'(2,3), of 20] show ?thesis by blast
qed

text \<open>Releasing an address twice, or one outside the pool, is stopped by an assertion.\<close>

theorem pool_release_checked:
  assumes "pool_wf p" "live p i = None"
  shows "\<exists>msg. deallocate p i = Inl (AssertFailed msg)"
  using assms by (auto simp: deallocate_def pool_wf_def live_def split: if_splits)

theorem pool_release_checked_witness:
  "\<exists>(p :: int MemoryPool) msg. MemoryPool_init 2 = Inr p \<and> deallocate p 5 = Inl (AssertFailed msg)"
proof -
  obtain p :: "int MemoryPool" where p: "MemoryPool_init 2 = Inr p" "pool_wf p" "live p = Map.empty"
    using MemoryPool_init_wf [of 2] by auto
  with pool_release_checked [OF p(2), of 5] show ?thesis by auto
qed

end
