(* ===== verification/LF_Queue.thy ===== *)
theory LF_Queue
  imports Prelude
begin

text \<open>
  \<open>utils::LFQueue<T>\<close> (src/src/lib/lock_free_queue.h), one operation at a time: a ring of
  \<open>queue_.size()\<close> slots, a read index, a write index and the number of elements. The
  interleaving of a producer and a consumer is in \<open>LF_Queue_Concurrent\<close>.
\<close>

section \<open>The queue\<close>

record 'a LFQueue =
  nextIndexToRead :: nat
  nextIndexToWrite :: nat
  numElements :: nat
  queue :: "'a vec"

text \<open>The constructor: \<open>queue_(size)\<close> holds \<open>size\<close> value-initialised elements.\<close>

definition LFQueue_init :: "'a \<Rightarrow> nat \<Rightarrow> 'a LFQueue" where
  "LFQueue_init d n = \<lparr>nextIndexToRead = 0, nextIndexToWrite = 0, numElements = 0, queue = vfill n d\<rparr>"

text \<open>A slot pointer is the index of the slot.\<close>

definition getNextToWrite :: "'a LFQueue \<Rightarrow> nat option" where
  "getNextToWrite q = (if numElements q < vsize (queue q) then Some (nextIndexToWrite q) else None)"

definition getNextToRead :: "'a LFQueue \<Rightarrow> nat option" where
  "getNextToRead q = (if numElements q > 0 then Some (nextIndexToRead q) else None)"

definition updateWriteIndex :: "'a LFQueue \<Rightarrow> 'a LFQueue" where
  "updateWriteIndex q =
     q\<lparr>nextIndexToWrite := (nextIndexToWrite q + 1) mod vsize (queue q),
       numElements := numElements q + 1\<rparr>"

definition updateReadIndex :: "'a LFQueue \<Rightarrow> 'a LFQueue res" where
  "updateReadIndex q =
     (if numElements q > 0
      then Inr (q\<lparr>nextIndexToRead := (nextIndexToRead q + 1) mod vsize (queue q),
                  numElements := numElements q - 1\<rparr>)
      else Inl (AssertFailed ''No elements to read.''))"

definition size_q :: "'a LFQueue \<Rightarrow> nat" where
  "size_q q = numElements q"

definition push :: "'a LFQueue \<Rightarrow> 'a \<Rightarrow> (bool \<times> 'a LFQueue) res" where
  "push q value =
     (case getNextToWrite q of
        None \<Rightarrow> Inr (False, q)
      | Some slot \<Rightarrow> bind_res (vset (queue q) slot value) (\<lambda>v.
          Inr (True, updateWriteIndex (q\<lparr>queue := v\<rparr>))))"

definition pop :: "'a LFQueue \<Rightarrow> ('a option \<times> 'a LFQueue) res" where
  "pop q =
     (case getNextToRead q of
        None \<Rightarrow> Inr (None, q)
      | Some slot \<Rightarrow> bind_res (vget (queue q) slot) (\<lambda>value.
          bind_res (updateReadIndex q) (\<lambda>q'. Inr (Some value, q'))))"

lemmas queue_exec [exec_simps] =
  getNextToWrite_def getNextToRead_def updateWriteIndex_def updateReadIndex_def push_def pop_def
  LFQueue_init_def size_q_def

section \<open>The queue as a list\<close>

definition queue_wf :: "'a LFQueue \<Rightarrow> bool" where
  "queue_wf q \<longleftrightarrow>
     0 < vsize (queue q) \<and> numElements q \<le> vsize (queue q) \<and>
     nextIndexToRead q < vsize (queue q) \<and>
     nextIndexToWrite q = (nextIndexToRead q + numElements q) mod vsize (queue q)"

definition contents :: "'a LFQueue \<Rightarrow> 'a list" where
  "contents q = map (\<lambda>i. velem (queue q) ((nextIndexToRead q + i) mod vsize (queue q)))
                    [0..<numElements q]"

lemma length_contents [simp]: "length (contents q) = numElements q"
  by (simp add: contents_def)

lemma LFQueue_init_wf: "0 < n \<Longrightarrow> queue_wf (LFQueue_init d n)"
  by (simp add: queue_wf_def LFQueue_init_def)

lemma LFQueue_init_contents [simp]: "contents (LFQueue_init d n) = []"
  by (simp add: contents_def LFQueue_init_def)

lemma LFQueue_init_size [simp]: "vsize (queue (LFQueue_init d n)) = n"
  by (simp add: LFQueue_init_def)

lemma ring_index_fresh:
  assumes "(r::nat) < n" "i < k" "k < n"
  shows "(r + i) mod n \<noteq> (r + k) mod n"
proof
  assume "(r + i) mod n = (r + k) mod n"
  then have "n dvd (r + k) - (r + i)" using assms by (subst mod_eq_dvd_iff_nat [symmetric]) auto
  then have "n dvd k - i" by simp
  with assms show False by (meson dvd_imp_le le_less_trans less_imp_diff_less not_le zero_less_diff)
qed

lemma push_room:
  assumes "queue_wf q" "numElements q < vsize (queue q)"
  shows "\<exists>q'. push q x = Inr (True, q') \<and> queue_wf q' \<and> contents q' = contents q @ [x] \<and>
     vsize (queue q') = vsize (queue q)"
proof -
  let ?n = "vsize (queue q)" and ?w = "nextIndexToWrite q"
  let ?v = "(queue q)\<lparr>velem := (velem (queue q))(?w := x)\<rparr>"
  let ?q' = "updateWriteIndex (q\<lparr>queue := ?v\<rparr>)"
  from assms have w: "?w < ?n" "?w = (nextIndexToRead q + numElements q) mod ?n"
    by (simp_all add: queue_wf_def)
  have "push q x = Inr (True, ?q')"
    using assms w(1) by (simp add: push_def getNextToWrite_def)
  moreover have "queue_wf ?q'"
    using assms w by (auto simp: queue_wf_def updateWriteIndex_def mod_Suc_eq)
  moreover have "velem ?v ((nextIndexToRead q + i) mod ?n) = velem (queue q) ((nextIndexToRead q + i) mod ?n)"
    if "i < numElements q" for i
    using ring_index_fresh [of "nextIndexToRead q" ?n i "numElements q"] that assms w(2)
    by (simp add: queue_wf_def)
  then have "contents ?q' = contents q @ [x]"
    using w(2) by (simp add: contents_def updateWriteIndex_def)
  moreover have "vsize (queue ?q') = vsize (queue q)" by (simp add: updateWriteIndex_def)
  ultimately show ?thesis by blast
qed

lemma push_full: "numElements q = vsize (queue q) \<Longrightarrow> push q x = Inr (False, q)"
  by (simp add: push_def getNextToWrite_def)

lemma pop_some:
  assumes "queue_wf q" "contents q = x # xs"
  shows "\<exists>q'. pop q = Inr (Some x, q') \<and> queue_wf q' \<and> contents q' = xs \<and>
     vsize (queue q') = vsize (queue q)"
proof -
  let ?n = "vsize (queue q)" and ?r = "nextIndexToRead q"
  let ?q' = "q\<lparr>nextIndexToRead := (?r + 1) mod ?n, numElements := numElements q - 1\<rparr>"
  from assms(2) obtain k where k: "numElements q = Suc k"
    by (metis length_Cons length_contents)
  have r: "?r < ?n" using assms(1) by (simp add: queue_wf_def)
  have split: "contents q = velem (queue q) ?r # map (\<lambda>i. velem (queue q) ((?r + Suc i) mod ?n)) [0..<k]"
    using r k by (simp add: contents_def upt_conv_Cons map_Suc_upt [symmetric] del: upt_Suc)
  then have x: "x = velem (queue q) ?r" using assms(2) by simp
  have "contents ?q' = xs"
    using split assms(2) k by (simp add: contents_def mod_add_left_eq)
  moreover have "pop q = Inr (Some x, ?q')"
    using r k x by (simp add: pop_def getNextToRead_def updateReadIndex_def)
  moreover have "queue_wf ?q'"
    using assms(1) k by (auto simp: queue_wf_def mod_add_left_eq)
  ultimately show ?thesis by auto
qed

lemma pop_none: "contents q = [] \<Longrightarrow> pop q = Inr (None, q)"
  by (simp add: pop_def getNextToRead_def flip: length_contents)

text \<open>Reading in place: look at the first element, then step over it.\<close>

lemma read_in_place:
  assumes "queue_wf q" "contents q = x # xs"
  shows "\<exists>slot q'. getNextToRead q = Some slot \<and> size_q q \<noteq> 0 \<and> vget (queue q) slot = Inr x \<and>
    updateReadIndex q = Inr q' \<and> queue_wf q' \<and> contents q' = xs \<and> vsize (queue q') = vsize (queue q)"
proof -
  have "numElements q \<noteq> 0" using assms(2) by (metis length_contents length_0_conv list.distinct(1))
  with pop_some [OF assms] show ?thesis by (auto simp: pop_def getNextToRead_def size_q_def)
qed

lemma updateReadIndex_keeps: "queue_wf q \<Longrightarrow> updateReadIndex q = Inr q' \<Longrightarrow> queue_wf q'"
  by (cases "numElements q") (auto simp: updateReadIndex_def queue_wf_def mod_add_left_eq)

section \<open>The interface of a bounded queue\<close>

text \<open>Offering the elements of a list one after the other, ignoring the refusals.\<close>

fun offer :: "('q \<Rightarrow> 'a \<Rightarrow> (bool \<times> 'q) res) \<Rightarrow> 'q \<Rightarrow> 'a list \<Rightarrow> 'q res" where
  "offer enq q [] = Inr q"
| "offer enq q (x # xs) = bind_res (enq q x) (\<lambda>(ok, q'). offer enq q' xs)"

text \<open>Taking a number of elements out.\<close>

fun drain :: "('q \<Rightarrow> ('a option \<times> 'q) res) \<Rightarrow> 'q \<Rightarrow> nat \<Rightarrow> ('a option list \<times> 'q) res" where
  "drain deq q 0 = Inr ([], q)"
| "drain deq q (Suc n) = bind_res (deq q) (\<lambda>(x, q1). bind_res (drain deq q1 n) (\<lambda>(xs, q2). Inr (x # xs, q2)))"

locale bounded_queue =
  fixes wf :: "'q \<Rightarrow> bool"
    and items :: "'q \<Rightarrow> 'a list"
    and cap :: "'q \<Rightarrow> nat"
    and enq :: "'q \<Rightarrow> 'a \<Rightarrow> (bool \<times> 'q) res"
    and deq :: "'q \<Rightarrow> ('a option \<times> 'q) res"
  assumes items_le: "wf q \<Longrightarrow> length (items q) \<le> cap q"
    and enq_room: "wf q \<Longrightarrow> length (items q) < cap q \<Longrightarrow>
      \<exists>q'. enq q x = Inr (True, q') \<and> wf q' \<and> items q' = items q @ [x] \<and> cap q' = cap q"
    and enq_full: "wf q \<Longrightarrow> length (items q) = cap q \<Longrightarrow> enq q x = Inr (False, q)"
    and deq_some: "wf q \<Longrightarrow> items q = x # xs \<Longrightarrow>
      \<exists>q'. deq q = Inr (Some x, q') \<and> wf q' \<and> items q' = xs \<and> cap q' = cap q"
    and deq_none: "wf q \<Longrightarrow> items q = [] \<Longrightarrow> deq q = Inr (None, q)"
begin

text \<open>An enqueue never fails; it appends the element or, when the queue is full, drops it.\<close>

lemma enq_total:
  assumes "wf q"
  shows "\<exists>ok q'. enq q x = Inr (ok, q') \<and> wf q' \<and> items q' = take (cap q) (items q @ [x]) \<and> cap q' = cap q"
proof (cases "length (items q) < cap q")
  case True
  with enq_room [OF assms True, of x] show ?thesis by auto
next
  case False
  then have "length (items q) = cap q" using items_le [OF assms] by simp
  with enq_full [OF assms this] assms show ?thesis by auto
qed

lemma offer_total:
  assumes "wf q"
  shows "\<exists>q'. offer enq q xs = Inr q' \<and> wf q' \<and> items q' = take (cap q) (items q @ xs) \<and> cap q' = cap q"
  using assms
proof (induction xs arbitrary: q)
  case Nil
  then show ?case using items_le by simp
next
  case (Cons x xs)
  from enq_total [OF Cons.prems, of x] obtain ok q1 where q1: "enq q x = Inr (ok, q1)" "wf q1"
    "items q1 = take (cap q) (items q @ [x])" "cap q1 = cap q"
    by auto
  have "take (cap q) (items q1 @ xs) = take (cap q) (items q @ x # xs)"
    unfolding q1(3) by (cases "length (items q) < cap q") auto
  with Cons.IH [OF q1(2)] q1 show ?case by auto
qed

lemma drain_items:
  assumes "wf q" "n \<le> length (items q)"
  shows "\<exists>q'. drain deq q n = Inr (map Some (take n (items q)), q') \<and> wf q' \<and> items q' = drop n (items q) \<and> cap q' = cap q"
  using assms
proof (induction n arbitrary: q)
  case 0
  then show ?case by simp
next
  case (Suc n)
  then obtain x xs where xs: "items q = x # xs" by (cases "items q") auto
  from deq_some [OF Suc.prems(1) xs] obtain q1 where q1: "deq q = Inr (Some x, q1)" "wf q1" "items q1 = xs" "cap q1 = cap q"
    by auto
  with Suc.IH [OF q1(2)] Suc.prems(2) xs show ?case by auto
qed

text \<open>Whatever fits comes out again, in order.\<close>

lemma fifo:
  assumes "wf q" "items q = []" "length xs \<le> cap q"
  shows "\<exists>q1 q2. offer enq q xs = Inr q1 \<and> drain deq q1 (length xs) = Inr (map Some xs, q2) \<and> items q2 = []"
proof -
  from offer_total [OF assms(1), of xs] assms obtain q1 where "offer enq q xs = Inr q1" "wf q1" "items q1 = xs"
    by auto
  with drain_items [of q1 "length xs"] show ?thesis by auto
qed

end

lemma queue_wf_le: "queue_wf q \<Longrightarrow> numElements q \<le> vsize (queue q)"
  by (simp add: queue_wf_def)

interpretation lfq: bounded_queue queue_wf contents "\<lambda>q. vsize (queue q)" push pop
  by unfold_locales (simp_all add: queue_wf_le push_room push_full pop_some pop_none)

section \<open>Properties\<close>

text \<open>What is pushed into an empty queue, as far as it fits, comes out again in the same order, and the queue is
  empty afterwards.\<close>

theorem queue_fifo:
  assumes "queue_wf q" "contents q = []" "length xs \<le> vsize (queue q)"
  shows "\<exists>q1 q2. offer push q xs = Inr q1 \<and> size_q q1 = length xs \<and>
    drain pop q1 (length xs) = Inr (map Some xs, q2) \<and> size_q q2 = 0 \<and> pop q2 = Inr (None, q2)"
proof -
  obtain q1 where q1: "offer push q xs = Inr q1" "queue_wf q1" "contents q1 = xs"
    using lfq.offer_total [OF assms(1), of xs] assms(2,3) by auto
  obtain q2 where q2: "drain pop q1 (length xs) = Inr (map Some xs, q2)" "contents q2 = []"
    using lfq.drain_items [OF q1(2), of "length xs"] q1(3) by auto
  have "size_q q1 = length xs" "size_q q2 = 0" using q1(3) q2(2) unfolding size_q_def by (simp_all flip: length_contents)
  with q1 q2 pop_none show ?thesis by blast
qed

theorem queue_fifo_witness:
  "\<exists>q1 q2. offer push (LFQueue_init (0 :: int) 4) [7, 8, 9] = Inr q1 \<and> drain pop q1 3 = Inr ([Some 7, Some 8, Some 9], q2)"
  using queue_fifo [of "LFQueue_init (0 :: int) 4" "[7, 8, 9]"] LFQueue_init_wf [of 4 "0 :: int"]
  by (auto simp: numeral_3_eq_3)

text \<open>A push never fails otherwise than by refusing: into a full queue it changes nothing and reports so; below the
  capacity it appends.\<close>

theorem push_appends_or_refuses:
  assumes "queue_wf q"
  shows "\<exists>q'. push q x = Inr (size_q q < vsize (queue q), q') \<and> queue_wf q' \<and>
    contents q' = (if size_q q < vsize (queue q) then contents q @ [x] else contents q)"
proof (cases "size_q q < vsize (queue q)")
  case True
  with push_room [OF assms, of x] show ?thesis by (auto simp: size_q_def)
next
  case False
  then have "numElements q = vsize (queue q)" using queue_wf_le [OF assms] by (simp add: size_q_def)
  with push_full [OF this] assms show ?thesis by (simp add: size_q_def)
qed

theorem push_appends_or_refuses_witness:
  "\<exists>q'. push (LFQueue_init (0 :: int) 4) 7 = Inr (True, q') \<and> contents q' = [7]"
  using push_appends_or_refuses [OF LFQueue_init_wf, of 4 "0 :: int" 7] by (auto simp: size_q_def LFQueue_init_def contents_def)

end
