(* ===== verification/Order_Book.thy ===== *)
theory Order_Book
  imports Exchange_Messages Memory_Pool LF_Queue
begin

text \<open>
  \<open>MatchingEngine::OrderBook\<close> (src/src/core/matching_engine/order_book.h, order_book.cpp):
  the limit order book of one instrument, statement by statement over its two memory pools.
  Every pointer access is a read or a write of a pool, so a null pointer, a released object or
  an index out of range shows as a failure. Logging has no effect on the book and is left out.
  The termination of the matching loop is proved with the definition.
\<close>

section \<open>State\<close>

record OrderBook =
  assignedTicker :: TickerID
  mapClientIdToOrder :: "ptr vec vec"
  bidsByPrice :: ptr
  asksByPrice :: ptr
  mapPriceToPriceLevel :: "ptr vec"
  ordersAtPricePool :: "OrdersAtPrice MemoryPool"
  orderPool :: "Order MemoryPool"
  clientResponse :: OMEClientResponse
  marketUpdate :: OMEMarketUpdate
  nextMarketOid :: OrderID

text \<open>
  What a book reaches through its reference \<open>ome_\<close> to the matching engine: the two outgoing
  queues. The books of all instruments share them.
\<close>

record MEQueues =
  txResponses :: "OMEClientResponse LFQueue"
  txMarketUpdates :: "OMEMarketUpdate LFQueue"

text \<open>\<open>MatchingEngine::dispatchClientResponse\<close> and \<open>publishMarketUpdate\<close>
  (matching_engine.cpp): a message that does not fit is logged and dropped.\<close>

definition dispatchClientResponse :: "MEQueues \<Rightarrow> OMEClientResponse \<Rightarrow> MEQueues res" where
  "dispatchClientResponse me r =
     bind_res (push (txResponses me) r) (\<lambda>(ok, q). Inr (me\<lparr>txResponses := q\<rparr>))"

definition publishMarketUpdate :: "MEQueues \<Rightarrow> OMEMarketUpdate \<Rightarrow> MEQueues res" where
  "publishMarketUpdate me u =
     bind_res (push (txMarketUpdates me) u) (\<lambda>(ok, q). Inr (me\<lparr>txMarketUpdates := q\<rparr>))"

text \<open>Reads and writes through order and level pointers.\<close>

definition rdO :: "OrderBook \<Rightarrow> ptr \<Rightarrow> Order res" where
  "rdO b p = deref (orderPool b) p"

definition wrO :: "OrderBook \<Rightarrow> ptr \<Rightarrow> (Order \<Rightarrow> Order) \<Rightarrow> OrderBook res" where
  "wrO b p f = bind_res (assign (orderPool b) p f) (\<lambda>pl. Inr (b\<lparr>orderPool := pl\<rparr>))"

definition rdL :: "OrderBook \<Rightarrow> ptr \<Rightarrow> OrdersAtPrice res" where
  "rdL b p = deref (ordersAtPricePool b) p"

definition wrL :: "OrderBook \<Rightarrow> ptr \<Rightarrow> (OrdersAtPrice \<Rightarrow> OrdersAtPrice) \<Rightarrow> OrderBook res" where
  "wrL b p f = bind_res (assign (ordersAtPricePool b) p f) (\<lambda>pl. Inr (b\<lparr>ordersAtPricePool := pl\<rparr>))"

text \<open>\<open>OrderBook::OrderBook\<close> with the member initialisers of the class.\<close>

definition OrderBook_init :: "TickerID \<Rightarrow> OrderBook res" where
  "OrderBook_init t =
     bind_res (MemoryPool_init MAX_PRICE_LEVELS) (\<lambda>lp.
     bind_res (MemoryPool_init MAX_ORDER_IDS) (\<lambda>op.
       Inr \<lparr>assignedTicker = t,
            mapClientIdToOrder = vfill MAX_N_CLIENTS (vfill MAX_ORDER_IDS None),
            bidsByPrice = None, asksByPrice = None,
            mapPriceToPriceLevel = vfill MAX_PRICE_LEVELS None,
            ordersAtPricePool = lp, orderPool = op,
            clientResponse = OMEClientResponse_default, marketUpdate = OMEMarketUpdate_default,
            nextMarketOid = 1\<rparr>))"

section \<open>Small operations\<close>

definition getNewMarketOrderId :: "OrderBook \<Rightarrow> OrderID \<times> OrderBook" where
  "getNewMarketOrderId b = (nextMarketOid b, b\<lparr>nextMarketOid := nextMarketOid b + 1\<rparr>)"

text \<open>
  \<open>price % MAX_PRICE_LEVELS\<close>: the usual arithmetic conversions turn the signed price into an
  unsigned 64-bit value before the remainder is taken.
\<close>

definition priceToIndex :: "Price \<Rightarrow> nat" where
  "priceToIndex px = unat px mod MAX_PRICE_LEVELS"

definition getLevelForPrice :: "OrderBook \<Rightarrow> Price \<Rightarrow> ptr res" where
  "getLevelForPrice b px = vget (mapPriceToPriceLevel b) (priceToIndex px)"

definition setLevelForPrice :: "OrderBook \<Rightarrow> Price \<Rightarrow> ptr \<Rightarrow> OrderBook res" where
  "setLevelForPrice b px p =
     bind_res (vset (mapPriceToPriceLevel b) (priceToIndex px) p) (\<lambda>m.
       Inr (b\<lparr>mapPriceToPriceLevel := m\<rparr>))"

definition getNextPriority :: "OrderBook \<Rightarrow> Price \<Rightarrow> Priority res" where
  "getNextPriority b px =
     bind_res (getLevelForPrice b px) (\<lambda>l.
       if l = None then Inr 1
       else bind_res (rdL b l) (\<lambda>lv.
            bind_res (rdO b (order0 lv)) (\<lambda>o0.
            bind_res (rdO b (prev o0)) (\<lambda>lst. Inr (priority lst + 1)))))"

text \<open>\<open>mapClientIdToOrder_[client][oid] = p\<close>\<close>

definition setClientOrder :: "OrderBook \<Rightarrow> ClientID \<Rightarrow> OrderID \<Rightarrow> ptr \<Rightarrow> OrderBook res" where
  "setClientOrder b c k p =
     bind_res (vget (mapClientIdToOrder b) (unat c)) (\<lambda>m.
     bind_res (vset m (unat k) p) (\<lambda>m'.
     bind_res (vset (mapClientIdToOrder b) (unat c) m') (\<lambda>mm.
       Inr (b\<lparr>mapClientIdToOrder := mm\<rparr>))))"

text \<open>The reference \<open>bestOrdersByPrice\<close>: the bids for \<open>BUY\<close>, otherwise the asks.\<close>

definition bestOrdersByPrice :: "OrderBook \<Rightarrow> Side \<Rightarrow> ptr" where
  "bestOrdersByPrice b sd = (if sd = BUY then bidsByPrice b else asksByPrice b)"

definition setBestOrdersByPrice :: "OrderBook \<Rightarrow> Side \<Rightarrow> ptr \<Rightarrow> OrderBook" where
  "setBestOrdersByPrice b sd p = (if sd = BUY then b\<lparr>bidsByPrice := p\<rparr> else b\<lparr>asksByPrice := p\<rparr>)"

section \<open>Price levels\<close>

definition shouldAddAfter :: "OrdersAtPrice \<Rightarrow> OrdersAtPrice \<Rightarrow> bool" where
  "shouldAddAfter new target =
     (if level_side new = SELL then sint (level_price new) > sint (level_price target)
      else sint (level_price new) < sint (level_price target))"

text \<open>
  The \<open>do ... while\<close> of \<open>addPriceLevel\<close>. It writes nothing and its only state is
  \<open>target\<close>, one of the \<open>MAX_PRICE_LEVELS\<close> blocks of the pool: a run of more rounds than
  blocks visits a block twice and never ends.
\<close>

fun findTarget :: "nat \<Rightarrow> OrderBook \<Rightarrow> OrdersAtPrice \<Rightarrow> ptr \<Rightarrow> ptr \<Rightarrow> (ptr \<times> bool) res" where
  "findTarget rounds b new best target =
     (if rounds = 0 then Inl Diverges
      else bind_res (rdL b target) (\<lambda>t.
           bind_res (rdL b (level_next t)) (\<lambda>t'.
             if shouldAddAfter new t' \<and> level_next t \<noteq> best
             then findTarget (rounds - 1) b new best (level_next t)
             else Inr (level_next t, shouldAddAfter new t'))))"

declare findTarget.simps [simp del]

definition insertAfter :: "OrderBook \<Rightarrow> ptr \<Rightarrow> ptr \<Rightarrow> OrderBook res" where
  "insertAfter b new target =
     bind_res (wrL b new (\<lambda>l. l\<lparr>level_prev := target\<rparr>)) (\<lambda>b.
     bind_res (rdL b target) (\<lambda>t.
     bind_res (wrL b new (\<lambda>l. l\<lparr>level_next := level_next t\<rparr>)) (\<lambda>b.
     bind_res (rdL b target) (\<lambda>t.
     bind_res (wrL b (level_next t) (\<lambda>l. l\<lparr>level_prev := new\<rparr>)) (\<lambda>b.
       wrL b target (\<lambda>l. l\<lparr>level_next := new\<rparr>))))))"

definition insertBefore :: "OrderBook \<Rightarrow> ptr \<Rightarrow> ptr \<Rightarrow> OrderBook res" where
  "insertBefore b new target =
     bind_res (wrL b new (\<lambda>l. l\<lparr>level_next := target\<rparr>)) (\<lambda>b.
     bind_res (rdL b target) (\<lambda>t.
     bind_res (wrL b new (\<lambda>l. l\<lparr>level_prev := level_prev t\<rparr>)) (\<lambda>b.
     bind_res (rdL b target) (\<lambda>t.
     bind_res (wrL b (level_prev t) (\<lambda>l. l\<lparr>level_next := new\<rparr>)) (\<lambda>b.
       wrL b target (\<lambda>l. l\<lparr>level_prev := new\<rparr>))))))"

definition addPriceLevel :: "OrderBook \<Rightarrow> ptr \<Rightarrow> OrderBook res" where
  "addPriceLevel b new =
     bind_res (rdL b new) (\<lambda>n.
     bind_res (setLevelForPrice b (level_price n) new) (\<lambda>b.
       let sd = level_side n; best = bestOrdersByPrice b sd in
       if best = None
       then wrL (setBestOrdersByPrice b sd new) new (\<lambda>l. l\<lparr>level_prev := new, level_next := new\<rparr>)
       else
         bind_res (rdL b best) (\<lambda>t.
         bind_res (if shouldAddAfter n t then findTarget MAX_PRICE_LEVELS b n best best
                   else Inr (best, False)) (\<lambda>(target, after).
           if after then insertAfter b new target
           else
             bind_res (insertBefore b new target) (\<lambda>b.
             bind_res (rdL b best) (\<lambda>bl.
               if sd = BUY \<and> sint (level_price n) > sint (level_price bl) \<or>
                  sd = SELL \<and> sint (level_price n) < sint (level_price bl)
               then Inr (setBestOrdersByPrice b sd new)
               else Inr b))))))"

text \<open>Taking a level out of its side's ring, or emptying the side if it is the only one.\<close>

definition unlinkLevel :: "OrderBook \<Rightarrow> Side \<Rightarrow> ptr \<Rightarrow> OrderBook res" where
  "unlinkLevel b sd l =
     bind_res (rdL b l) (\<lambda>lv.
       if level_next lv = l then Inr (setBestOrdersByPrice b sd None)
       else
         bind_res (wrL b (level_prev lv) (\<lambda>x. x\<lparr>level_next := level_next lv\<rparr>)) (\<lambda>b.
         bind_res (rdL b l) (\<lambda>lv.
         bind_res (wrL b (level_next lv) (\<lambda>x. x\<lparr>level_prev := level_prev lv\<rparr>)) (\<lambda>b.
         bind_res (rdL b l) (\<lambda>lv.
           let b = (if l = bestOrdersByPrice b sd
                    then setBestOrdersByPrice b sd (level_next lv) else b) in
           wrL b l (\<lambda>x. x\<lparr>level_prev := None, level_next := None\<rparr>))))))"

definition removePriceLevel :: "OrderBook \<Rightarrow> Side \<Rightarrow> Price \<Rightarrow> OrderBook res" where
  "removePriceLevel b sd px =
     bind_res (getLevelForPrice b px) (\<lambda>l.
     bind_res (unlinkLevel b sd l) (\<lambda>b.
     bind_res (setLevelForPrice b px None) (\<lambda>b.
     bind_res (case l of None \<Rightarrow> Inl NullDeref | Some i \<Rightarrow> deallocate (ordersAtPricePool b) i) (\<lambda>pl.
       Inr (b\<lparr>ordersAtPricePool := pl\<rparr>)))))"

section \<open>Orders\<close>

text \<open>An order whose price has no level yet: a ring of its own and a new level.\<close>

definition openLevel :: "OrderBook \<Rightarrow> ptr \<Rightarrow> Order \<Rightarrow> OrderBook res" where
  "openLevel b ord o0 =
     bind_res (wrO b ord (\<lambda>x. x\<lparr>prev := ord, nxt := ord\<rparr>)) (\<lambda>b.
     bind_res (allocate (ordersAtPricePool b)
                 \<lparr>level_side = side o0, level_price = price o0, order0 = ord,
                  level_prev = None, level_next = None\<rparr>) (\<lambda>(new, pl).
       addPriceLevel (b\<lparr>ordersAtPricePool := pl\<rparr>) new))"

text \<open>An order whose price has a level: between the last and the first order of its ring.\<close>

definition joinLevel :: "OrderBook \<Rightarrow> ptr \<Rightarrow> ptr \<Rightarrow> OrderBook res" where
  "joinLevel b ord l =
     bind_res (rdL b l) (\<lambda>lv.
     bind_res (rdO b (order0 lv)) (\<lambda>first.
     bind_res (wrO b ord (\<lambda>x. x\<lparr>prev := prev first\<rparr>)) (\<lambda>b.
     bind_res (wrO b ord (\<lambda>x. x\<lparr>nxt := order0 lv\<rparr>)) (\<lambda>b.
     bind_res (rdO b (order0 lv)) (\<lambda>first.
     bind_res (wrO b (prev first) (\<lambda>x. x\<lparr>nxt := ord\<rparr>)) (\<lambda>b.
       wrO b (order0 lv) (\<lambda>x. x\<lparr>prev := ord\<rparr>)))))))"

definition addOrderToBook :: "OrderBook \<Rightarrow> ptr \<Rightarrow> OrderBook res" where
  "addOrderToBook b ord =
     bind_res (rdO b ord) (\<lambda>o0.
     bind_res (getLevelForPrice b (price o0)) (\<lambda>l.
     bind_res (if l = None then openLevel b ord o0 else joinLevel b ord l) (\<lambda>b.
     bind_res (rdO b ord) (\<lambda>o1.
       setClientOrder b (clientId o1) (clientOrderId o1) ord))))"

text \<open>Taking an order that is not alone out of its level's ring.\<close>

definition leaveLevel :: "OrderBook \<Rightarrow> ptr \<Rightarrow> ptr \<Rightarrow> OrderBook res" where
  "leaveLevel b ord l =
     bind_res (rdO b ord) (\<lambda>o0.
     bind_res (wrO b (prev o0) (\<lambda>x. x\<lparr>nxt := nxt o0\<rparr>)) (\<lambda>b.
     bind_res (rdO b ord) (\<lambda>o1.
     bind_res (wrO b (nxt o1) (\<lambda>x. x\<lparr>prev := prev o1\<rparr>)) (\<lambda>b.
     bind_res (rdL b l) (\<lambda>lv.
     bind_res (rdO b ord) (\<lambda>o2.
     bind_res (if order0 lv = ord then wrL b l (\<lambda>x. x\<lparr>order0 := nxt o2\<rparr>) else Inr b) (\<lambda>b.
       wrO b ord (\<lambda>x. x\<lparr>prev := None, nxt := None\<rparr>))))))))"

definition removeOrderFromBook :: "OrderBook \<Rightarrow> ptr \<Rightarrow> OrderBook res" where
  "removeOrderFromBook b ord =
     bind_res (rdO b ord) (\<lambda>o0.
     bind_res (getLevelForPrice b (price o0)) (\<lambda>l.
     bind_res (if prev o0 = ord then removePriceLevel b (side o0) (price o0)
               else leaveLevel b ord l) (\<lambda>b.
     bind_res (rdO b ord) (\<lambda>o3.
     bind_res (setClientOrder b (clientId o3) (clientOrderId o3) None) (\<lambda>b.
     bind_res (case ord of None \<Rightarrow> Inl NullDeref | Some i \<Rightarrow> deallocate (orderPool b) i) (\<lambda>pl.
       Inr (b\<lparr>orderPool := pl\<rparr>)))))))"

section \<open>Matching\<close>

text \<open>
  \<open>matchOrder\<close> receives \<open>qtyRemains\<close> as a pointer to a constant and executes
  \<open>qtyRemains -= fillQty\<close>: the pointer moves down by \<open>fillQty\<close> elements, the caller's
  variable keeps its value. The read \<open>*qtyRemains\<close> that follows is out of the variable unless
  \<open>fillQty\<close> is 0. What such a read gives is not determined by the source: \<open>stray b k\<close> is the
  word found \<open>k\<close> elements below the variable when the book is \<open>b\<close>, or \<^const>\<open>None\<close> if
  the access faults. It is an argument of every definition that depends on it.
\<close>

type_synonym stray = "OrderBook \<Rightarrow> Qty \<Rightarrow> Qty option"

definition readMoved :: "stray \<Rightarrow> OrderBook \<Rightarrow> Qty \<Rightarrow> Qty \<Rightarrow> Qty res" where
  "readMoved stray b q k =
     (if k = 0 then Inr q else case stray b k of None \<Rightarrow> Inl StrayRead | Some v \<Rightarrow> Inr v)"

definition setResponse :: "OrderBook \<Rightarrow> OMEClientResponse \<Rightarrow> OrderBook" where
  "setResponse b r = b\<lparr>clientResponse := r\<rparr>"

definition setUpdate :: "OrderBook \<Rightarrow> OMEMarketUpdate \<Rightarrow> OrderBook" where
  "setUpdate b u = b\<lparr>marketUpdate := u\<rparr>"

text \<open>The messages of a fill: to the aggressor, to the owner of the matched order, the trade, and
  the update of the matched order's entry in the book (its removal or its new quantity).\<close>

definition fillAggressor ::
    "ClientID \<Rightarrow> TickerID \<Rightarrow> OrderID \<Rightarrow> OrderID \<Rightarrow> Side \<Rightarrow> Order \<Rightarrow> Qty \<Rightarrow> Qty \<Rightarrow> OMEClientResponse" where
  "fillAggressor c t k m sd matched fill rest =
     \<lparr>res_type = Res_FILLED, res_clientId = c, res_tickerId = t, res_clientOrderId = k,
      res_marketOrderId = m, res_side = sd, res_price = price matched, qtyExec = fill, qtyRemain = rest\<rparr>"

definition fillMatched :: "TickerID \<Rightarrow> Order \<Rightarrow> Qty \<Rightarrow> OMEClientResponse" where
  "fillMatched t matched fill =
     \<lparr>res_type = Res_FILLED, res_clientId = clientId matched, res_tickerId = t,
      res_clientOrderId = clientOrderId matched, res_marketOrderId = marketOrderId matched,
      res_side = side matched, res_price = price matched, qtyExec = fill, qtyRemain = qty matched\<rparr>"

definition tradeUpdate :: "TickerID \<Rightarrow> Side \<Rightarrow> Order \<Rightarrow> Qty \<Rightarrow> OMEMarketUpdate" where
  "tradeUpdate t sd matched fill =
     \<lparr>mu_type = MU_TRADE, mu_orderId = OrderID_INVALID, mu_tickerId = t, mu_side = sd,
      mu_price = price matched, mu_qty = fill, mu_priority = Priority_INVALID\<rparr>"

definition filledUpdate :: "TickerID \<Rightarrow> Order \<Rightarrow> Qty \<Rightarrow> OMEMarketUpdate" where
  "filledUpdate t matched fill =
     \<lparr>mu_type = MU_CANCEL, mu_orderId = marketOrderId matched, mu_tickerId = t, mu_side = side matched,
      mu_price = price matched, mu_qty = fill, mu_priority = Priority_INVALID\<rparr>"

definition modifyUpdate :: "TickerID \<Rightarrow> Order \<Rightarrow> OMEMarketUpdate" where
  "modifyUpdate t matched =
     \<lparr>mu_type = MU_MODIFY, mu_orderId = marketOrderId matched, mu_tickerId = t, mu_side = side matched,
      mu_price = price matched, mu_qty = qty matched, mu_priority = priority matched\<rparr>"

definition matchOrder ::
    "stray \<Rightarrow> OrderBook \<Rightarrow> MEQueues \<Rightarrow> TickerID \<Rightarrow> ClientID \<Rightarrow> Side \<Rightarrow> OrderID \<Rightarrow> OrderID \<Rightarrow> ptr \<Rightarrow> Qty
       \<Rightarrow> (OrderBook \<times> MEQueues) res" where
  "matchOrder stray b me t c sd k newOid ord qtyRemains =
     bind_res (rdO b ord) (\<lambda>o0.
     let fillQty = min qtyRemains (qty o0) in
     bind_res (wrO b ord (\<lambda>x. x\<lparr>qty := qty x - fillQty\<rparr>)) (\<lambda>b.
     bind_res (rdO b ord) (\<lambda>om.
     bind_res (readMoved stray b qtyRemains fillQty) (\<lambda>rest.
     let b = setResponse b (fillAggressor c t k newOid sd om fillQty rest) in
     bind_res (dispatchClientResponse me (clientResponse b)) (\<lambda>me.
     let b = setResponse b (fillMatched t om fillQty) in
     bind_res (dispatchClientResponse me (clientResponse b)) (\<lambda>me.
     let b = setUpdate b (tradeUpdate t sd om fillQty) in
     bind_res (publishMarketUpdate me (marketUpdate b)) (\<lambda>me.
       if qty om = 0
       then let b = setUpdate b (filledUpdate t om fillQty) in
            bind_res (publishMarketUpdate me (marketUpdate b)) (\<lambda>me.
            bind_res (removeOrderFromBook b ord) (\<lambda>b. Inr (b, me)))
       else let b = setUpdate b (modifyUpdate t om) in
            bind_res (publishMarketUpdate me (marketUpdate b)) (\<lambda>me. Inr (b, me)))))))))"

text \<open>
  The measure of the matching loop: the quantity resting in the book, plus one per order. Every
  round that completes either takes a positive quantity out of an order or takes the order out.
\<close>

definition qtys :: "OrderBook \<Rightarrow> nat \<Rightarrow> Qty option" where
  "qtys b i = map_option qty (live (orderPool b) i)"

definition liquidity :: "OrderBook \<Rightarrow> nat" where
  "liquidity b = (\<Sum>i\<in>dom (qtys b). Suc (unat (the (qtys b i))))"

lemma finite_dom_qtys [simp]: "finite (dom (qtys b))"
proof -
  have "dom (qtys b) = dom (live (orderPool b))" by (auto simp: qtys_def)
  then show ?thesis by simp
qed

named_theorems frame \<open>what an operation of the book leaves unchanged\<close>

lemma wrL_orderPool [frame]: "wrL b p f = Inr b' \<Longrightarrow> orderPool b' = orderPool b"
  by (auto simp: wrL_def)

lemma setLevelForPrice_orderPool [frame]: "setLevelForPrice b px p = Inr b' \<Longrightarrow> orderPool b' = orderPool b"
  by (auto simp: setLevelForPrice_def)

lemma setClientOrder_orderPool [frame]: "setClientOrder b c k p = Inr b' \<Longrightarrow> orderPool b' = orderPool b"
  by (auto simp: setClientOrder_def)

lemma setBest_orderPool [simp]: "orderPool (setBestOrdersByPrice b sd p) = orderPool b"
  by (simp add: setBestOrdersByPrice_def)

lemma unlinkLevel_orderPool [frame]: "unlinkLevel b sd l = Inr b' \<Longrightarrow> orderPool b' = orderPool b"
  by (auto simp: unlinkLevel_def Let_def split: if_splits dest!: frame)

lemma removePriceLevel_orderPool [frame]: "removePriceLevel b sd px = Inr b' \<Longrightarrow> orderPool b' = orderPool b"
  by (auto simp: removePriceLevel_def split: option.splits dest!: frame)

lemma wrO_qtys:
  assumes "wrO b p f = Inr b'" "\<And>x. qty (f x) = qty x"
  shows "qtys b' = qtys b"
  using assms by (auto simp: wrO_def qtys_def fun_eq_iff dest!: assign_live)

lemma wrL_qtys: "wrL b p f = Inr b' \<Longrightarrow> qtys b' = qtys b"
  by (auto simp: qtys_def fun_eq_iff dest!: frame)

lemma leaveLevel_qtys: "leaveLevel b ord l = Inr b' \<Longrightarrow> qtys b' = qtys b"
  by (auto simp: leaveLevel_def split: if_splits dest!: wrO_qtys wrL_qtys)

lemma removeOrderFromBookE:
  assumes "removeOrderFromBook b ord = Inr b'"
  obtains i o0 l b1 o3 b2 pl where "ord = Some i" "rdO b ord = Inr o0"
    "getLevelForPrice b (price o0) = Inr l"
    "(if prev o0 = ord then removePriceLevel b (side o0) (price o0) else leaveLevel b ord l) = Inr b1"
    "rdO b1 ord = Inr o3" "setClientOrder b1 (clientId o3) (clientOrderId o3) None = Inr b2"
    "deallocate (orderPool b2) i = Inr pl" "b' = b2\<lparr>orderPool := pl\<rparr>"
proof (cases ord)
  case None
  with assms show thesis by (simp add: removeOrderFromBook_def rdO_def)
next
  case (Some i)
  note done_ = that [of i, unfolded Some]
  from assms show thesis
    unfolding removeOrderFromBook_def bind_res_eq_Inr Some option.case
    by (elim exE conjE) (rule done_; (rule refl | assumption | fastforce))
qed

lemma removeOrderFromBook_qtys:
  assumes "removeOrderFromBook b ord = Inr b'"
  shows "\<exists>i. ord = Some i \<and> qtys b' = (qtys b)(i := None)"
proof -
  from assms obtain i o0 l b1 o3 b2 pl where i: "ord = Some i" and "rdO b ord = Inr o0"
    and "getLevelForPrice b (price o0) = Inr l"
    and b1: "(if prev o0 = ord then removePriceLevel b (side o0) (price o0) else leaveLevel b ord l) = Inr b1"
    and "rdO b1 ord = Inr o3"
    and b2: "setClientOrder b1 (clientId o3) (clientOrderId o3) None = Inr b2"
    and d: "deallocate (orderPool b2) i = Inr pl" and b': "b' = b2\<lparr>orderPool := pl\<rparr>"
    by (rule removeOrderFromBookE)
  have "qtys b1 = qtys b"
    using b1 by (auto simp: qtys_def fun_eq_iff split: if_splits dest!: removePriceLevel_orderPool leaveLevel_qtys)
  moreover have "qtys b2 = qtys b1" using b2 by (auto simp: qtys_def fun_eq_iff dest!: frame)
  ultimately show ?thesis
    using deallocate_live(2) [OF d] by (auto simp: b' i qtys_def fun_eq_iff)
qed

lemma wrO_orderPool_live:
  assumes "wrO b p f = Inr b'"
  shows "\<exists>i x. p = Some i \<and> live (orderPool b) i = Some x \<and> live (orderPool b') = (live (orderPool b))(i \<mapsto> f x)"
  using assms by (auto simp: wrO_def dest!: assign_live)

text \<open>Every completed round of matching lowers the measure.\<close>

lemma matchOrderE:
  assumes "matchOrder stray b me t c sd k newOid ord q = Inr (b', me')"
  obtains o0 b1 om rest me1 me2 me3 where
    "rdO b ord = Inr o0"
    "wrO b ord (\<lambda>x. x\<lparr>qty := qty x - min q (qty o0)\<rparr>) = Inr b1"
    "rdO b1 ord = Inr om"
    "readMoved stray b1 q (min q (qty o0)) = Inr rest"
    "dispatchClientResponse me (fillAggressor c t k newOid sd om (min q (qty o0)) rest) = Inr me1"
    "dispatchClientResponse me1 (fillMatched t om (min q (qty o0))) = Inr me2"
    "publishMarketUpdate me2 (tradeUpdate t sd om (min q (qty o0))) = Inr me3"
    "qty om = 0 \<and> publishMarketUpdate me3 (filledUpdate t om (min q (qty o0))) = Inr me' \<and>
       removeOrderFromBook (b1\<lparr>clientResponse := fillMatched t om (min q (qty o0)),
         marketUpdate := filledUpdate t om (min q (qty o0))\<rparr>) ord = Inr b' \<or>
     qty om \<noteq> 0 \<and> publishMarketUpdate me3 (modifyUpdate t om) = Inr me' \<and>
       b' = b1\<lparr>clientResponse := fillMatched t om (min q (qty o0)), marketUpdate := modifyUpdate t om\<rparr>"
proof -
  from assms show thesis
    unfolding matchOrder_def Let_def setResponse_def setUpdate_def bind_res_eq_Inr
    by (elim exE conjE) (rule that, assumption+, auto split: if_splits)
qed

lemma matchOrder_qtys:
  assumes "matchOrder stray b me t c sd k newOid ord q = Inr (b', me')"
  shows "\<exists>i o0. ord = Some i \<and> live (orderPool b) i = Some o0 \<and>
     qtys b' = (qtys b)(i := if qty o0 - min q (qty o0) = 0 then None else Some (qty o0 - min q (qty o0)))"
proof -
  from assms obtain o0 b1 om where o0: "rdO b ord = Inr o0"
    and b1: "wrO b ord (\<lambda>x. x\<lparr>qty := qty x - min q (qty o0)\<rparr>) = Inr b1"
    and om: "rdO b1 ord = Inr om"
    and end_: "qty om = 0 \<and> (\<exists>b2. orderPool b2 = orderPool b1 \<and> removeOrderFromBook b2 ord = Inr b') \<or>
       qty om \<noteq> 0 \<and> orderPool b' = orderPool b1"
    by (elim matchOrderE) (fastforce intro: exI [of _ "_\<lparr>clientResponse := _, marketUpdate := _\<rparr>"])
  from wrO_orderPool_live [OF b1] obtain i where i: "ord = Some i" "live (orderPool b) i = Some o0"
    "live (orderPool b1) = (live (orderPool b))(i \<mapsto> o0\<lparr>qty := qty o0 - min q (qty o0)\<rparr>)"
    using o0 by (auto simp: rdO_def)
  then have q1: "qtys b1 = (qtys b)(i \<mapsto> qty o0 - min q (qty o0))"
    by (auto simp: qtys_def fun_eq_iff)
  have om': "om = o0\<lparr>qty := qty o0 - min q (qty o0)\<rparr>" using om i by (simp add: rdO_def)
  have same: "qtys b2 = qtys b1" if "orderPool b2 = orderPool b1" for b2
    using that by (simp add: qtys_def fun_eq_iff)
  from end_ show ?thesis
  proof (elim disjE conjE exE)
    fix b2 assume "qty om = 0" "orderPool b2 = orderPool b1" "removeOrderFromBook b2 ord = Inr b'"
    with removeOrderFromBook_qtys [of b2 ord b'] same [of b2] i om' q1 show ?thesis by auto
  next
    assume "qty om \<noteq> 0" "orderPool b' = orderPool b1"
    with same [of b'] i om' q1 show ?thesis by auto
  qed
qed

lemma liquidity_decreases:
  assumes "matchOrder stray b me t c sd k newOid ord q = Inr (b', me')" "q \<noteq> 0"
  shows "liquidity b' < liquidity b"
proof -
  from matchOrder_qtys [OF assms(1)] obtain i o0 where i: "live (orderPool b) i = Some o0"
    and q': "qtys b' = (qtys b)(i := if qty o0 - min q (qty o0) = 0 then None else Some (qty o0 - min q (qty o0)))"
    by auto
  have qi: "qtys b i = Some (qty o0)" using i by (simp add: qtys_def)
  let ?w = "\<lambda>x :: Qty. Suc (unat x)"
  show ?thesis
  proof (cases "qty o0 - min q (qty o0) = 0")
    case True
    with q' have "qtys b' = (qtys b)(i := None)" by simp
    then show ?thesis
      using sum_map_remove [OF finite_dom_qtys qi, of ?w] by (simp add: liquidity_def)
  next
    case False
    then have "min q (qty o0) = q" using assms(2) word_le_min_zero by blast
    then have "q \<le> qty o0" by (metis min.cobounded2)
    then have "unat (qty o0 - q) < unat (qty o0)"
      using assms(2) unat_sub [of q "qty o0"] unat_gt_0 [of q]
      by (simp add: word_le_nat_alt)
    moreover from False q' have "qtys b' = (qtys b)(i \<mapsto> qty o0 - min q (qty o0))" by simp
    ultimately show ?thesis
      using sum_map_update [OF finite_dom_qtys qi, of ?w "qty o0 - min q (qty o0)"]
        \<open>min q (qty o0) = q\<close> by (simp add: liquidity_def)
  qed
qed

text \<open>
  \<open>findMatch\<close>: the two loops of the source differ in the list they read and in the direction of
  the price comparison; for any other side nothing is matched. \<open>qtyRemains\<close> is a local variable
  that no statement of the loop changes, since \<open>matchOrder\<close> moves its copy of the pointer.
\<close>

definition oppositeBest :: "OrderBook \<Rightarrow> Side \<Rightarrow> ptr" where
  "oppositeBest b sd = (if sd = BUY then asksByPrice b else if sd = SELL then bidsByPrice b else None)"

definition noCross :: "Side \<Rightarrow> Price \<Rightarrow> Order \<Rightarrow> bool" where
  "noCross sd px resting =
     (if sd = BUY then sint px < sint (price resting) else sint px > sint (price resting))"

function matchLoop ::
    "stray \<Rightarrow> TickerID \<Rightarrow> ClientID \<Rightarrow> Side \<Rightarrow> OrderID \<Rightarrow> OrderID \<Rightarrow> Price \<Rightarrow> Qty \<Rightarrow> OrderBook \<Rightarrow> MEQueues
       \<Rightarrow> (OrderBook \<times> MEQueues) res" where
  "matchLoop stray t c sd k newOid px qtyRemains b me =
     (if qtyRemains = 0 \<or> oppositeBest b sd = None then Inr (b, me)
      else bind_res (rdL b (oppositeBest b sd)) (\<lambda>lv.
           bind_res (rdO b (order0 lv)) (\<lambda>first.
             if noCross sd px first then Inr (b, me)
             else bind_res (matchOrder stray b me t c sd k newOid (order0 lv) qtyRemains) (\<lambda>bm.
                    matchLoop stray t c sd k newOid px qtyRemains (fst bm) (snd bm)))))"
  by pat_completeness auto
termination
  by (relation "measure (\<lambda>(stray, t, c, sd, k, newOid, px, q, b, me). liquidity b)")
    (auto intro: liquidity_decreases)

declare matchLoop.simps [simp del]

definition findMatch ::
    "stray \<Rightarrow> OrderBook \<Rightarrow> MEQueues \<Rightarrow> ClientID \<Rightarrow> OrderID \<Rightarrow> TickerID \<Rightarrow> Side \<Rightarrow> Price \<Rightarrow> Qty \<Rightarrow> OrderID
       \<Rightarrow> (Qty \<times> OrderBook \<times> MEQueues) res" where
  "findMatch stray b me c k t sd px q newOid =
     (let qtyRemains = q in
      bind_res (matchLoop stray t c sd k newOid px qtyRemains b me) (\<lambda>(b, me).
        Inr (qtyRemains, b, me)))"

section \<open>The two requests\<close>

definition acceptedResponse ::
    "ClientID \<Rightarrow> TickerID \<Rightarrow> OrderID \<Rightarrow> OrderID \<Rightarrow> Side \<Rightarrow> Price \<Rightarrow> Qty \<Rightarrow> OMEClientResponse" where
  "acceptedResponse c t k m sd px q =
     \<lparr>res_type = Res_ACCEPTED, res_clientId = c, res_tickerId = t, res_clientOrderId = k,
      res_marketOrderId = m, res_side = sd, res_price = px, qtyExec = 0, qtyRemain = q\<rparr>"

definition addedUpdate ::
    "OrderID \<Rightarrow> TickerID \<Rightarrow> Side \<Rightarrow> Price \<Rightarrow> Qty \<Rightarrow> Priority \<Rightarrow> OMEMarketUpdate" where
  "addedUpdate m t sd px q pr =
     \<lparr>mu_type = MU_ADD, mu_orderId = m, mu_tickerId = t, mu_side = sd, mu_price = px, mu_qty = q,
      mu_priority = pr\<rparr>"

text \<open>The part of \<open>addOrder\<close> that puts the remainder into the book.\<close>

definition restOrder ::
    "OrderBook \<Rightarrow> MEQueues \<Rightarrow> ClientID \<Rightarrow> OrderID \<Rightarrow> TickerID \<Rightarrow> Side \<Rightarrow> Price \<Rightarrow> Qty \<Rightarrow> OrderID
       \<Rightarrow> (OrderBook \<times> MEQueues) res" where
  "restOrder b me c k t sd px q newOid =
     bind_res (getNextPriority b px) (\<lambda>pr.
     bind_res (allocate (orderPool b)
                 \<lparr>tickerId = t, clientId = c, clientOrderId = k, marketOrderId = newOid, side = sd,
                  price = px, qty = q, priority = pr, prev = None, nxt = None\<rparr>) (\<lambda>(ord, pl).
     bind_res (addOrderToBook (b\<lparr>orderPool := pl\<rparr>) ord) (\<lambda>b.
     let b = setUpdate b (addedUpdate newOid t sd px q pr) in
     bind_res (publishMarketUpdate me (marketUpdate b)) (\<lambda>me. Inr (b, me)))))"

definition addOrder ::
    "stray \<Rightarrow> OrderBook \<Rightarrow> MEQueues \<Rightarrow> ClientID \<Rightarrow> OrderID \<Rightarrow> TickerID \<Rightarrow> Side \<Rightarrow> Price \<Rightarrow> Qty
       \<Rightarrow> (OrderBook \<times> MEQueues) res" where
  "addOrder stray b me c k t sd px q =
     (let (newOid, b) = getNewMarketOrderId b;
          b = setResponse b (acceptedResponse c t k newOid sd px q) in
      bind_res (dispatchClientResponse me (clientResponse b)) (\<lambda>me.
      bind_res (findMatch stray b me c k t sd px q newOid) (\<lambda>(qtyRemains, b, me).
        if qtyRemains \<noteq> 0 then restOrder b me c k t sd px qtyRemains newOid else Inr (b, me))))"

definition rejectedResponse :: "ClientID \<Rightarrow> TickerID \<Rightarrow> OrderID \<Rightarrow> OMEClientResponse" where
  "rejectedResponse c t k =
     \<lparr>res_type = Res_CANCEL_REJECTED, res_clientId = c, res_tickerId = t, res_clientOrderId = k,
      res_marketOrderId = OrderID_INVALID, res_side = Side_INVALID, res_price = Price_INVALID,
      qtyExec = Qty_INVALID, qtyRemain = Qty_INVALID\<rparr>"

definition cancelledResponse :: "ClientID \<Rightarrow> TickerID \<Rightarrow> OrderID \<Rightarrow> Order \<Rightarrow> OMEClientResponse" where
  "cancelledResponse c t k ord =
     \<lparr>res_type = Res_CANCELLED, res_clientId = c, res_tickerId = t, res_clientOrderId = k,
      res_marketOrderId = marketOrderId ord, res_side = side ord, res_price = price ord,
      qtyExec = Qty_INVALID, qtyRemain = qty ord\<rparr>"

definition cancelUpdate :: "TickerID \<Rightarrow> Order \<Rightarrow> OMEMarketUpdate" where
  "cancelUpdate t ord =
     \<lparr>mu_type = MU_CANCEL, mu_orderId = marketOrderId ord, mu_tickerId = t, mu_side = side ord,
      mu_price = price ord, mu_qty = 0, mu_priority = priority ord\<rparr>"

text \<open>The client's order, if the client and the order identifier are known: the outer index is
  tested, the inner one goes through \<open>.at()\<close>.\<close>

definition lookupOrder :: "OrderBook \<Rightarrow> ClientID \<Rightarrow> OrderID \<Rightarrow> ptr res" where
  "lookupOrder b c k =
     (if unat c < vsize (mapClientIdToOrder b)
      then bind_res (vat (mapClientIdToOrder b) (unat c)) (\<lambda>m. vat m (unat k))
      else Inr None)"

definition cancelOrder ::
    "OrderBook \<Rightarrow> MEQueues \<Rightarrow> ClientID \<Rightarrow> OrderID \<Rightarrow> TickerID \<Rightarrow> (OrderBook \<times> MEQueues) res" where
  "cancelOrder b me c k t =
     bind_res (lookupOrder b c k) (\<lambda>ord.
       if ord = None
       then let b = setResponse b (rejectedResponse c t k) in
            bind_res (dispatchClientResponse me (clientResponse b)) (\<lambda>me. Inr (b, me))
       else
         bind_res (rdO b ord) (\<lambda>o0.
         let b = setUpdate (setResponse b (cancelledResponse c t k o0)) (cancelUpdate t o0) in
         bind_res (removeOrderFromBook b ord) (\<lambda>b.
         bind_res (publishMarketUpdate me (marketUpdate b)) (\<lambda>me.
         bind_res (dispatchClientResponse me (clientResponse b)) (\<lambda>me. Inr (b, me))))))"

lemmas book_exec [exec_simps] =
  dispatchClientResponse_def publishMarketUpdate_def rdO_def wrO_def rdL_def wrL_def
  OrderBook_init_def getNewMarketOrderId_def priceToIndex_def getLevelForPrice_def
  setLevelForPrice_def getNextPriority_def setClientOrder_def bestOrdersByPrice_def
  setBestOrdersByPrice_def shouldAddAfter_def insertAfter_def insertBefore_def addPriceLevel_def
  unlinkLevel_def removePriceLevel_def openLevel_def joinLevel_def addOrderToBook_def
  leaveLevel_def removeOrderFromBook_def readMoved_def setResponse_def setUpdate_def
  matchOrder_def oppositeBest_def noCross_def findMatch_def restOrder_def addOrder_def
  lookupOrder_def cancelOrder_def

end
