(* ===== verification/Linked_Rings.thy ===== *)
theory Linked_Rings
  imports Prelude
begin

text \<open>
  Circular doubly linked lists over two pointer fields. The order book links the orders of a
  price level, and the price levels of a side, into such rings: the element after the last is
  the first. A path is the segment of a ring between two of its nodes; a ring is a path from
  its first node back to itself.
\<close>

section \<open>Paths and rings\<close>

type_synonym link = "nat \<Rightarrow> nat option"

fun path :: "link \<Rightarrow> link \<Rightarrow> nat \<Rightarrow> nat list \<Rightarrow> nat \<Rightarrow> bool" where
  "path nx pv a [] b \<longleftrightarrow> nx a = Some b \<and> pv b = Some a"
| "path nx pv a (x # xs) b \<longleftrightarrow> nx a = Some x \<and> pv x = Some a \<and> path nx pv x xs b"

fun ring :: "link \<Rightarrow> link \<Rightarrow> nat list \<Rightarrow> bool" where
  "ring nx pv [] \<longleftrightarrow> True"
| "ring nx pv (x # xs) \<longleftrightarrow> path nx pv x xs x"

lemma path_append [simp]:
  "path nx pv a (xs @ y # ys) b \<longleftrightarrow> path nx pv a xs y \<and> path nx pv y ys b"
  by (induction xs arbitrary: a) auto

text \<open>Only the nodes of a path matter: \<open>nx\<close> at its start and inside, \<open>pv\<close> inside and at its end.\<close>

lemma path_cong:
  assumes "\<And>x. x \<in> set (a # xs) \<Longrightarrow> nx' x = nx x" "\<And>x. x \<in> set (xs @ [b]) \<Longrightarrow> pv' x = pv x"
  shows "path nx' pv' a xs b \<longleftrightarrow> path nx pv a xs b"
  using assms by (induction xs arbitrary: a) auto

lemma ring_cong:
  assumes "\<And>x. x \<in> set xs \<Longrightarrow> nx' x = nx x" "\<And>x. x \<in> set xs \<Longrightarrow> pv' x = pv x"
  shows "ring nx' pv' xs \<longleftrightarrow> ring nx pv xs"
  using assms by (cases xs) (auto intro!: path_cong)

lemma ring_rotate: "ring nx pv (xs @ ys) \<longleftrightarrow> ring nx pv (ys @ xs)"
proof (cases "xs = [] \<or> ys = []")
  case True
  then show ?thesis by auto
next
  case False
  then obtain x xs' y ys' where "xs = x # xs'" "ys = y # ys'" by (meson list.exhaust)
  then show ?thesis by auto
qed

text \<open>The successor and the predecessor of a node inside a ring.\<close>

lemma path_last: "path nx pv a xs b \<Longrightarrow> nx (last (a # xs)) = Some b \<and> pv b = Some (last (a # xs))"
  by (induction xs arbitrary: a) auto

lemma ring_last: "ring nx pv (x # xs) \<Longrightarrow> nx (last (x # xs)) = Some x \<and> pv x = Some (last (x # xs))"
  using path_last by fastforce

lemma ring_next:
  "ring nx pv (xs @ y # z # ys) \<Longrightarrow> nx y = Some z \<and> pv z = Some y"
  by (cases xs) auto

lemma ring_next_last: "ring nx pv (x # xs @ [y]) \<Longrightarrow> nx y = Some x \<and> pv x = Some y"
  by simp

section \<open>Linking a node in and out\<close>

text \<open>
  The three pointer idioms of the book. Each is stated on the final contents of the two fields,
  which must be the old ones except at the nodes the code writes.
\<close>

text \<open>A node that points to itself both ways is a ring.\<close>

lemma ring_single: "nx n = Some n \<Longrightarrow> pv n = Some n \<Longrightarrow> ring nx pv [n]"
  by simp

text \<open>Linking \<open>n\<close> in between \<open>p\<close> and its successor \<open>s\<close>.\<close>

lemma path_link:
  assumes "path nx pv p xs s" "distinct (p # xs)" "distinct (xs @ [s])" "n \<notin> set (p # xs @ [s])"
    and "nx' = (nx(p := Some n))(n := nx p)"
    and "pv' = (pv(the (nx p) := Some n))(n := Some p)"
  shows "path nx' pv' p (n # xs) s"
  using assms
proof (cases xs)
  case Nil
  with assms show ?thesis by auto
next
  case (Cons y ys)
  have "path nx' pv' y ys s \<longleftrightarrow> path nx pv y ys s"
    using assms Cons by (intro path_cong) auto
  with assms Cons show ?thesis by auto
qed

text \<open>In a ring that is rotated so that \<open>n\<close> goes after its first node.\<close>

lemma ring_link_after:
  assumes "ring nx pv (p # xs)" "distinct (p # xs)" "n \<notin> set (p # xs)"
    and "nx' = (nx(p := Some n))(n := nx p)"
    and "pv' = (pv(the (nx p) := Some n))(n := Some p)"
  shows "ring nx' pv' (p # n # xs)"
  using path_link [of nx pv p xs p n nx' pv'] assms by auto

lemma ring_link_after_mid:
  assumes "ring nx pv (xs @ p # ys)" "distinct (xs @ p # ys)" "n \<notin> set (xs @ p # ys)"
    and "nx' = (nx(p := Some n))(n := nx p)"
    and "pv' = (pv(the (nx p) := Some n))(n := Some p)"
  shows "ring nx' pv' (xs @ p # n # ys)"
proof -
  have "ring nx pv (p # ys @ xs)" using assms(1) ring_rotate [of nx pv xs "p # ys"] by simp
  then have "ring nx' pv' (p # n # ys @ xs)"
    using assms by (intro ring_link_after) auto
  then show ?thesis using ring_rotate [of nx' pv' xs "p # n # ys"] by simp
qed

text \<open>Linking out the node between \<open>p\<close> and \<open>s\<close>.\<close>

lemma path_unlink:
  assumes "path nx pv p (n # xs) s" "distinct (p # n # xs)" "distinct (n # xs @ [s])"
    and "\<And>x. x \<in> set (p # xs) \<Longrightarrow> nx' x = (if x = p then nx n else nx x)"
    and "\<And>x. x \<in> set (xs @ [s]) \<Longrightarrow> pv' x = (if Some x = nx n then Some p else pv x)"
  shows "path nx' pv' p xs s"
proof (cases xs)
  case Nil
  with assms show ?thesis by auto
next
  case (Cons y ys)
  have "path nx' pv' y ys s \<longleftrightarrow> path nx pv y ys s"
    using assms Cons by (intro path_cong) auto
  with assms Cons show ?thesis by auto
qed

lemma ring_unlink:
  assumes "ring nx pv (xs @ n # ys)" "distinct (xs @ n # ys)" "xs @ ys \<noteq> []"
    and "\<And>x. x \<in> set (xs @ ys) \<Longrightarrow> nx' x = (if Some x = pv n then nx n else nx x)"
    and "\<And>x. x \<in> set (xs @ ys) \<Longrightarrow> pv' x = (if Some x = nx n then pv n else pv x)"
  shows "ring nx' pv' (xs @ ys)"
proof -
  have r: "ring nx pv (n # ys @ xs)" using assms(1) ring_rotate [of nx pv xs "n # ys"] by simp
  obtain zs p where zs: "ys @ xs = zs @ [p]" using assms(3) by (metis append_is_Nil_conv rev_exhaust)
  then have r2: "ring nx pv (p # n # zs)" using r ring_rotate [of nx pv "n # zs" "[p]"] by simp
  have "set (ys @ xs) = set (zs @ [p])" using zs by simp
  then have sets: "set (p # zs) = set (xs @ ys)" by auto
  have "distinct (n # ys @ xs)" using assms(2) by auto
  then have d: "distinct (p # n # zs)" unfolding zs by auto
  have pv: "pv n = Some p" using r2 by simp
  have "path nx' pv' p zs p"
  proof (rule path_unlink [of nx pv p n zs p])
    show "path nx pv p (n # zs) p" using r2 by simp
    show "distinct (p # n # zs)" "distinct (n # zs @ [p])" using d by auto
    show "nx' x = (if x = p then nx n else nx x)" if "x \<in> set (p # zs)" for x
      using assms(4) [of x] that pv unfolding sets by simp
    show "pv' x = (if Some x = nx n then Some p else pv x)" if "x \<in> set (zs @ [p])" for x
    proof -
      have "x \<in> set (xs @ ys)" using that sets by auto
      from assms(5) [OF this] pv show ?thesis by simp
    qed
  qed
  then have "ring nx' pv' (ys @ xs)"
    using zs ring_rotate [of nx' pv' "[p]" zs] by simp
  then show ?thesis by (simp add: ring_rotate)
qed

text \<open>The neighbours of a node that is not alone.\<close>

lemma ring_neighbours:
  assumes "ring nx pv (xs @ n # ys)" "distinct (xs @ n # ys)" "xs @ ys \<noteq> []"
  obtains p s where "pv n = Some p" "nx n = Some s" "p \<in> set (xs @ ys)" "s \<in> set (xs @ ys)"
    "p \<noteq> n" "s \<noteq> n" "s = hd (ys @ xs)" "p = last (ys @ xs)"
proof -
  have r: "ring nx pv (n # ys @ xs)" using assms(1) ring_rotate [of nx pv xs "n # ys"] by simp
  have ne: "ys @ xs \<noteq> []" using assms(3) by auto
  have "pv n = Some (last (ys @ xs))" using ring_last [OF r] ne by (auto split: if_splits)
  moreover obtain z zs where z: "ys @ xs = z # zs" using ne by (meson neq_Nil_conv)
  then have "nx n = Some (hd (ys @ xs))" using r by simp
  moreover have in_: "hd (ys @ xs) \<in> set (ys @ xs)" "last (ys @ xs) \<in> set (ys @ xs)"
    by (rule hd_in_set [OF ne], rule last_in_set [OF ne])
  moreover have "n \<notin> set (ys @ xs)" using assms(2) by auto
  ultimately show thesis using that [of "last (ys @ xs)" "hd (ys @ xs)"] by auto
qed

lemma ring_alone: "ring nx pv [n] \<Longrightarrow> nx n = Some n \<and> pv n = Some n"
  by simp

end
