(* ===== verification/Book_View.thy ===== *)
theory Book_View
  imports Order_Book Linked_Rings
begin

text \<open>
  The two heaps of the order book seen as data and links. For the pool of orders: what an order
  says apart from its two pointers (\<open>odata\<close>), its successor (\<open>onext\<close>) and its predecessor
  (\<open>oprev\<close>); likewise for the pool of price levels. Each write of the code changes one of these
  functions at one address, which the lemmas of this theory record.
\<close>

section \<open>Orders\<close>

definition strip :: "Order \<Rightarrow> Order" where
  "strip x = x\<lparr>prev := None, nxt := None\<rparr>"

definition odata :: "Order MemoryPool \<Rightarrow> nat \<Rightarrow> Order option" where
  "odata P i = map_option strip (live P i)"

definition onext :: "Order MemoryPool \<Rightarrow> link" where
  "onext P i = Option.bind (live P i) nxt"

definition oprev :: "Order MemoryPool \<Rightarrow> link" where
  "oprev P i = Option.bind (live P i) prev"

definition opool_ok :: "Order MemoryPool \<Rightarrow> bool" where
  "opool_ok P \<longleftrightarrow> pool_wf P \<and> vsize (memoryBlocks P) = MAX_ORDER_IDS"

lemma strip_simps [simp]:
  "tickerId (strip x) = tickerId x" "clientId (strip x) = clientId x"
  "clientOrderId (strip x) = clientOrderId x" "marketOrderId (strip x) = marketOrderId x"
  "side (strip x) = side x" "price (strip x) = price x" "qty (strip x) = qty x"
  "priority (strip x) = priority x" "strip (strip x) = strip x"
  "strip (x\<lparr>prev := p\<rparr>) = strip x" "strip (x\<lparr>nxt := p\<rparr>) = strip x"
  "strip (x\<lparr>qty := q\<rparr>) = (strip x)\<lparr>qty := q\<rparr>"
  by (simp_all add: strip_def)

lemma dom_odata: "dom (odata P) = dom (live P)"
  by (auto simp: odata_def)

lemma deref_order:
  assumes "odata P i = Some d"
  shows "\<exists>x. deref P (Some i) = Inr x \<and> strip x = d \<and> nxt x = onext P i \<and> prev x = oprev P i"
  using assms by (auto simp: odata_def onext_def oprev_def)

lemma live_order:
  "odata P i = Some d \<Longrightarrow> \<exists>x. live P i = Some x \<and> strip x = d"
  by (auto simp: odata_def)

lemma assign_order:
  assumes "odata P i = Some d" and fd: "\<And>x. strip (f x) = g (strip x)"
    and fn: "\<And>x. nxt (f x) = h (nxt x)" and fp: "\<And>x. prev (f x) = k (prev x)"
  shows "\<exists>P'. assign P (Some i) f = Inr P' \<and> odata P' = (odata P)(i \<mapsto> g d) \<and>
     onext P' = (onext P)(i := h (onext P i)) \<and> oprev P' = (oprev P)(i := k (oprev P i)) \<and>
     (opool_ok P \<longrightarrow> opool_ok P')"
proof -
  from assms(1) obtain x where x: "live P i = Some x" "strip x = d" by (auto simp: odata_def)
  from assign_ok [OF x(1), of f] obtain P' where P': "assign P (Some i) f = Inr P'"
    "live P' = (live P)(i \<mapsto> f x)" "vsize (memoryBlocks P') = vsize (memoryBlocks P)"
    "pool_wf P \<longrightarrow> pool_wf P'"
    by auto
  then show ?thesis using x fd fn fp
    by (intro exI [of _ P']) (auto simp: odata_def onext_def oprev_def opool_ok_def fun_eq_iff)
qed

lemma assign_nxt:
  assumes "i \<in> dom (odata P)"
  shows "\<exists>P'. assign P (Some i) (\<lambda>x. x\<lparr>nxt := v\<rparr>) = Inr P' \<and> odata P' = odata P \<and>
     onext P' = (onext P)(i := v) \<and> oprev P' = oprev P \<and> (opool_ok P \<longrightarrow> opool_ok P')"
  using assms assign_order [where g = "\<lambda>x. x" and h = "\<lambda>_. v" and k = "\<lambda>x. x" and P = P and i = i]
  by (fastforce simp: fun_upd_idem)

lemma assign_prev:
  assumes "i \<in> dom (odata P)"
  shows "\<exists>P'. assign P (Some i) (\<lambda>x. x\<lparr>prev := v\<rparr>) = Inr P' \<and> odata P' = odata P \<and>
     onext P' = onext P \<and> oprev P' = (oprev P)(i := v) \<and> (opool_ok P \<longrightarrow> opool_ok P')"
  using assms assign_order [where g = "\<lambda>x. x" and h = "\<lambda>x. x" and k = "\<lambda>_. v" and P = P and i = i]
  by (fastforce simp: fun_upd_idem)

lemma assign_links:
  assumes "i \<in> dom (odata P)"
  shows "\<exists>P'. assign P (Some i) (\<lambda>x. x\<lparr>prev := v, nxt := w\<rparr>) = Inr P' \<and> odata P' = odata P \<and>
     onext P' = (onext P)(i := w) \<and> oprev P' = (oprev P)(i := v) \<and> (opool_ok P \<longrightarrow> opool_ok P')"
  using assms assign_order [where g = "\<lambda>x. x" and h = "\<lambda>_. w" and k = "\<lambda>_. v" and P = P and i = i
      and f = "\<lambda>x. x\<lparr>prev := v, nxt := w\<rparr>"]
  by (fastforce simp: fun_upd_idem)

lemma assign_qty:
  assumes "odata P i = Some d"
  shows "\<exists>P'. assign P (Some i) (\<lambda>x. x\<lparr>qty := qty x - v\<rparr>) = Inr P' \<and>
     odata P' = (odata P)(i \<mapsto> d\<lparr>qty := qty d - v\<rparr>) \<and> onext P' = onext P \<and> oprev P' = oprev P \<and>
     (opool_ok P \<longrightarrow> opool_ok P')"
  using assms assign_order [where g = "\<lambda>x. x\<lparr>qty := qty x - v\<rparr>" and h = "\<lambda>x. x" and k = "\<lambda>x. x"
      and P = P and i = i and d = d and f = "\<lambda>x. x\<lparr>qty := qty x - v\<rparr>"]
  by (fastforce simp: fun_upd_idem)

lemma deallocate_order:
  assumes "opool_ok P" "i \<in> dom (odata P)"
  shows "\<exists>P'. deallocate P i = Inr P' \<and> odata P' = (odata P)(i := None) \<and>
     onext P' = (onext P)(i := None) \<and> oprev P' = (oprev P)(i := None) \<and> opool_ok P'"
proof -
  from assms obtain x where "pool_wf P" "live P i = Some x" by (auto simp: opool_ok_def odata_def)
  from mp.dealloc_live [OF this] assms(1) show ?thesis
    by (auto simp: opool_ok_def odata_def onext_def oprev_def fun_eq_iff)
qed

lemma allocate_order:
  assumes "opool_ok P" "card (dom (odata P)) < MAX_ORDER_IDS"
  shows "\<exists>i P'. allocate P x = Inr (Some i, P') \<and> i \<notin> dom (odata P) \<and>
     odata P' = (odata P)(i \<mapsto> strip x) \<and> onext P' = (onext P)(i := nxt x) \<and>
     oprev P' = (oprev P)(i := prev x) \<and> opool_ok P'"
proof -
  from assms have "pool_wf P" "card (dom (live P)) < vsize (memoryBlocks P)"
    by (simp_all add: opool_ok_def dom_odata)
  from mp.alloc_room [OF this, of x] assms(1) show ?thesis
    by (auto simp: opool_ok_def odata_def onext_def oprev_def fun_eq_iff)
qed

section \<open>Price levels\<close>

definition lstrip :: "OrdersAtPrice \<Rightarrow> OrdersAtPrice" where
  "lstrip x = x\<lparr>level_prev := None, level_next := None\<rparr>"

definition ldata :: "OrdersAtPrice MemoryPool \<Rightarrow> nat \<Rightarrow> OrdersAtPrice option" where
  "ldata P i = map_option lstrip (live P i)"

definition lnext :: "OrdersAtPrice MemoryPool \<Rightarrow> link" where
  "lnext P i = Option.bind (live P i) level_next"

definition lprev :: "OrdersAtPrice MemoryPool \<Rightarrow> link" where
  "lprev P i = Option.bind (live P i) level_prev"

definition lpool_ok :: "OrdersAtPrice MemoryPool \<Rightarrow> bool" where
  "lpool_ok P \<longleftrightarrow> pool_wf P \<and> vsize (memoryBlocks P) = MAX_PRICE_LEVELS"

lemma lstrip_simps [simp]:
  "level_side (lstrip x) = level_side x" "level_price (lstrip x) = level_price x"
  "order0 (lstrip x) = order0 x" "lstrip (lstrip x) = lstrip x"
  "lstrip (x\<lparr>level_prev := p\<rparr>) = lstrip x" "lstrip (x\<lparr>level_next := p\<rparr>) = lstrip x"
  "lstrip (x\<lparr>order0 := p\<rparr>) = (lstrip x)\<lparr>order0 := p\<rparr>"
  by (simp_all add: lstrip_def)

lemma dom_ldata: "dom (ldata P) = dom (live P)"
  by (auto simp: ldata_def)

lemma finite_dom_ldata [simp]: "finite (dom (ldata P))"
  by (simp add: dom_ldata)

lemma deref_level:
  assumes "ldata P i = Some d"
  shows "\<exists>x. deref P (Some i) = Inr x \<and> lstrip x = d \<and> level_next x = lnext P i \<and> level_prev x = lprev P i"
  using assms by (auto simp: ldata_def lnext_def lprev_def)

lemma assign_level:
  assumes "ldata P i = Some d" and fd: "\<And>x. lstrip (f x) = g (lstrip x)"
    and fn: "\<And>x. level_next (f x) = h (level_next x)" and fp: "\<And>x. level_prev (f x) = k (level_prev x)"
  shows "\<exists>P'. assign P (Some i) f = Inr P' \<and> ldata P' = (ldata P)(i \<mapsto> g d) \<and>
     lnext P' = (lnext P)(i := h (lnext P i)) \<and> lprev P' = (lprev P)(i := k (lprev P i)) \<and>
     (lpool_ok P \<longrightarrow> lpool_ok P')"
proof -
  from assms(1) obtain x where x: "live P i = Some x" "lstrip x = d" by (auto simp: ldata_def)
  from assign_ok [OF x(1), of f] obtain P' where P': "assign P (Some i) f = Inr P'"
    "live P' = (live P)(i \<mapsto> f x)" "vsize (memoryBlocks P') = vsize (memoryBlocks P)"
    "pool_wf P \<longrightarrow> pool_wf P'"
    by auto
  then show ?thesis using x fd fn fp
    by (intro exI [of _ P']) (auto simp: ldata_def lnext_def lprev_def lpool_ok_def fun_eq_iff)
qed

lemma assign_level_next:
  assumes "i \<in> dom (ldata P)"
  shows "\<exists>P'. assign P (Some i) (\<lambda>x. x\<lparr>level_next := v\<rparr>) = Inr P' \<and> ldata P' = ldata P \<and>
     lnext P' = (lnext P)(i := v) \<and> lprev P' = lprev P \<and> (lpool_ok P \<longrightarrow> lpool_ok P')"
  using assms assign_level [where g = "\<lambda>x. x" and h = "\<lambda>_. v" and k = "\<lambda>x. x" and P = P and i = i]
  by (fastforce simp: fun_upd_idem)

lemma assign_level_prev:
  assumes "i \<in> dom (ldata P)"
  shows "\<exists>P'. assign P (Some i) (\<lambda>x. x\<lparr>level_prev := v\<rparr>) = Inr P' \<and> ldata P' = ldata P \<and>
     lnext P' = lnext P \<and> lprev P' = (lprev P)(i := v) \<and> (lpool_ok P \<longrightarrow> lpool_ok P')"
  using assms assign_level [where g = "\<lambda>x. x" and h = "\<lambda>x. x" and k = "\<lambda>_. v" and P = P and i = i]
  by (fastforce simp: fun_upd_idem)

lemma assign_level_links:
  assumes "i \<in> dom (ldata P)"
  shows "\<exists>P'. assign P (Some i) (\<lambda>x. x\<lparr>level_prev := v, level_next := w\<rparr>) = Inr P' \<and> ldata P' = ldata P \<and>
     lnext P' = (lnext P)(i := w) \<and> lprev P' = (lprev P)(i := v) \<and> (lpool_ok P \<longrightarrow> lpool_ok P')"
  using assms assign_level [where g = "\<lambda>x. x" and h = "\<lambda>_. w" and k = "\<lambda>_. v" and P = P and i = i
      and f = "\<lambda>x. x\<lparr>level_prev := v, level_next := w\<rparr>"]
  by (fastforce simp: fun_upd_idem)

lemma assign_order0:
  assumes "ldata P i = Some d"
  shows "\<exists>P'. assign P (Some i) (\<lambda>x. x\<lparr>order0 := v\<rparr>) = Inr P' \<and>
     ldata P' = (ldata P)(i \<mapsto> d\<lparr>order0 := v\<rparr>) \<and> lnext P' = lnext P \<and> lprev P' = lprev P \<and>
     (lpool_ok P \<longrightarrow> lpool_ok P')"
  using assms assign_level [where g = "\<lambda>x. x\<lparr>order0 := v\<rparr>" and h = "\<lambda>x. x" and k = "\<lambda>x. x"
      and P = P and i = i and d = d and f = "\<lambda>x. x\<lparr>order0 := v\<rparr>"]
  by (fastforce simp: fun_upd_idem)

lemma deallocate_level:
  assumes "lpool_ok P" "i \<in> dom (ldata P)"
  shows "\<exists>P'. deallocate P i = Inr P' \<and> ldata P' = (ldata P)(i := None) \<and>
     lnext P' = (lnext P)(i := None) \<and> lprev P' = (lprev P)(i := None) \<and> lpool_ok P'"
proof -
  from assms obtain x where "pool_wf P" "live P i = Some x" by (auto simp: lpool_ok_def ldata_def)
  from mp.dealloc_live [OF this] assms(1) show ?thesis
    by (auto simp: lpool_ok_def ldata_def lnext_def lprev_def fun_eq_iff)
qed

lemma allocate_level:
  assumes "lpool_ok P" "card (dom (ldata P)) < MAX_PRICE_LEVELS"
  shows "\<exists>i P'. allocate P x = Inr (Some i, P') \<and> i \<notin> dom (ldata P) \<and>
     ldata P' = (ldata P)(i \<mapsto> lstrip x) \<and> lnext P' = (lnext P)(i := level_next x) \<and>
     lprev P' = (lprev P)(i := level_prev x) \<and> lpool_ok P'"
proof -
  from assms have "pool_wf P" "card (dom (live P)) < vsize (memoryBlocks P)"
    by (simp_all add: lpool_ok_def dom_ldata)
  from mp.alloc_room [OF this, of x] assms(1) show ?thesis
    by (auto simp: lpool_ok_def ldata_def lnext_def lprev_def fun_eq_iff)
qed

end
