(* ===== verification/Book_Inv.thy ===== *)
theory Book_Inv
  imports Book_View
begin

text \<open>
  The representation invariant of the order book. A layout gives, for each side, the price levels
  in ring order from the best one, each with the addresses of its orders in ring order from the
  first. \<open>book_ok b Lv\<close> says that the heaps of \<open>b\<close> hold exactly this layout, that the array of
  price levels finds every level by its price and the array of client orders every order by its
  client's identifiers, and that the pools are consistent.
\<close>

section \<open>The invariant\<close>

type_synonym layout = "Side \<Rightarrow> (nat \<times> nat list) list"

abbreviation sides :: "Side set" where
  "sides \<equiv> {BUY, SELL}"

definition level_ok :: "Order MemoryPool \<Rightarrow> OrdersAtPrice MemoryPool \<Rightarrow> Side \<Rightarrow> nat \<times> nat list \<Rightarrow> bool" where
  "level_ok P Q sd e \<longleftrightarrow>
     (\<exists>L. ldata Q (fst e) = Some L \<and> level_side L = sd \<and> snd e \<noteq> [] \<and> order0 L = Some (hd (snd e)) \<and>
       (\<forall>i\<in>set (snd e). \<exists>x. odata P i = Some x \<and> side x = sd \<and> price x = level_price L)) \<and>
     distinct (snd e) \<and> ring (onext P) (oprev P) (snd e)"

definition side_ok ::
    "Order MemoryPool \<Rightarrow> OrdersAtPrice MemoryPool \<Rightarrow> ptr \<Rightarrow> Side \<Rightarrow> (nat \<times> nat list) list \<Rightarrow> bool" where
  "side_ok P Q best sd A \<longleftrightarrow>
     best = (if A = [] then None else Some (fst (hd A))) \<and> distinct (map fst A) \<and>
     ring (lnext Q) (lprev Q) (map fst A) \<and> (\<forall>e\<in>set A. level_ok P Q sd e)"

definition slots_ok :: "ptr vec \<Rightarrow> (nat \<Rightarrow> OrdersAtPrice option) \<Rightarrow> bool" where
  "slots_ok m ld \<longleftrightarrow> vsize m = MAX_PRICE_LEVELS \<and>
     (\<forall>i < MAX_PRICE_LEVELS. \<forall>l. velem m i = Some l \<longleftrightarrow>
        (\<exists>L. ld l = Some L \<and> priceToIndex (level_price L) = i))"

definition clients_ok :: "ptr vec vec \<Rightarrow> (nat \<Rightarrow> Order option) \<Rightarrow> bool" where
  "clients_ok cm od \<longleftrightarrow> vsize cm = MAX_N_CLIENTS \<and>
     (\<forall>c < MAX_N_CLIENTS. vsize (velem cm c) = MAX_ORDER_IDS) \<and>
     (\<forall>p x. od p = Some x \<longrightarrow> unat (clientId x) < MAX_N_CLIENTS \<and> unat (clientOrderId x) < MAX_ORDER_IDS) \<and>
     (\<forall>c < MAX_N_CLIENTS. \<forall>k < MAX_ORDER_IDS. \<forall>p. velem (velem cm c) k = Some p \<longleftrightarrow>
        (\<exists>x. od p = Some x \<and> unat (clientId x) = c \<and> unat (clientOrderId x) = k))"

definition book_ok :: "OrderBook \<Rightarrow> layout \<Rightarrow> bool" where
  "book_ok b Lv \<longleftrightarrow>
     (\<forall>sd\<in>sides. side_ok (orderPool b) (ordersAtPricePool b) (bestOrdersByPrice b sd) sd (Lv sd)) \<and>
     dom (ldata (ordersAtPricePool b)) = (\<Union>sd\<in>sides. fst ` set (Lv sd)) \<and>
     dom (odata (orderPool b)) = (\<Union>sd\<in>sides. \<Union>e\<in>set (Lv sd). set (snd e)) \<and>
     slots_ok (mapPriceToPriceLevel b) (ldata (ordersAtPricePool b)) \<and>
     clients_ok (mapClientIdToOrder b) (odata (orderPool b)) \<and>
     opool_ok (orderPool b) \<and> lpool_ok (ordersAtPricePool b)"

section \<open>Reading the invariant\<close>

lemma book_okD:
  assumes "book_ok b Lv"
  shows "sd \<in> sides \<Longrightarrow> side_ok (orderPool b) (ordersAtPricePool b) (bestOrdersByPrice b sd) sd (Lv sd)"
    and "slots_ok (mapPriceToPriceLevel b) (ldata (ordersAtPricePool b))"
    and "clients_ok (mapClientIdToOrder b) (odata (orderPool b))"
    and "opool_ok (orderPool b)" and "lpool_ok (ordersAtPricePool b)"
    and "dom (ldata (ordersAtPricePool b)) = (\<Union>sd\<in>sides. fst ` set (Lv sd))"
    and "dom (odata (orderPool b)) = (\<Union>sd\<in>sides. \<Union>e\<in>set (Lv sd). set (snd e))"
  using assms [unfolded book_ok_def] by - (elim conjE, (erule (1) bspec | assumption))+

lemma book_level_ok:
  "book_ok b Lv \<Longrightarrow> sd \<in> sides \<Longrightarrow> e \<in> set (Lv sd) \<Longrightarrow> level_ok (orderPool b) (ordersAtPricePool b) sd e"
  using book_okD(1) unfolding side_ok_def by blast

lemma level_okE:
  assumes "level_ok P Q sd (l, os)"
  obtains L where "ldata Q l = Some L" "level_side L = sd" "os \<noteq> []" "order0 L = Some (hd os)"
    "\<forall>i\<in>set os. \<exists>x. odata P i = Some x \<and> side x = sd \<and> price x = level_price L"
    "distinct os" "ring (onext P) (oprev P) os"
  using assms unfolding level_ok_def by auto

text \<open>The lists of a level are determined by its data and by the part of the heap they live in.\<close>

lemma level_ok_cong:
  assumes "ldata Q' (fst e) = ldata Q (fst e)"
    and "\<And>i. i \<in> set (snd e) \<Longrightarrow> odata P' i = odata P i \<and> onext P' i = onext P i \<and> oprev P' i = oprev P i"
  shows "level_ok P' Q' sd e \<longleftrightarrow> level_ok P Q sd e"
proof -
  have "ring (onext P') (oprev P') (snd e) \<longleftrightarrow> ring (onext P) (oprev P) (snd e)"
    using assms(2) by (intro ring_cong) auto
  then show ?thesis using assms unfolding level_ok_def by auto
qed

lemma priceToIndex_lt [simp]: "priceToIndex px < MAX_PRICE_LEVELS"
  by (simp add: priceToIndex_def limits)

lemma book_slot:
  assumes "slots_ok (mapPriceToPriceLevel b) (ldata (ordersAtPricePool b))"
    and "ldata (ordersAtPricePool b) l = Some L"
  shows "getLevelForPrice b (level_price L) = Inr (Some l)"
  using assms by (auto simp: slots_ok_def getLevelForPrice_def)

lemma slots_inj:
  assumes "slots_ok m ld" "ld l = Some L" "ld l' = Some L'" "priceToIndex (level_price L) = priceToIndex (level_price L')"
  shows "l = l'"
  using assms unfolding slots_ok_def by (metis option.inject priceToIndex_lt)

text \<open>An order is in one place of the layout only.\<close>

lemma layout_unique:
  assumes "book_ok b Lv" "sd \<in> sides" "sd' \<in> sides" "e \<in> set (Lv sd)" "e' \<in> set (Lv sd')"
    and "i \<in> set (snd e)" "i \<in> set (snd e')"
  shows "sd = sd' \<and> e = e'"
proof -
  obtain L where L: "ldata (ordersAtPricePool b) (fst e) = Some L" "level_side L = sd"
    "\<exists>x. odata (orderPool b) i = Some x \<and> side x = sd \<and> price x = level_price L"
    using book_level_ok [OF assms(1,2,4)] assms(6) unfolding level_ok_def by blast
  obtain L' where L': "ldata (ordersAtPricePool b) (fst e') = Some L'" "level_side L' = sd'"
    "\<exists>x. odata (orderPool b) i = Some x \<and> side x = sd' \<and> price x = level_price L'"
    using book_level_ok [OF assms(1,3,5)] assms(7) unfolding level_ok_def by blast
  from L(3) L'(3) have sd: "sd = sd'" "level_price L = level_price L'" by auto
  then have "fst e = fst e'" using slots_inj [OF book_okD(2) [OF assms(1)] L(1) L'(1)] by simp
  moreover have "distinct (map fst (Lv sd))" using book_okD(1) [OF assms(1,2)] by (simp add: side_ok_def)
  ultimately show ?thesis using assms(4,5) sd by (metis distinct_map_fst_same prod.collapse)
qed

lemma level_unique:
  assumes "book_ok b Lv" "sd \<in> sides" "sd' \<in> sides" "e \<in> set (Lv sd)" "e' \<in> set (Lv sd')" "fst e = fst e'"
  shows "sd = sd' \<and> e = e'"
proof -
  have "sd = sd'"
    using book_level_ok [OF assms(1,2,4)] book_level_ok [OF assms(1,3,5)] assms(6) by (auto simp: level_ok_def)
  moreover have "distinct (map fst (Lv sd))" using book_okD(1) [OF assms(1,2)] by (simp add: side_ok_def)
  ultimately show ?thesis using assms by (metis distinct_map_fst_same prod.collapse)
qed

section \<open>Client order map and price level map\<close>

lemma setClientOrder_ok:
  assumes "clients_ok cm od" "mapClientIdToOrder b = cm" "unat c < MAX_N_CLIENTS" "unat k < MAX_ORDER_IDS"
  shows "\<exists>cm'. setClientOrder b c k p = Inr (b\<lparr>mapClientIdToOrder := cm'\<rparr>) \<and>
     vsize cm' = MAX_N_CLIENTS \<and> (\<forall>c < MAX_N_CLIENTS. vsize (velem cm' c) = MAX_ORDER_IDS) \<and>
     (\<forall>c' k'. velem (velem cm' c') k' = (if c' = unat c \<and> k' = unat k then p else velem (velem cm c') k'))"
  using assms by (auto simp: setClientOrder_def clients_ok_def)

lemma clients_ok_remove:
  assumes "clients_ok cm od" "od i = Some x" "vsize cm' = MAX_N_CLIENTS"
    and "\<forall>c < MAX_N_CLIENTS. vsize (velem cm' c) = MAX_ORDER_IDS"
    and "\<forall>c' k'. velem (velem cm' c') k' =
      (if c' = unat (clientId x) \<and> k' = unat (clientOrderId x) then None else velem (velem cm c') k')"
  shows "clients_ok cm' (od(i := None))"
proof -
  have "velem (velem cm (unat (clientId x))) (unat (clientOrderId x)) = Some i"
    using assms(1,2) unfolding clients_ok_def by blast
  then have uniq: "q = i" if "od q = Some y" "unat (clientId y) = unat (clientId x)"
      "unat (clientOrderId y) = unat (clientOrderId x)" for q y
    using assms(1,2) that unfolding clients_ok_def by (metis option.inject)
  let ?here = "\<lambda>c k. c = unat (clientId x) \<and> k = unat (clientOrderId x)"
  have "velem (velem cm' c) k = Some p \<longleftrightarrow>
      (\<exists>y. (od(i := None)) p = Some y \<and> unat (clientId y) = c \<and> unat (clientOrderId y) = k)"
    if ck: "c < MAX_N_CLIENTS" "k < MAX_ORDER_IDS" for c k p
  proof (cases "?here c k")
    case True
    with assms(5) uniq show ?thesis by auto
  next
    case False
    with assms(5) have "velem (velem cm' c) k = velem (velem cm c) k" by auto
    moreover have "velem (velem cm c) k = Some p \<longleftrightarrow>
        (\<exists>y. od p = Some y \<and> unat (clientId y) = c \<and> unat (clientOrderId y) = k)"
      using assms(1) ck unfolding clients_ok_def by blast
    ultimately show ?thesis using False assms(2) by auto
  qed
  then show ?thesis using assms(1,3,4) unfolding clients_ok_def by (simp split: if_splits)
qed

lemma clients_ok_add:
  assumes "clients_ok cm od" "od i = None" "vsize cm' = MAX_N_CLIENTS"
    and "\<forall>c < MAX_N_CLIENTS. vsize (velem cm' c) = MAX_ORDER_IDS"
    and "unat (clientId x) < MAX_N_CLIENTS" "unat (clientOrderId x) < MAX_ORDER_IDS"
    and "velem (velem cm (unat (clientId x))) (unat (clientOrderId x)) = None"
    and "\<forall>c' k'. velem (velem cm' c') k' =
      (if c' = unat (clientId x) \<and> k' = unat (clientOrderId x) then Some i else velem (velem cm c') k')"
  shows "clients_ok cm' (od(i \<mapsto> x))"
proof -
  have "\<not> (\<exists>q y. od q = Some y \<and> unat (clientId y) = unat (clientId x) \<and>
      unat (clientOrderId y) = unat (clientOrderId x))"
    using assms(1,5,6,7) unfolding clients_ok_def by (metis option.distinct(1))
  with assms show ?thesis unfolding clients_ok_def by (auto split: if_splits)
qed

lemma clients_ok_data:
  assumes "clients_ok cm od" "od i = Some x" "clientId y = clientId x" "clientOrderId y = clientOrderId x"
  shows "clients_ok cm (od(i \<mapsto> y))"
  using assms unfolding clients_ok_def by (auto split: if_splits)

lemma slots_ok_remove:
  assumes "slots_ok m ld" "ld l = Some L"
  shows "slots_ok (m\<lparr>velem := (velem m)(priceToIndex (level_price L) := None)\<rparr>) (ld(l := None))"
proof -
  let ?j = "priceToIndex (level_price L)"
  have uniq: "priceToIndex (level_price L') \<noteq> ?j" if "ld l' = Some L'" "l' \<noteq> l" for l' L'
    using slots_inj [OF assms(1,2) that(1)] that(2) by auto
  have "(if i = ?j then None else velem m i) = Some l' \<longleftrightarrow>
      (\<exists>L'. (ld(l := None)) l' = Some L' \<and> priceToIndex (level_price L') = i)"
    if i: "i < MAX_PRICE_LEVELS" for i l'
  proof -
    have "velem m i = Some l' \<longleftrightarrow> (\<exists>L'. ld l' = Some L' \<and> priceToIndex (level_price L') = i)"
      using assms(1) i unfolding slots_ok_def by blast
    then show ?thesis using uniq [of l'] assms(2) by auto
  qed
  then show ?thesis using assms(1) unfolding slots_ok_def by simp
qed

lemma slots_ok_add:
  assumes "slots_ok m ld" "ld l = None" "velem m (priceToIndex (level_price L)) = None"
  shows "slots_ok (m\<lparr>velem := (velem m)(priceToIndex (level_price L) := Some l)\<rparr>) (ld(l \<mapsto> L))"
proof -
  have "priceToIndex (level_price L') \<noteq> priceToIndex (level_price L)" if "ld l' = Some L'" for l' L'
    using assms(1,3) that unfolding slots_ok_def by (metis option.distinct(1) priceToIndex_lt)
  with assms show ?thesis unfolding slots_ok_def by (auto split: if_splits)
qed

lemma slots_ok_data:
  assumes "slots_ok m ld" "ld l = Some L" "level_price L' = level_price L"
  shows "slots_ok m (ld(l \<mapsto> L'))"
  using assms unfolding slots_ok_def by (auto split: if_splits)

end
