(* ===== verification/Book_Ops.thy ===== *)
theory Book_Ops
  imports Book_Inv
begin

text \<open>
  What the linking operations of the order book do to the layout: an order leaves or joins the
  ring of its level, a level leaves or joins the ring of its side. Each operation is shown to
  succeed and to change the heaps only at the nodes of the ring concerned.
\<close>

section \<open>Orders within a level\<close>

lemma leaveLevel_spec:
  assumes ok: "level_ok (orderPool b) (ordersAtPricePool b) sd (l, xs @ i # ys)" and ne: "xs @ ys \<noteq> []"
  obtains P' Q' L where
    "leaveLevel b (Some i) (Some l) = Inr (b\<lparr>orderPool := P', ordersAtPricePool := Q'\<rparr>)"
    "odata P' = odata (orderPool b)"
    "\<forall>j. j \<notin> set (xs @ i # ys) \<longrightarrow> onext P' j = onext (orderPool b) j \<and> oprev P' j = oprev (orderPool b) j"
    "level_ok P' Q' sd (l, xs @ ys)"
    "ldata (ordersAtPricePool b) l = Some L"
    "ldata Q' = (ldata (ordersAtPricePool b))(l \<mapsto> L\<lparr>order0 := Some (hd (xs @ ys))\<rparr>)"
    "lnext Q' = lnext (ordersAtPricePool b)" "lprev Q' = lprev (ordersAtPricePool b)"
    "opool_ok (orderPool b) \<longrightarrow> opool_ok P'" "lpool_ok (ordersAtPricePool b) \<longrightarrow> lpool_ok Q'"
proof -
  let ?P = "orderPool b" and ?Q = "ordersAtPricePool b"
  from ok obtain L where L: "ldata ?Q l = Some L" "level_side L = sd" "xs @ i # ys \<noteq> []"
      "order0 L = Some (hd (xs @ i # ys))"
    and data: "\<forall>j\<in>set (xs @ i # ys). \<exists>x. odata ?P j = Some x \<and> side x = sd \<and> price x = level_price L"
    and d: "distinct (xs @ i # ys)" and r: "ring (onext ?P) (oprev ?P) (xs @ i # ys)"
    by (rule level_okE)
  from ring_neighbours [OF r d ne] obtain p s where ps: "oprev ?P i = Some p" "onext ?P i = Some s"
    "p \<in> set (xs @ ys)" "s \<in> set (xs @ ys)" "p \<noteq> i" "s \<noteq> i" "s = hd (ys @ xs)" .
  have dom: "p \<in> dom (odata ?P)" "s \<in> dom (odata ?P)" "i \<in> dom (odata ?P)"
    using data ps by auto
  from assign_nxt [OF dom(1), of "Some s"] obtain P1 where P1: "assign ?P (Some p) (\<lambda>x. x\<lparr>nxt := Some s\<rparr>) = Inr P1"
    "odata P1 = odata ?P" "onext P1 = (onext ?P)(p := Some s)" "oprev P1 = oprev ?P" "opool_ok ?P \<longrightarrow> opool_ok P1"
    by auto
  from assign_prev [of s P1 "Some p"] dom P1(2) obtain P2 where P2: "assign P1 (Some s) (\<lambda>x. x\<lparr>prev := Some p\<rparr>) = Inr P2"
    "odata P2 = odata ?P" "onext P2 = (onext ?P)(p := Some s)" "oprev P2 = (oprev ?P)(s := Some p)" "opool_ok ?P \<longrightarrow> opool_ok P2"
    using P1 by auto
  from assign_links [of i P2 None None] dom P2(2) obtain P3 where P3:
    "assign P2 (Some i) (\<lambda>x. x\<lparr>prev := None, nxt := None\<rparr>) = Inr P3"
    "odata P3 = odata ?P" "onext P3 = ((onext ?P)(p := Some s))(i := None)"
    "oprev P3 = ((oprev ?P)(s := Some p))(i := None)" "opool_ok ?P \<longrightarrow> opool_ok P3"
    using P2 by auto
  obtain x0 where x0: "deref ?P (Some i) = Inr x0" "prev x0 = Some p" "nxt x0 = Some s"
    using deref_order [of ?P i] dom(3) ps by auto
  obtain x1 where x1: "deref P1 (Some i) = Inr x1" "prev x1 = Some p" "nxt x1 = Some s"
    using deref_order [of P1 i] dom(3) ps P1 by auto
  obtain x2 where x2: "deref P2 (Some i) = Inr x2" "nxt x2 = Some s"
    using deref_order [of P2 i] dom(3) ps P2 by auto
  obtain lv where lv: "deref ?Q (Some l) = Inr lv" "order0 lv = Some (hd (xs @ i # ys))"
    using deref_level [OF L(1)] L(4) by (metis lstrip_simps(3))
  obtain Q' where Q': "(if order0 lv = Some i then assign ?Q (Some l) (\<lambda>x. x\<lparr>order0 := Some s\<rparr>) else Inr ?Q) = Inr Q'"
    "ldata Q' = (ldata ?Q)(l \<mapsto> L\<lparr>order0 := Some (hd (xs @ ys))\<rparr>)" "lnext Q' = lnext ?Q" "lprev Q' = lprev ?Q"
    "lpool_ok ?Q \<longrightarrow> lpool_ok Q'"
  proof (cases xs)
    case Nil
    with assign_order0 [OF L(1), of "Some s"] lv(2) ps(7) that show thesis by auto
  next
    case (Cons z zs)
    with lv(2) d L(1,4) have "order0 lv \<noteq> Some i" "(ldata ?Q)(l \<mapsto> L\<lparr>order0 := Some (hd (xs @ ys))\<rparr>) = ldata ?Q"
      by (auto simp: fun_upd_idem_iff)
    with that [of ?Q] show thesis by simp
  qed
  have "ring (onext P3) (oprev P3) (xs @ ys)"
    by (rule ring_unlink [OF r d ne]) (use d in \<open>auto simp: P3(3,4) ps(1,2)\<close>)
  then have "level_ok P3 Q' sd (l, xs @ ys)"
    unfolding level_ok_def using L(2) Q'(2) P3(2) data d ne by auto
  moreover have "leaveLevel b (Some i) (Some l) = Inr (b\<lparr>orderPool := P3, ordersAtPricePool := Q'\<rparr>)"
    using Q'(1) lv(1) by (cases "order0 lv = Some i")
      (simp_all add: leaveLevel_def rdO_def wrO_def rdL_def wrL_def x0 x1 x2 P1(1) P2(1) P3(1)
        del: bind_res_eq_Inr deref_eq_Inr)
  moreover have "onext P3 j = onext ?P j \<and> oprev P3 j = oprev ?P j" if "j \<notin> set (xs @ i # ys)" for j
    using that ps P3(3,4) by auto
  ultimately show thesis using that [where P' = P3 and Q' = Q' and L = L] L(1) P3(2,5) Q'(2-5) by blast
qed

text \<open>A new order goes to the end of its level's ring.\<close>

lemma joinLevel_spec:
  assumes ok: "level_ok (orderPool b) (ordersAtPricePool b) sd (l, os)"
    and i: "odata (orderPool b) i = Some x" "i \<notin> set os" "side x = sd"
    and px: "\<And>L. ldata (ordersAtPricePool b) l = Some L \<Longrightarrow> price x = level_price L"
  obtains P' where
    "joinLevel b (Some i) (Some l) = Inr (b\<lparr>orderPool := P'\<rparr>)" "odata P' = odata (orderPool b)"
    "\<forall>j. j \<notin> set (os @ [i]) \<longrightarrow> onext P' j = onext (orderPool b) j \<and> oprev P' j = oprev (orderPool b) j"
    "level_ok P' (ordersAtPricePool b) sd (l, os @ [i])" "opool_ok (orderPool b) \<longrightarrow> opool_ok P'"
proof -
  let ?P = "orderPool b" and ?Q = "ordersAtPricePool b"
  from ok obtain L where L: "ldata ?Q l = Some L" "level_side L = sd" and ne: "os \<noteq> []" and o0: "order0 L = Some (hd os)"
    and data: "\<forall>j\<in>set os. \<exists>x. odata ?P j = Some x \<and> side x = sd \<and> price x = level_price L"
    and d: "distinct os" and r: "ring (onext ?P) (oprev ?P) os"
    by (rule level_okE)
  let ?f = "hd os" and ?t = "last os"
  have in_: "?f \<in> set os" "?t \<in> set os" using ne by simp_all
  have ft: "onext ?P ?t = Some ?f" "oprev ?P ?f = Some ?t"
    using ring_last [of "onext ?P" "oprev ?P" ?f "tl os"] r ne by simp_all
  have ne_i: "?f \<noteq> i" "?t \<noteq> i" using i(2) in_ by auto
  have dom: "?f \<in> dom (odata ?P)" "?t \<in> dom (odata ?P)" "i \<in> dom (odata ?P)"
    using data in_ i by auto
  from assign_prev [OF dom(3), of "Some ?t"] obtain P1 where P1: "assign ?P (Some i) (\<lambda>x. x\<lparr>prev := Some ?t\<rparr>) = Inr P1"
    "odata P1 = odata ?P" "onext P1 = onext ?P" "oprev P1 = (oprev ?P)(i := Some ?t)" "opool_ok ?P \<longrightarrow> opool_ok P1"
    by auto
  from assign_nxt [of i P1 "Some ?f"] dom P1 obtain P2 where P2: "assign P1 (Some i) (\<lambda>x. x\<lparr>nxt := Some ?f\<rparr>) = Inr P2"
    "odata P2 = odata ?P" "onext P2 = (onext ?P)(i := Some ?f)" "oprev P2 = (oprev ?P)(i := Some ?t)" "opool_ok ?P \<longrightarrow> opool_ok P2"
    by auto
  from assign_nxt [of ?t P2 "Some i"] dom P2 obtain P3 where P3: "assign P2 (Some ?t) (\<lambda>x. x\<lparr>nxt := Some i\<rparr>) = Inr P3"
    "odata P3 = odata ?P" "onext P3 = ((onext ?P)(i := Some ?f))(?t := Some i)" "oprev P3 = (oprev ?P)(i := Some ?t)" "opool_ok ?P \<longrightarrow> opool_ok P3"
    by auto
  from assign_prev [of ?f P3 "Some i"] dom P3 obtain P4 where P4: "assign P3 (Some ?f) (\<lambda>x. x\<lparr>prev := Some i\<rparr>) = Inr P4"
    "odata P4 = odata ?P" "onext P4 = ((onext ?P)(i := Some ?f))(?t := Some i)"
    "oprev P4 = ((oprev ?P)(i := Some ?t))(?f := Some i)" "opool_ok ?P \<longrightarrow> opool_ok P4"
    by auto
  obtain y0 where y0: "deref ?P (Some ?f) = Inr y0" "prev y0 = Some ?t"
    using deref_order [of ?P ?f] dom(1) ft by auto
  obtain y1 where y1: "deref P2 (Some ?f) = Inr y1" "prev y1 = Some ?t"
    using deref_order [of P2 ?f] dom(1) ft P2 ne_i by auto
  obtain lv where lv: "deref ?Q (Some l) = Inr lv" "order0 lv = Some ?f"
    using deref_level [OF L(1)] o0 by (metis lstrip_simps(3))
  have run: "joinLevel b (Some i) (Some l) = Inr (b\<lparr>orderPool := P4\<rparr>)"
    by (simp add: joinLevel_def rdO_def wrO_def rdL_def y0 y1 lv P1(1) P2(1) P3(1) P4(1))
  obtain us where us: "os = us @ [?t]" using ne by (metis append_butlast_last_id)
  have "ring (onext P4) (oprev P4) (us @ ?t # i # [])"
  proof (rule ring_link_after_mid)
    show "ring (onext ?P) (oprev ?P) (us @ ?t # [])" using r us by simp
    show "distinct (us @ ?t # [])" using d us by simp
    show "i \<notin> set (us @ ?t # [])" using i(2) us by simp
    show "onext P4 = ((onext ?P)(?t := Some i))(i := onext ?P ?t)"
      using P4(3) ft ne_i by (simp add: fun_upd_twist)
    show "oprev P4 = ((oprev ?P)(the (onext ?P ?t) := Some i))(i := Some ?t)"
      using P4(4) ft ne_i by (simp add: fun_upd_twist)
  qed
  then have "ring (onext P4) (oprev P4) (os @ [i])" using us by (metis append_Cons append_Nil append_assoc)
  then have "level_ok P4 ?Q sd (l, os @ [i])"
    unfolding level_ok_def using L o0 P4(2) data d ne i px [OF L(1)] by auto
  moreover have "onext P4 j = onext ?P j \<and> oprev P4 j = oprev ?P j" if "j \<notin> set (os @ [i])" for j
    using that in_ P4(3,4) by auto
  ultimately show thesis using that [of P4] run P4(2,5) by blast
qed

section \<open>Levels within a side\<close>

lemma setBest_simps [simp]:
  "ordersAtPricePool (setBestOrdersByPrice b sd p) = ordersAtPricePool b"
  "mapPriceToPriceLevel (setBestOrdersByPrice b sd p) = mapPriceToPriceLevel b"
  "mapClientIdToOrder (setBestOrdersByPrice b sd p) = mapClientIdToOrder b"
  "(setBestOrdersByPrice b sd p)\<lparr>ordersAtPricePool := Q\<rparr> = setBestOrdersByPrice (b\<lparr>ordersAtPricePool := Q\<rparr>) sd p"
  "(setBestOrdersByPrice b sd p)\<lparr>orderPool := P\<rparr> = setBestOrdersByPrice (b\<lparr>orderPool := P\<rparr>) sd p"
  "(setBestOrdersByPrice b sd p)\<lparr>mapPriceToPriceLevel := m\<rparr> = setBestOrdersByPrice (b\<lparr>mapPriceToPriceLevel := m\<rparr>) sd p"
  "(setBestOrdersByPrice b sd p)\<lparr>mapClientIdToOrder := cm\<rparr> = setBestOrdersByPrice (b\<lparr>mapClientIdToOrder := cm\<rparr>) sd p"
  "bestOrdersByPrice (b\<lparr>ordersAtPricePool := Q\<rparr>) sd = bestOrdersByPrice b sd"
  "bestOrdersByPrice (b\<lparr>orderPool := P\<rparr>) sd = bestOrdersByPrice b sd"
  "bestOrdersByPrice (b\<lparr>mapPriceToPriceLevel := m\<rparr>) sd = bestOrdersByPrice b sd"
  "bestOrdersByPrice (b\<lparr>mapClientIdToOrder := cm\<rparr>) sd = bestOrdersByPrice b sd"
  by (simp_all add: setBestOrdersByPrice_def bestOrdersByPrice_def)

lemma setBest_same: "bestOrdersByPrice b sd = p \<Longrightarrow> setBestOrdersByPrice b sd p = b"
  by (auto simp: setBestOrdersByPrice_def bestOrdersByPrice_def)

lemma best_setBest:
  "sd \<in> sides \<Longrightarrow> sd' \<in> sides \<Longrightarrow>
   bestOrdersByPrice (setBestOrdersByPrice b sd p) sd' = (if sd' = sd then p else bestOrdersByPrice b sd')"
  by (auto simp: setBestOrdersByPrice_def bestOrdersByPrice_def)

lemma unlinkLevel_spec:
  assumes r: "ring (lnext (ordersAtPricePool b)) (lprev (ordersAtPricePool b)) (ls @ l # ms)"
    and d: "distinct (ls @ l # ms)" and dm: "set (ls @ l # ms) \<subseteq> dom (ldata (ordersAtPricePool b))"
    and best: "bestOrdersByPrice b sd = Some (hd (ls @ l # ms))"
  obtains Q' where
    "unlinkLevel b sd (Some l) = Inr (setBestOrdersByPrice (b\<lparr>ordersAtPricePool := Q'\<rparr>) sd
       (if ls @ ms = [] then None else Some (hd (ls @ ms))))"
    "ldata Q' = ldata (ordersAtPricePool b)" "ring (lnext Q') (lprev Q') (ls @ ms)"
    "\<forall>j. j \<notin> set (ls @ l # ms) \<longrightarrow>
       lnext Q' j = lnext (ordersAtPricePool b) j \<and> lprev Q' j = lprev (ordersAtPricePool b) j"
    "lpool_ok (ordersAtPricePool b) \<longrightarrow> lpool_ok Q'"
proof (cases "ls @ ms = []")
  case True
  let ?Q = "ordersAtPricePool b"
  from dm obtain lv where "deref ?Q (Some l) = Inr lv" "level_next lv = lnext ?Q l"
    using deref_level [of ?Q l] by auto
  with r True have "unlinkLevel b sd (Some l) = Inr (setBestOrdersByPrice b sd None)"
    by (simp add: unlinkLevel_def rdL_def)
  with True that [where Q' = ?Q] show thesis by simp
next
  case ne: False
  let ?Q = "ordersAtPricePool b"
  from ring_neighbours [OF r d ne] obtain p s where ps: "lprev ?Q l = Some p" "lnext ?Q l = Some s"
    "p \<in> set (ls @ ms)" "s \<in> set (ls @ ms)" "p \<noteq> l" "s \<noteq> l" "s = hd (ms @ ls)" .
  have dom: "p \<in> dom (ldata ?Q)" "s \<in> dom (ldata ?Q)" "l \<in> dom (ldata ?Q)"
    using dm ps by auto
  from assign_level_next [OF dom(1), of "Some s"] obtain Q1 where Q1:
    "assign ?Q (Some p) (\<lambda>x. x\<lparr>level_next := Some s\<rparr>) = Inr Q1" "ldata Q1 = ldata ?Q"
    "lnext Q1 = (lnext ?Q)(p := Some s)" "lprev Q1 = lprev ?Q" "lpool_ok ?Q \<longrightarrow> lpool_ok Q1"
    by auto
  from assign_level_prev [of s Q1 "Some p"] dom Q1 obtain Q2 where Q2:
    "assign Q1 (Some s) (\<lambda>x. x\<lparr>level_prev := Some p\<rparr>) = Inr Q2" "ldata Q2 = ldata ?Q"
    "lnext Q2 = (lnext ?Q)(p := Some s)" "lprev Q2 = (lprev ?Q)(s := Some p)" "lpool_ok ?Q \<longrightarrow> lpool_ok Q2"
    by auto
  from assign_level_links [of l Q2 None None] dom Q2 obtain Q3 where Q3:
    "assign Q2 (Some l) (\<lambda>x. x\<lparr>level_prev := None, level_next := None\<rparr>) = Inr Q3" "ldata Q3 = ldata ?Q"
    "lnext Q3 = ((lnext ?Q)(p := Some s))(l := None)" "lprev Q3 = ((lprev ?Q)(s := Some p))(l := None)"
    "lpool_ok ?Q \<longrightarrow> lpool_ok Q3"
    by auto
  obtain x0 where x0: "deref ?Q (Some l) = Inr x0" "level_prev x0 = Some p" "level_next x0 = Some s"
    using deref_level [of ?Q l] dom(3) ps by auto
  obtain x1 where x1: "deref Q1 (Some l) = Inr x1" "level_prev x1 = Some p" "level_next x1 = Some s"
    using deref_level [of Q1 l] dom(3) ps Q1 by auto
  obtain x2 where x2: "deref Q2 (Some l) = Inr x2" "level_next x2 = Some s"
    using deref_level [of Q2 l] dom(3) ps Q2 by auto
  have run: "unlinkLevel b sd (Some l) =
      Inr (if ls = [] then setBestOrdersByPrice (b\<lparr>ordersAtPricePool := Q3\<rparr>) sd (Some s)
           else b\<lparr>ordersAtPricePool := Q3\<rparr>)"
    using best d ps(6) by (cases ls)
      (simp_all add: unlinkLevel_def rdL_def wrL_def x0 x1 x2 Q1(1) Q2(1) Q3(1) Let_def
        del: bind_res_eq_Inr deref_eq_Inr)
  have "unlinkLevel b sd (Some l) =
      Inr (setBestOrdersByPrice (b\<lparr>ordersAtPricePool := Q3\<rparr>) sd
        (if ls @ ms = [] then None else Some (hd (ls @ ms))))"
    using run best ps(7) ne by (cases ls) (simp_all add: setBest_same)
  moreover have "ring (lnext Q3) (lprev Q3) (ls @ ms)"
    by (rule ring_unlink [OF r d ne]) (use d in \<open>auto simp: Q3(3,4) ps(1,2)\<close>)
  moreover have "lnext Q3 j = lnext ?Q j \<and> lprev Q3 j = lprev ?Q j" if "j \<notin> set (ls @ l # ms)" for j
    using that ps Q3(3,4) by auto
  ultimately show thesis using that [where Q' = Q3] Q3(2,5) by blast
qed

text \<open>Where \<open>addPriceLevel\<close> puts a new level, with \<open>worse h\<close> saying that the new one is worse than \<open>h\<close>.\<close>

fun placeLevel :: "('a \<Rightarrow> bool) \<Rightarrow> 'a \<Rightarrow> 'a list \<Rightarrow> 'a list" where
  "placeLevel worse n [] = [n]"
| "placeLevel worse n (h # t) =
     (if \<not> worse h then n # h # t
      else if dropWhile worse t = [] then h # n # t
      else h # takeWhile worse t @ n # dropWhile worse t)"

lemma set_placeLevel [simp]: "set (placeLevel worse n xs) = insert n (set xs)"
proof (cases xs)
  case (Cons h t)
  have "set t = set (takeWhile worse t) \<union> set (dropWhile worse t)"
    by (metis set_append takeWhile_dropWhile_id)
  with Cons show ?thesis by auto
qed simp

lemma map_placeLevel: "map f (placeLevel (\<lambda>x. worse (f x)) n xs) = placeLevel worse (f n) (map f xs)"
proof (cases xs)
  case (Cons h t)
  have "map f (dropWhile (\<lambda>x. worse (f x)) t) = dropWhile worse (map f t)"
    "map f (takeWhile (\<lambda>x. worse (f x)) t) = takeWhile worse (map f t)"
    by (simp_all add: dropWhile_map takeWhile_map comp_def)
  moreover from this(1) have "(dropWhile (\<lambda>x. worse (f x)) t = []) = (dropWhile worse (map f t) = [])"
    by (metis Nil_is_map_conv)
  ultimately show ?thesis using Cons by simp
qed simp

lemma distinct_placeLevel:
  assumes "distinct xs" "n \<notin> set xs"
  shows "distinct (placeLevel worse n xs)"
proof (cases xs)
  case (Cons h t)
  have d: "distinct (takeWhile worse t @ dropWhile worse t)" using assms Cons by simp
  have s: "set t = set (takeWhile worse t) \<union> set (dropWhile worse t)"
    by (metis set_append takeWhile_dropWhile_id)
  show ?thesis using assms(1,2) d unfolding Cons
    by (auto simp: s simp del: takeWhile_dropWhile_id)
qed simp

lemma findTarget_ring:
  assumes "path (lnext (ordersAtPricePool b)) (lprev (ordersAtPricePool b)) cur qs h"
    and "set (cur # qs) \<subseteq> dom (ldata (ordersAtPricePool b))" "ldata (ordersAtPricePool b) h = Some H"
    and "h \<notin> set qs" "length qs < rounds" "shouldAddAfter n H"
  shows "findTarget rounds b n (Some h) (Some cur) =
     Inr (case dropWhile (\<lambda>z. shouldAddAfter n (the (ldata (ordersAtPricePool b) z))) qs of
            [] \<Rightarrow> (Some h, True) | z # _ \<Rightarrow> (Some z, False))"
  using assms
proof (induction qs arbitrary: cur rounds)
  case Nil
  let ?Q = "ordersAtPricePool b"
  obtain x where x: "deref ?Q (Some cur) = Inr x" "level_next x = Some h"
    using deref_level [of ?Q cur] Nil.prems(1,2) by auto
  obtain y where y: "deref ?Q (Some h) = Inr y" "lstrip y = H"
    using deref_level [OF Nil.prems(3)] by auto
  have "shouldAddAfter n y" using Nil.prems(6) y(2) by (auto simp: shouldAddAfter_def)
  with Nil.prems(5) x y(1) show ?case by (subst findTarget.simps) (simp add: rdL_def del: deref_eq_Inr)
next
  case (Cons z zs)
  let ?Q = "ordersAtPricePool b"
  obtain x where x: "deref ?Q (Some cur) = Inr x" "level_next x = Some z"
    using deref_level [of ?Q cur] Cons.prems(1,2) by auto
  obtain y where y: "deref ?Q (Some z) = Inr y" "ldata ?Q z = Some (lstrip y)"
    using deref_level [of ?Q z] Cons.prems(2) by auto
  have w: "shouldAddAfter n y = shouldAddAfter n (the (ldata ?Q z))"
    using y(2) by (auto simp: shouldAddAfter_def)
  have "findTarget rounds b n (Some h) (Some cur) =
      (if shouldAddAfter n y then findTarget (rounds - 1) b n (Some h) (Some z) else Inr (Some z, False))"
    using Cons.prems(4,5) x y(1) by (subst findTarget.simps) (auto simp: rdL_def simp del: deref_eq_Inr)
  with Cons.IH [of z "rounds - 1"] Cons.prems w show ?case by auto
qed

lemma insertAfter_spec:
  assumes t: "lnext (ordersAtPricePool b) t = Some s"
    and dm: "n \<in> dom (ldata (ordersAtPricePool b))" "t \<in> dom (ldata (ordersAtPricePool b))"
      "s \<in> dom (ldata (ordersAtPricePool b))"
    and ne: "n \<noteq> t" "n \<noteq> s"
  obtains Q' where "insertAfter b (Some n) (Some t) = Inr (b\<lparr>ordersAtPricePool := Q'\<rparr>)"
    "ldata Q' = ldata (ordersAtPricePool b)"
    "lnext Q' = ((lnext (ordersAtPricePool b))(t := Some n))(n := Some s)"
    "lprev Q' = ((lprev (ordersAtPricePool b))(s := Some n))(n := Some t)"
    "lpool_ok (ordersAtPricePool b) \<longrightarrow> lpool_ok Q'"
proof -
  let ?Q = "ordersAtPricePool b"
  from assign_level_prev [OF dm(1), of "Some t"] obtain Q1 where Q1:
    "assign ?Q (Some n) (\<lambda>x. x\<lparr>level_prev := Some t\<rparr>) = Inr Q1" "ldata Q1 = ldata ?Q"
    "lnext Q1 = lnext ?Q" "lprev Q1 = (lprev ?Q)(n := Some t)" "lpool_ok ?Q \<longrightarrow> lpool_ok Q1"
    by auto
  from assign_level_next [of n Q1 "Some s"] dm Q1 obtain Q2 where Q2:
    "assign Q1 (Some n) (\<lambda>x. x\<lparr>level_next := Some s\<rparr>) = Inr Q2" "ldata Q2 = ldata ?Q"
    "lnext Q2 = (lnext ?Q)(n := Some s)" "lprev Q2 = (lprev ?Q)(n := Some t)" "lpool_ok ?Q \<longrightarrow> lpool_ok Q2"
    by auto
  from assign_level_prev [of s Q2 "Some n"] dm Q2 obtain Q3 where Q3:
    "assign Q2 (Some s) (\<lambda>x. x\<lparr>level_prev := Some n\<rparr>) = Inr Q3" "ldata Q3 = ldata ?Q"
    "lnext Q3 = (lnext ?Q)(n := Some s)" "lprev Q3 = ((lprev ?Q)(n := Some t))(s := Some n)"
    "lpool_ok ?Q \<longrightarrow> lpool_ok Q3"
    by auto
  from assign_level_next [of t Q3 "Some n"] dm Q3 obtain Q4 where Q4:
    "assign Q3 (Some t) (\<lambda>x. x\<lparr>level_next := Some n\<rparr>) = Inr Q4" "ldata Q4 = ldata ?Q"
    "lnext Q4 = ((lnext ?Q)(n := Some s))(t := Some n)" "lprev Q4 = ((lprev ?Q)(n := Some t))(s := Some n)"
    "lpool_ok ?Q \<longrightarrow> lpool_ok Q4"
    by auto
  obtain x1 where x1: "deref Q1 (Some t) = Inr x1" "level_next x1 = Some s"
    using deref_level [of Q1 t] dm(2) t Q1 by auto
  obtain x2 where x2: "deref Q2 (Some t) = Inr x2" "level_next x2 = Some s"
    using deref_level [of Q2 t] dm(2) t Q2 ne by auto
  have "insertAfter b (Some n) (Some t) = Inr (b\<lparr>ordersAtPricePool := Q4\<rparr>)"
    by (simp add: insertAfter_def rdL_def wrL_def x1 x2 Q1(1) Q2(1) Q3(1) Q4(1)
        del: bind_res_eq_Inr deref_eq_Inr)
  then show thesis using that [of Q4] Q4(2-5) ne by (simp add: fun_upd_twist)
qed

lemma insertBefore_spec:
  assumes t: "lprev (ordersAtPricePool b) t = Some p"
    and dm: "n \<in> dom (ldata (ordersAtPricePool b))" "t \<in> dom (ldata (ordersAtPricePool b))"
      "p \<in> dom (ldata (ordersAtPricePool b))"
    and ne: "n \<noteq> t" "n \<noteq> p"
  obtains Q' where "insertBefore b (Some n) (Some t) = Inr (b\<lparr>ordersAtPricePool := Q'\<rparr>)"
    "ldata Q' = ldata (ordersAtPricePool b)"
    "lnext Q' = ((lnext (ordersAtPricePool b))(p := Some n))(n := Some t)"
    "lprev Q' = ((lprev (ordersAtPricePool b))(t := Some n))(n := Some p)"
    "lpool_ok (ordersAtPricePool b) \<longrightarrow> lpool_ok Q'"
proof -
  let ?Q = "ordersAtPricePool b"
  from assign_level_next [OF dm(1), of "Some t"] obtain Q1 where Q1:
    "assign ?Q (Some n) (\<lambda>x. x\<lparr>level_next := Some t\<rparr>) = Inr Q1" "ldata Q1 = ldata ?Q"
    "lprev Q1 = lprev ?Q" "lnext Q1 = (lnext ?Q)(n := Some t)" "lpool_ok ?Q \<longrightarrow> lpool_ok Q1"
    by auto
  from assign_level_prev [of n Q1 "Some p"] dm Q1 obtain Q2 where Q2:
    "assign Q1 (Some n) (\<lambda>x. x\<lparr>level_prev := Some p\<rparr>) = Inr Q2" "ldata Q2 = ldata ?Q"
    "lprev Q2 = (lprev ?Q)(n := Some p)" "lnext Q2 = (lnext ?Q)(n := Some t)" "lpool_ok ?Q \<longrightarrow> lpool_ok Q2"
    by auto
  from assign_level_next [of p Q2 "Some n"] dm Q2 obtain Q3 where Q3:
    "assign Q2 (Some p) (\<lambda>x. x\<lparr>level_next := Some n\<rparr>) = Inr Q3" "ldata Q3 = ldata ?Q"
    "lprev Q3 = (lprev ?Q)(n := Some p)" "lnext Q3 = ((lnext ?Q)(n := Some t))(p := Some n)"
    "lpool_ok ?Q \<longrightarrow> lpool_ok Q3"
    by auto
  from assign_level_prev [of t Q3 "Some n"] dm Q3 obtain Q4 where Q4:
    "assign Q3 (Some t) (\<lambda>x. x\<lparr>level_prev := Some n\<rparr>) = Inr Q4" "ldata Q4 = ldata ?Q"
    "lprev Q4 = ((lprev ?Q)(n := Some p))(t := Some n)" "lnext Q4 = ((lnext ?Q)(n := Some t))(p := Some n)"
    "lpool_ok ?Q \<longrightarrow> lpool_ok Q4"
    by auto
  obtain x1 where x1: "deref Q1 (Some t) = Inr x1" "level_prev x1 = Some p"
    using deref_level [of Q1 t] dm(2) t Q1 by auto
  obtain x2 where x2: "deref Q2 (Some t) = Inr x2" "level_prev x2 = Some p"
    using deref_level [of Q2 t] dm(2) t Q2 ne by auto
  have "insertBefore b (Some n) (Some t) = Inr (b\<lparr>ordersAtPricePool := Q4\<rparr>)"
    by (simp add: insertBefore_def rdL_def wrL_def x1 x2 Q1(1) Q2(1) Q3(1) Q4(1)
        del: bind_res_eq_Inr deref_eq_Inr)
  then show thesis using that [of Q4] Q4(2-5) ne by (simp add: fun_upd_twist)
qed

text \<open>The two insertions on a ring: after a node, and before a node that the ring is rotated to.\<close>

lemma insertAfter_ring:
  assumes r: "ring (lnext (ordersAtPricePool b)) (lprev (ordersAtPricePool b)) (us @ t # vs)"
    and d: "distinct (us @ t # vs)" and n: "n \<notin> set (us @ t # vs)"
    and dm: "insert n (set (us @ t # vs)) \<subseteq> dom (ldata (ordersAtPricePool b))"
  obtains Q' where "insertAfter b (Some n) (Some t) = Inr (b\<lparr>ordersAtPricePool := Q'\<rparr>)"
    "ldata Q' = ldata (ordersAtPricePool b)" "ring (lnext Q') (lprev Q') (us @ t # n # vs)"
    "\<forall>j. j \<notin> insert n (set (us @ t # vs)) \<longrightarrow>
       lnext Q' j = lnext (ordersAtPricePool b) j \<and> lprev Q' j = lprev (ordersAtPricePool b) j"
    "lpool_ok (ordersAtPricePool b) \<longrightarrow> lpool_ok Q'"
proof -
  let ?Q = "ordersAtPricePool b"
  obtain s where s: "lnext ?Q t = Some s" "s \<in> set (us @ t # vs)"
  proof (cases "us @ vs = []")
    case True
    with r that [of t] show thesis by simp
  next
    case False
    with ring_neighbours [OF r d] that show thesis by force
  qed
  obtain Q' where Q': "insertAfter b (Some n) (Some t) = Inr (b\<lparr>ordersAtPricePool := Q'\<rparr>)"
    "ldata Q' = ldata ?Q" "lnext Q' = ((lnext ?Q)(t := Some n))(n := Some s)"
    "lprev Q' = ((lprev ?Q)(s := Some n))(n := Some t)" "lpool_ok ?Q \<longrightarrow> lpool_ok Q'"
    by (rule insertAfter_spec [where b = b and n = n and t = t and s = s]) (use s n dm in auto)
  have "ring (lnext Q') (lprev Q') (us @ t # n # vs)"
    by (rule ring_link_after_mid [OF r d n]) (simp_all add: Q' s)
  moreover have "lnext Q' j = lnext ?Q j \<and> lprev Q' j = lprev ?Q j" if "j \<notin> insert n (set (us @ t # vs))" for j
    using that s Q'(3,4) by auto
  ultimately show thesis using that [of Q'] Q' by blast
qed

lemma insertBefore_ring:
  assumes r: "ring (lnext (ordersAtPricePool b)) (lprev (ordersAtPricePool b)) (us @ t # vs)"
    and d: "distinct (us @ t # vs)" and n: "n \<notin> set (us @ t # vs)"
    and dm: "insert n (set (us @ t # vs)) \<subseteq> dom (ldata (ordersAtPricePool b))"
  obtains Q' where "insertBefore b (Some n) (Some t) = Inr (b\<lparr>ordersAtPricePool := Q'\<rparr>)"
    "ldata Q' = ldata (ordersAtPricePool b)" "ring (lnext Q') (lprev Q') (us @ n # t # vs)"
    "\<forall>j. j \<notin> insert n (set (us @ t # vs)) \<longrightarrow>
       lnext Q' j = lnext (ordersAtPricePool b) j \<and> lprev Q' j = lprev (ordersAtPricePool b) j"
    "lpool_ok (ordersAtPricePool b) \<longrightarrow> lpool_ok Q'"
proof -
  let ?Q = "ordersAtPricePool b"
  have r': "ring (lnext ?Q) (lprev ?Q) (t # vs @ us)" using r ring_rotate [of _ _ us "t # vs"] by simp
  obtain zs p where zs: "t # vs @ us = zs @ [p]" by (metis rev_exhaust list.distinct(1))
  have set_zs: "set (zs @ [p]) = set (us @ t # vs)" unfolding zs [symmetric] by auto
  have "distinct (t # vs @ us)" using d by auto
  then have dz: "distinct (zs @ [p])" by (simp add: zs)
  have p: "lprev ?Q t = Some p" "lnext ?Q p = Some t"
    using ring_last [OF r'] zs by (metis last_snoc)+
  have pin: "p \<in> set (us @ t # vs)" using set_zs by auto
  obtain Q' where Q': "insertBefore b (Some n) (Some t) = Inr (b\<lparr>ordersAtPricePool := Q'\<rparr>)"
    "ldata Q' = ldata ?Q" "lnext Q' = ((lnext ?Q)(p := Some n))(n := Some t)"
    "lprev Q' = ((lprev ?Q)(t := Some n))(n := Some p)" "lpool_ok ?Q \<longrightarrow> lpool_ok Q'"
    by (rule insertBefore_spec [where b = b and n = n and t = t and p = p]) (use p pin n dm in auto)
  have "ring (lnext Q') (lprev Q') (zs @ p # n # [])"
  proof (rule ring_link_after_mid)
    show "ring (lnext ?Q) (lprev ?Q) (zs @ [p])" using r' zs by simp
    show "distinct (zs @ [p])" by fact
    show "n \<notin> set (zs @ [p])" using n set_zs by simp
  qed (simp_all add: Q' p)
  moreover have "zs @ p # n # [] = (t # vs) @ us @ [n]" using arg_cong [OF zs, of "\<lambda>xs. xs @ [n]"] by simp
  ultimately have "ring (lnext Q') (lprev Q') ((t # vs) @ us @ [n])" by simp
  then have "ring (lnext Q') (lprev Q') (us @ n # t # vs)" using ring_rotate [of _ _ "t # vs" "us @ [n]"] by simp
  moreover have "lnext Q' j = lnext ?Q j \<and> lprev Q' j = lprev ?Q j" if "j \<notin> insert n (set (us @ t # vs))" for j
    using that pin Q'(3,4) by auto
  ultimately show thesis using that [of Q'] Q' by blast
qed

lemma shouldAddAfter_strip [simp]:
  "shouldAddAfter (lstrip n) t = shouldAddAfter n t" "shouldAddAfter n (lstrip t) = shouldAddAfter n t"
  by (simp_all add: shouldAddAfter_def)

text \<open>The levels of a side as \<open>addPriceLevel\<close> compares them with a new one.\<close>

definition worseThan :: "OrdersAtPrice MemoryPool \<Rightarrow> nat \<Rightarrow> nat \<Rightarrow> bool" where
  "worseThan Q n l = shouldAddAfter (the (ldata Q n)) (the (ldata Q l))"

lemma not_worse_is_better:
  assumes "\<not> shouldAddAfter N H" "level_price H \<noteq> level_price N" "level_side N = sd" "sd \<in> sides"
  shows "sd = BUY \<and> sint (level_price N) > sint (level_price H) \<or>
         sd = SELL \<and> sint (level_price N) < sint (level_price H)"
proof -
  have "sint (level_price N) \<noteq> sint (level_price H)" using assms(2) by (metis word_eq_iff_signed)
  with assms show ?thesis by (auto simp: shouldAddAfter_def)
qed

text \<open>A level \<open>n\<close> that can be entered on its side: its data are there, it is not linked yet, the
  side is the ring of the levels \<open>ls\<close> with the best one first, and none of them has its price.\<close>

definition enterable :: "OrderBook \<Rightarrow> nat \<Rightarrow> OrdersAtPrice \<Rightarrow> nat list \<Rightarrow> bool" where
  "enterable b n N ls \<longleftrightarrow>
     ldata (ordersAtPricePool b) n = Some N \<and> level_side N \<in> sides \<and>
     ring (lnext (ordersAtPricePool b)) (lprev (ordersAtPricePool b)) ls \<and> distinct ls \<and> n \<notin> set ls \<and>
     set ls \<subseteq> dom (ldata (ordersAtPricePool b)) \<and>
     bestOrdersByPrice b (level_side N) = (if ls = [] then None else Some (hd ls)) \<and>
     length ls \<le> MAX_PRICE_LEVELS \<and> vsize (mapPriceToPriceLevel b) = MAX_PRICE_LEVELS \<and>
     (\<forall>l\<in>set ls. \<forall>L. ldata (ordersAtPricePool b) l = Some L \<longrightarrow> level_price L \<noteq> level_price N)"

text \<open>What entering it does: the slot of its price and the best level of the side are set, the side
  becomes the ring \<open>place\<close>, and no other link changes.\<close>

definition withSlot :: "OrderBook \<Rightarrow> OrdersAtPrice \<Rightarrow> nat \<Rightarrow> OrderBook" where
  "withSlot b N n = b\<lparr>mapPriceToPriceLevel :=
     (mapPriceToPriceLevel b)\<lparr>velem := (velem (mapPriceToPriceLevel b))(priceToIndex (level_price N) := Some n)\<rparr>\<rparr>"

definition relinked :: "OrdersAtPrice MemoryPool \<Rightarrow> nat \<Rightarrow> nat list \<Rightarrow> nat list \<Rightarrow> OrdersAtPrice MemoryPool \<Rightarrow> bool" where
  "relinked Q n ls place Q' \<longleftrightarrow>
     ldata Q' = ldata Q \<and> ring (lnext Q') (lprev Q') place \<and>
     (\<forall>j. j \<notin> insert n (set ls) \<longrightarrow> lnext Q' j = lnext Q j \<and> lprev Q' j = lprev Q j) \<and>
     (lpool_ok Q \<longrightarrow> lpool_ok Q')"

definition entered :: "OrderBook \<Rightarrow> nat \<Rightarrow> OrdersAtPrice \<Rightarrow> nat list \<Rightarrow> nat list \<Rightarrow> bool" where
  "entered b n N ls place \<longleftrightarrow> (\<exists>Q'. relinked (ordersAtPricePool b) n ls place Q' \<and>
     addPriceLevel b (Some n) =
       Inr (setBestOrdersByPrice ((withSlot b N n)\<lparr>ordersAtPricePool := Q'\<rparr>) (level_side N) (Some (hd place))))"

lemma withSlot_simps [simp]:
  "ordersAtPricePool (withSlot b N n) = ordersAtPricePool b" "bestOrdersByPrice (withSlot b N n) = bestOrdersByPrice b"
  by (auto simp: withSlot_def bestOrdersByPrice_def fun_eq_iff)

lemma enterable_slot:
  "enterable b n N ls \<Longrightarrow> setLevelForPrice b (level_price N) (Some n) = Inr (withSlot b N n)"
  by (simp add: setLevelForPrice_def enterable_def withSlot_def)

lemma insertBefore_relinks:
  assumes e: "enterable b n N (us @ t # vs)"
  obtains Q' where "insertBefore (withSlot b N n) (Some n) (Some t) = Inr ((withSlot b N n)\<lparr>ordersAtPricePool := Q'\<rparr>)"
    "relinked (ordersAtPricePool b) n (us @ t # vs) (us @ n # t # vs) Q'"
proof (rule insertBefore_ring [of "withSlot b N n" us t vs n])
  show "insert n (set (us @ t # vs)) \<subseteq> dom (ldata (ordersAtPricePool (withSlot b N n)))"
    using e by (auto simp: enterable_def)
qed (use e that in \<open>auto simp: enterable_def relinked_def\<close>)

lemma insertAfter_relinks:
  assumes e: "enterable b n N (us @ t # vs)"
  obtains Q' where "insertAfter (withSlot b N n) (Some n) (Some t) = Inr ((withSlot b N n)\<lparr>ordersAtPricePool := Q'\<rparr>)"
    "relinked (ordersAtPricePool b) n (us @ t # vs) (us @ t # n # vs) Q'"
proof (rule insertAfter_ring [of "withSlot b N n" us t vs n])
  show "insert n (set (us @ t # vs)) \<subseteq> dom (ldata (ordersAtPricePool (withSlot b N n)))"
    using e by (auto simp: enterable_def)
qed (use e that in \<open>auto simp: enterable_def relinked_def\<close>)

lemma enter_empty_side:
  assumes e: "enterable b n N []"
  shows "entered b n N [] [n]"
proof -
  let ?Q = "ordersAtPricePool b"
  have N: "ldata ?Q n = Some N" using e by (simp add: enterable_def)
  obtain x where x: "deref ?Q (Some n) = Inr x" "lstrip x = N" using deref_level [OF N] by auto
  then have x_N: "level_side x = level_side N" "level_price x = level_price N" by auto
  from assign_level_links [of n ?Q "Some n" "Some n"] N obtain Q' where Q':
    "assign ?Q (Some n) (\<lambda>x. x\<lparr>level_prev := Some n, level_next := Some n\<rparr>) = Inr Q'" "ldata Q' = ldata ?Q"
    "lnext Q' = (lnext ?Q)(n := Some n)" "lprev Q' = (lprev ?Q)(n := Some n)" "lpool_ok ?Q \<longrightarrow> lpool_ok Q'"
    by auto
  have "addPriceLevel b (Some n) =
      Inr (setBestOrdersByPrice ((withSlot b N n)\<lparr>ordersAtPricePool := Q'\<rparr>) (level_side N) (Some n))"
    using e by (simp add: enterable_def addPriceLevel_def rdL_def wrL_def x(1) x_N enterable_slot [OF e] Let_def Q'(1)
        del: deref_eq_Inr bind_res_eq_Inr)
  then show ?thesis using Q'(2-5) by (auto simp: entered_def relinked_def)
qed

text \<open>On a side with levels the code looks for the place first, then compares with the best level.\<close>

definition linkLevel :: "OrderBook \<Rightarrow> nat \<Rightarrow> OrdersAtPrice \<Rightarrow> nat \<Rightarrow> ptr \<times> bool \<Rightarrow> OrderBook res" where
  "linkLevel b n N h = (\<lambda>(target, after).
     if after then insertAfter b (Some n) target
     else
       bind_res (insertBefore b (Some n) target) (\<lambda>b.
       bind_res (rdL b (Some h)) (\<lambda>bl.
         if level_side N = BUY \<and> sint (level_price N) > sint (level_price bl) \<or>
            level_side N = SELL \<and> sint (level_price N) < sint (level_price bl)
         then Inr (setBestOrdersByPrice b (level_side N) (Some n))
         else Inr b)))"

lemma addPriceLevel_run:
  assumes e: "enterable b n N (h # t)" and H: "ldata (ordersAtPricePool b) h = Some H"
  shows "addPriceLevel b (Some n) = linkLevel (withSlot b N n) n N h
    (if shouldAddAfter N H
     then case dropWhile (worseThan (ordersAtPricePool b) n) t of [] \<Rightarrow> (Some h, True) | z # _ \<Rightarrow> (Some z, False)
     else (Some h, False))"
proof -
  let ?Q = "ordersAtPricePool b" and ?b = "withSlot b N n"
  have N: "ldata ?Q n = Some N" using e by (simp add: enterable_def)
  obtain x where x: "deref ?Q (Some n) = Inr x" "lstrip x = N" using deref_level [OF N] by auto
  then have x_N: "level_side x = level_side N" "level_price x = level_price N"
    "\<And>t. shouldAddAfter x t = shouldAddAfter N t" by (auto simp: shouldAddAfter_def)
  obtain y where y: "deref ?Q (Some h) = Inr y" "lstrip y = H" using deref_level [OF H] by auto
  then have y_H: "shouldAddAfter N y = shouldAddAfter N H" by (auto simp: shouldAddAfter_def)
  have w: "worseThan ?Q n = (\<lambda>z. shouldAddAfter N (the (ldata ?Q z)))"
    using N by (simp add: fun_eq_iff worseThan_def)
  have target: "findTarget MAX_PRICE_LEVELS ?b x (Some h) (Some h) =
      Inr (case dropWhile (worseThan ?Q n) t of [] \<Rightarrow> (Some h, True) | z # _ \<Rightarrow> (Some z, False))"
    if "shouldAddAfter N H"
    using findTarget_ring [of ?b h t h H MAX_PRICE_LEVELS x] e H that by (simp add: enterable_def x_N w)
  show ?thesis
    using e target by (simp add: enterable_def addPriceLevel_def linkLevel_def rdL_def x(1) x_N enterable_slot [OF e] Let_def
        y(1) y_H del: deref_eq_Inr bind_res_eq_Inr cong del: if_weak_cong)
qed

text \<open>The last comparison: the new level is the best one exactly when it was put before the best one.\<close>

lemma link_before:
  assumes e: "enterable b n N (h # t)" and H: "ldata (ordersAtPricePool b) h = Some H" and t: "h # t = us @ z # zs"
  shows "\<exists>Q'. relinked (ordersAtPricePool b) n (h # t) (us @ n # z # zs) Q' \<and>
    linkLevel (withSlot b N n) n N h (Some z, False) =
      Inr (setBestOrdersByPrice ((withSlot b N n)\<lparr>ordersAtPricePool := Q'\<rparr>) (level_side N)
        (Some (if shouldAddAfter N H then h else n)))"
proof -
  obtain Q' where Q': "insertBefore (withSlot b N n) (Some n) (Some z) = Inr ((withSlot b N n)\<lparr>ordersAtPricePool := Q'\<rparr>)"
    "relinked (ordersAtPricePool b) n (h # t) (us @ n # z # zs) Q'"
    using insertBefore_relinks [OF e [unfolded t]] t by auto
  obtain y where y: "deref Q' (Some h) = Inr y" "lstrip y = H"
    using deref_level [of Q' h H] H Q'(2) by (auto simp: relinked_def)
  have better: "level_side N = BUY \<and> sint (level_price N) > sint (level_price y) \<or>
      level_side N = SELL \<and> sint (level_price N) < sint (level_price y) \<longleftrightarrow> \<not> shouldAddAfter N H"
    using not_worse_is_better [of N H "level_side N"] e H y(2) by (auto simp: enterable_def shouldAddAfter_def)
  have same: "setBestOrdersByPrice ((withSlot b N n)\<lparr>ordersAtPricePool := Q'\<rparr>) (level_side N) (Some h) =
      (withSlot b N n)\<lparr>ordersAtPricePool := Q'\<rparr>"
    using e by (intro setBest_same) (auto simp: enterable_def)
  have "linkLevel (withSlot b N n) n N h (Some z, False) =
      Inr (setBestOrdersByPrice ((withSlot b N n)\<lparr>ordersAtPricePool := Q'\<rparr>) (level_side N)
        (Some (if shouldAddAfter N H then h else n)))"
    using better same by (simp add: linkLevel_def Q'(1) rdL_def y(1) del: deref_eq_Inr bind_res_eq_Inr)
  with Q'(2) show ?thesis by blast
qed

lemma link_last:
  assumes e: "enterable b n N (h # t)"
  shows "\<exists>Q'. relinked (ordersAtPricePool b) n (h # t) (h # n # t) Q' \<and>
    linkLevel (withSlot b N n) n N h (Some h, True) =
      Inr (setBestOrdersByPrice ((withSlot b N n)\<lparr>ordersAtPricePool := Q'\<rparr>) (level_side N) (Some h))"
proof -
  obtain Q' where Q': "insertAfter (withSlot b N n) (Some n) (Some h) = Inr ((withSlot b N n)\<lparr>ordersAtPricePool := Q'\<rparr>)"
    "relinked (ordersAtPricePool b) n (h # t) (h # n # t) Q'"
    using insertAfter_relinks [of b n N "[]" h t] e by auto
  moreover have "setBestOrdersByPrice ((withSlot b N n)\<lparr>ordersAtPricePool := Q'\<rparr>) (level_side N) (Some h) =
      (withSlot b N n)\<lparr>ordersAtPricePool := Q'\<rparr>"
    using e by (intro setBest_same) (auto simp: enterable_def)
  ultimately show ?thesis by (auto simp: linkLevel_def)
qed

lemma addPriceLevel_spec:
  assumes e: "enterable b n N ls"
  shows "entered b n N ls (placeLevel (worseThan (ordersAtPricePool b) n) n ls)"
proof (cases ls)
  case Nil
  then show ?thesis using enter_empty_side e by simp
next
  case (Cons h t)
  let ?Q = "ordersAtPricePool b"
  obtain H where H: "ldata ?Q h = Some H" using e Cons by (auto simp: enterable_def)
  have wh: "worseThan ?Q n h = shouldAddAfter N H" using e H by (simp add: enterable_def worseThan_def)
  note e = e [unfolded Cons] and run = addPriceLevel_run [OF e [unfolded Cons] H]
  have split: "h # t = (h # takeWhile (worseThan ?Q n) t) @ z # zs" if "dropWhile (worseThan ?Q n) t = z # zs" for z zs
    using that by (metis append_Cons takeWhile_dropWhile_id)
  show ?thesis
  proof (cases "shouldAddAfter N H")
    case False
    with link_before [OF e H, of "[]" h t] wh show ?thesis by (auto simp: entered_def run Cons)
  next
    case worse: True
    show ?thesis
    proof (cases "dropWhile (worseThan ?Q n) t")
      case Nil
      with link_last [OF e] worse wh run show ?thesis by (auto simp: entered_def Cons simp del: dropWhile_eq_Nil_conv)
    next
      case (Cons z zs)
      with link_before [OF e H split [OF Cons]] worse wh show ?thesis by (auto simp: entered_def run \<open>ls = h # t\<close>)
    qed
  qed
qed

end
