(* ===== verification/Book_Remove.thy ===== *)
theory Book_Remove
  imports Book_Ops
begin

text \<open>
  Removing an order keeps the representation invariant. The order leaves the layout, together
  with its level if it was the only one there; its block, its level's block and the entries of
  the two lookup arrays are released, and nothing else of the book changes.
\<close>

section \<open>Changing one side\<close>

abbreviation lvls :: "OrderBook \<Rightarrow> OrdersAtPrice MemoryPool" where "lvls \<equiv> ordersAtPricePool"
abbreviation ords :: "OrderBook \<Rightarrow> Order MemoryPool" where "ords \<equiv> orderPool"

definition members :: "(nat \<times> nat list) list \<Rightarrow> nat set" where
  "members A = (\<Union>e\<in>set A. set (snd e))"

lemma members_simps [simp]:
  "members [] = {}" "members (e # A) = set (snd e) \<union> members A" "members (A @ B) = members A \<union> members B"
  by (auto simp: members_def)

lemma book_ok_side:
  assumes ok: "book_ok b Lv" and sd: "sd \<in> sides"
    and new: "side_ok (ords b') (lvls b') (bestOrdersByPrice b' sd) sd A"
    and best: "\<And>sd'. sd' \<in> sides \<Longrightarrow> sd' \<noteq> sd \<Longrightarrow> bestOrdersByPrice b' sd' = bestOrdersByPrice b sd'"
    and lv: "\<And>l. l \<in> dom (ldata (lvls b)) \<Longrightarrow> l \<notin> fst ` set (Lv sd) \<Longrightarrow> ldata (lvls b') l = ldata (lvls b) l \<and>
      lnext (lvls b') l = lnext (lvls b) l \<and> lprev (lvls b') l = lprev (lvls b) l"
    and od: "\<And>i. i \<in> dom (odata (ords b)) \<Longrightarrow> i \<notin> members (Lv sd) \<Longrightarrow> odata (ords b') i = odata (ords b) i \<and>
      onext (ords b') i = onext (ords b) i \<and> oprev (ords b') i = oprev (ords b) i"
    and doml: "dom (ldata (lvls b')) = (dom (ldata (lvls b)) - fst ` set (Lv sd)) \<union> fst ` set A"
    and domo: "dom (odata (ords b')) = (dom (odata (ords b)) - members (Lv sd)) \<union> members A"
    and maps: "slots_ok (mapPriceToPriceLevel b') (ldata (lvls b'))" "clients_ok (mapClientIdToOrder b') (odata (ords b'))"
    and pools: "opool_ok (ords b')" "lpool_ok (lvls b')"
  shows "book_ok b' (Lv(sd := A))"
proof -
  obtain sd' where sd': "sides = {sd, sd'}" "sd' \<in> sides" "sd' \<noteq> sd"
    using sd by auto
  have lsep: "fst ` set (Lv sd) \<inter> fst ` set (Lv sd') = {}"
  proof -
    have False if "e \<in> set (Lv sd)" "e' \<in> set (Lv sd')" "fst e = fst e'" for e e'
      using level_unique [OF ok sd sd'(2) that] sd'(3) by simp
    then show ?thesis by auto
  qed
  have osep: "members (Lv sd) \<inter> members (Lv sd') = {}"
  proof -
    have False if "e \<in> set (Lv sd)" "e' \<in> set (Lv sd')" "i \<in> set (snd e)" "i \<in> set (snd e')" for e e' i
      using layout_unique [OF ok sd sd'(2) that] sd'(3) by simp
    then show ?thesis unfolding members_def by blast
  qed
  have dl: "dom (ldata (lvls b)) = fst ` set (Lv sd) \<union> fst ` set (Lv sd')"
    using book_okD(6) [OF ok] unfolding sd'(1) by auto
  have dord: "dom (odata (ords b)) = members (Lv sd) \<union> members (Lv sd')"
    using book_okD(7) [OF ok] unfolding sd'(1) members_def by auto
  have side: "side_ok (ords b) (lvls b) (bestOrdersByPrice b sd') sd' (Lv sd')" by (rule book_okD(1) [OF ok sd'(2)])
  have l_same: "ldata (lvls b') l = ldata (lvls b) l \<and> lnext (lvls b') l = lnext (lvls b) l \<and> lprev (lvls b') l = lprev (lvls b) l"
    if "l \<in> fst ` set (Lv sd')" for l using lv [of l] that lsep dl by blast
  have o_same: "odata (ords b') i = odata (ords b) i \<and> onext (ords b') i = onext (ords b) i \<and> oprev (ords b') i = oprev (ords b) i"
    if "i \<in> members (Lv sd')" for i using od [of i] that osep dord by blast
  have "level_ok (ords b') (lvls b') sd' e" if "e \<in> set (Lv sd')" for e
  proof -
    have "level_ok (ords b) (lvls b) sd' e" using side that by (simp add: side_ok_def)
    moreover have "level_ok (ords b') (lvls b') sd' e \<longleftrightarrow> level_ok (ords b) (lvls b) sd' e"
      using l_same [of "fst e"] o_same that by (intro level_ok_cong) (auto simp: members_def)
    ultimately show ?thesis by simp
  qed
  moreover have "ring (lnext (lvls b')) (lprev (lvls b')) (map fst (Lv sd'))"
    using side l_same by (subst ring_cong [of _ _ "lnext (lvls b)" _ "lprev (lvls b)"]) (auto simp: side_ok_def)
  ultimately have "side_ok (ords b') (lvls b') (bestOrdersByPrice b' sd') sd' (Lv sd')"
    using side best [OF sd'(2,3)] by (simp add: side_ok_def)
  then have "\<forall>s\<in>sides. side_ok (ords b') (lvls b') (bestOrdersByPrice b' s) s ((Lv(sd := A)) s)"
    unfolding sd'(1) using new sd'(3) by simp
  moreover have "dom (ldata (lvls b')) = (\<Union>s\<in>sides. fst ` set ((Lv(sd := A)) s))"
    unfolding sd'(1) using doml dl lsep sd'(3) by auto
  moreover have "dom (odata (ords b')) = (\<Union>s\<in>sides. \<Union>e\<in>set ((Lv(sd := A)) s). set (snd e))"
    unfolding sd'(1) using domo dord osep sd'(3) by (auto simp: members_def)
  ultimately show ?thesis unfolding book_ok_def using maps pools by blast
qed

lemma book_ok_cong: "(\<And>sd. sd \<in> sides \<Longrightarrow> Lv sd = Lv' sd) \<Longrightarrow> book_ok b Lv \<longleftrightarrow> book_ok b Lv'"
  by (simp add: book_ok_def)

section \<open>Removing an order\<close>

lemma removePriceLevel_spec:
  assumes r: "ring (lnext (lvls b)) (lprev (lvls b)) (ls @ l # ms)"
    and d: "distinct (ls @ l # ms)" and dm: "set (ls @ l # ms) \<subseteq> dom (ldata (lvls b))"
    and best: "bestOrdersByPrice b sd = Some (hd (ls @ l # ms))"
    and slot: "slots_ok (mapPriceToPriceLevel b) (ldata (lvls b))" and L: "ldata (lvls b) l = Some L"
    and pool: "lpool_ok (lvls b)"
  obtains Q' where
    "removePriceLevel b sd (level_price L) = Inr (setBestOrdersByPrice (b\<lparr>mapPriceToPriceLevel := (mapPriceToPriceLevel b)\<lparr>velem :=
         (velem (mapPriceToPriceLevel b))(priceToIndex (level_price L) := None)\<rparr>, ordersAtPricePool := Q'\<rparr>) sd
       (if ls @ ms = [] then None else Some (hd (ls @ ms))))"
    "ldata Q' = (ldata (lvls b))(l := None)" "ring (lnext Q') (lprev Q') (ls @ ms)"
    "\<forall>j. j \<notin> set (ls @ l # ms) \<longrightarrow> lnext Q' j = lnext (lvls b) j \<and> lprev Q' j = lprev (lvls b) j"
    "lpool_ok Q'"
proof -
  obtain Q1 where Q1: "unlinkLevel b sd (Some l) = Inr (setBestOrdersByPrice (b\<lparr>ordersAtPricePool := Q1\<rparr>) sd
       (if ls @ ms = [] then None else Some (hd (ls @ ms))))"
    "ldata Q1 = ldata (lvls b)" "ring (lnext Q1) (lprev Q1) (ls @ ms)"
    "\<forall>j. j \<notin> set (ls @ l # ms) \<longrightarrow> lnext Q1 j = lnext (lvls b) j \<and> lprev Q1 j = lprev (lvls b) j"
    "lpool_ok (lvls b) \<longrightarrow> lpool_ok Q1"
    by (rule unlinkLevel_spec [OF r d dm best])
  obtain Q' where Q': "deallocate Q1 l = Inr Q'" "ldata Q' = (ldata (lvls b))(l := None)"
    "lnext Q' = (lnext Q1)(l := None)" "lprev Q' = (lprev Q1)(l := None)" "lpool_ok Q'"
    using deallocate_level [OF Q1(5) [rule_format, OF pool], of l] L Q1(2) by auto
  have "ring (lnext Q') (lprev Q') (ls @ ms)"
    using Q1(3) d Q'(3,4) by (subst ring_cong [of _ _ "lnext Q1" _ "lprev Q1"]) auto
  moreover have "lnext Q' j = lnext (lvls b) j \<and> lprev Q' j = lprev (lvls b) j" if "j \<notin> set (ls @ l # ms)" for j
    using that Q1(4) Q'(3,4) by auto
  moreover have "vsize (mapPriceToPriceLevel b) = MAX_PRICE_LEVELS" using slot by (simp add: slots_ok_def)
  ultimately show thesis using that [of Q'] Q'(1,2,5) Q1(1) book_slot [OF slot L]
    by (simp add: removePriceLevel_def setLevelForPrice_def del: bind_res_eq_Inr)
qed

text \<open>Where an order sits.\<close>

lemma locate_order:
  assumes ok: "book_ok b Lv" and i: "odata (ords b) i = Some x"
  obtains A l xs ys B L where "side x \<in> sides" "Lv (side x) = A @ (l, xs @ i # ys) # B"
    "ldata (lvls b) l = Some L" "level_price L = price x" "level_side L = side x"
    "getLevelForPrice b (price x) = Inr (Some l)"
proof -
  from book_okD(7) [OF ok] i obtain sd e where e: "sd \<in> sides" "e \<in> set (Lv sd)" "i \<in> set (snd e)"
    by (metis (no_types, lifting) UN_E domI)
  obtain l os where le: "e = (l, os)" by (cases e)
  from book_level_ok [OF ok e(1,2)] obtain L where L: "ldata (lvls b) l = Some L" "level_side L = sd"
    and data: "\<forall>i\<in>set os. \<exists>x. odata (ords b) i = Some x \<and> side x = sd \<and> price x = level_price L"
    unfolding le by (rule level_okE)
  then have x: "side x = sd" "price x = level_price L" using e(3) le i by auto
  obtain A B where "Lv sd = A @ e # B" using e(2) by (metis split_list)
  moreover obtain xs ys where "os = xs @ i # ys" using e(3) le by (metis snd_conv split_list)
  ultimately show thesis using that [of A l xs ys B L] e(1) le L x book_slot [OF book_okD(2) [OF ok] L(1)] by simp
qed

lemma book_side_facts:
  assumes ok: "book_ok b Lv" "sd \<in> sides"
  shows "distinct (map fst (Lv sd))" "ring (lnext (lvls b)) (lprev (lvls b)) (map fst (Lv sd))"
    "fst ` set (Lv sd) \<subseteq> dom (ldata (lvls b))" "members (Lv sd) \<subseteq> dom (odata (ords b))"
    "bestOrdersByPrice b sd = (if Lv sd = [] then None else Some (fst (hd (Lv sd))))"
proof -
  show "distinct (map fst (Lv sd))" "ring (lnext (lvls b)) (lprev (lvls b)) (map fst (Lv sd))"
    "bestOrdersByPrice b sd = (if Lv sd = [] then None else Some (fst (hd (Lv sd))))"
    using book_okD(1) [OF ok] unfolding side_ok_def by blast+
  show "fst ` set (Lv sd) \<subseteq> dom (ldata (lvls b))" "members (Lv sd) \<subseteq> dom (odata (ords b))"
    using book_okD(6,7) [OF ok(1)] ok(2) unfolding members_def by blast+
qed

text \<open>The levels of a side share neither their address nor an order.\<close>

lemma side_apart:
  assumes ok: "book_ok b Lv" and sd: "sd \<in> sides" and at: "Lv sd = A @ (l, os) # B" and e: "e \<in> set (A @ B)"
  shows "fst e \<noteq> l" "set (snd e) \<inter> set os = {}"
proof -
  show l: "fst e \<noteq> l" using book_side_facts(1) [OF ok sd] e at by auto
  have "e \<in> set (Lv sd)" "(l, os) \<in> set (Lv sd)" using e at by auto
  from layout_unique [OF ok sd sd this] show "set (snd e) \<inter> set os = {}" using l by fastforce
qed

lemma remove_prepared:
  assumes cm: "clients_ok (mapClientIdToOrder b1) (odata (ords b1))" and i: "odata (ords b1) i = Some x"
    and pool: "opool_ok (ords b1)"
  obtains P' cm' o3 where "rdO b1 (Some i) = Inr o3"
    "setClientOrder b1 (clientId o3) (clientOrderId o3) None = Inr (b1\<lparr>mapClientIdToOrder := cm'\<rparr>)"
    "deallocate (ords b1) i = Inr P'" "odata P' = (odata (ords b1))(i := None)"
    "onext P' = (onext (ords b1))(i := None)" "oprev P' = (oprev (ords b1))(i := None)" "opool_ok P'"
    "clients_ok cm' ((odata (ords b1))(i := None))"
proof -
  obtain o3 where o3: "deref (ords b1) (Some i) = Inr o3" "strip o3 = x" using deref_order [OF i] by auto
  have ids: "unat (clientId o3) < MAX_N_CLIENTS" "unat (clientOrderId o3) < MAX_ORDER_IDS"
    using cm i unfolding clients_ok_def o3(2) [symmetric] by (metis strip_simps(2,3))+
  obtain cm' where cm': "setClientOrder b1 (clientId o3) (clientOrderId o3) None = Inr (b1\<lparr>mapClientIdToOrder := cm'\<rparr>)"
    "vsize cm' = MAX_N_CLIENTS" "\<forall>c < MAX_N_CLIENTS. vsize (velem cm' c) = MAX_ORDER_IDS"
    "\<forall>c' k'. velem (velem cm' c') k' = (if c' = unat (clientId o3) \<and> k' = unat (clientOrderId o3) then None
       else velem (velem (mapClientIdToOrder b1) c') k')"
    using setClientOrder_ok [OF cm refl ids, of None] by auto
  obtain P' where P': "deallocate (ords b1) i = Inr P'" "odata P' = (odata (ords b1))(i := None)"
    "onext P' = (onext (ords b1))(i := None)" "oprev P' = (oprev (ords b1))(i := None)" "opool_ok P'"
    using deallocate_order [OF pool, of i] i by auto
  have "clients_ok cm' ((odata (ords b1))(i := None))"
    using clients_ok_remove [OF cm i cm'(2,3)] cm'(4) o3(2) by auto
  then show thesis using that o3(1) cm'(1) P' by (simp add: rdO_def del: deref_eq_Inr)
qed

definition withdraw :: "nat \<Rightarrow> (nat \<times> nat list) list \<Rightarrow> (nat \<times> nat list) list" where
  "withdraw i A = filter (\<lambda>e. snd e \<noteq> []) (map (\<lambda>(l, os). (l, filter (\<lambda>j. j \<noteq> i) os)) A)"

lemma withdraw_append [simp]: "withdraw i (A @ B) = withdraw i A @ withdraw i B"
  by (simp add: withdraw_def)

lemma withdraw_other: "(\<forall>e\<in>set A. snd e \<noteq> []) \<Longrightarrow> i \<notin> members A \<Longrightarrow> withdraw i A = A"
proof (induction A)
  case (Cons e A)
  then have "filter (\<lambda>j. j \<noteq> i) (snd e) = snd e" by (auto simp: filter_id_conv)
  with Cons show ?case by (auto simp: withdraw_def split: prod.splits)
qed (simp add: withdraw_def)

lemma withdraw_at:
  assumes "distinct (xs @ i # ys)" "i \<notin> members A" "i \<notin> members B" "\<forall>e\<in>set (A @ B). snd e \<noteq> []"
  shows "withdraw i (A @ (l, xs @ i # ys) # B) = A @ (if xs @ ys = [] then B else (l, xs @ ys) # B)"
proof -
  have "filter (\<lambda>j. j \<noteq> i) xs = xs" "filter (\<lambda>j. j \<noteq> i) ys = ys" using assms(1) by (auto simp: filter_id_conv)
  then have "withdraw i [(l, xs @ i # ys)] = (if xs @ ys = [] then [] else [(l, xs @ ys)])"
    by (auto simp: withdraw_def)
  with assms withdraw_append [of i "[(l, xs @ i # ys)]" B] show ?thesis by (simp add: withdraw_other)
qed

text \<open>What the orders and the levels do not hold.\<close>

definition registers :: "OrderBook \<Rightarrow> TickerID \<times> OMEClientResponse \<times> OMEMarketUpdate \<times> OrderID" where
  "registers b = (assignedTicker b, clientResponse b, marketUpdate b, nextMarketOid b)"

text \<open>The book after order \<open>i\<close> has left its level: the level goes with its last order, every other level
  and order is as before.\<close>

lemma order_removed:
  assumes ok: "book_ok b Lv" and sd: "sd \<in> sides" and at: "Lv sd = A @ (l, xs @ i # ys) # B"
    and rest: "rest = (if xs @ ys = [] then [] else [(l, xs @ ys)])"
    and side: "bestOrdersByPrice b' sd = (if A @ rest @ B = [] then None else Some (fst (hd (A @ rest @ B))))"
      "ring (lnext (lvls b')) (lprev (lvls b')) (map fst (A @ rest @ B))"
      "\<forall>e\<in>set rest. level_ok (ords b') (lvls b') sd e"
    and best: "\<And>s. s \<in> sides \<Longrightarrow> s \<noteq> sd \<Longrightarrow> bestOrdersByPrice b' s = bestOrdersByPrice b s"
    and Q: "ldata (lvls b') = (ldata (lvls b))(l := if xs @ ys = [] then None else Some L')"
      "\<forall>j. j \<notin> fst ` set (Lv sd) \<longrightarrow> lnext (lvls b') j = lnext (lvls b) j \<and> lprev (lvls b') j = lprev (lvls b) j"
    and P: "odata (ords b') = (odata (ords b))(i := None)"
      "\<forall>j. j \<notin> set (xs @ i # ys) \<longrightarrow> onext (ords b') j = onext (ords b) j \<and> oprev (ords b') j = oprev (ords b) j"
    and maps: "slots_ok (mapPriceToPriceLevel b') (ldata (lvls b'))" "clients_ok (mapClientIdToOrder b') (odata (ords b'))"
    and pools: "opool_ok (ords b')" "lpool_ok (lvls b')"
  shows "book_ok b' (Lv(sd := A @ rest @ B))"
proof (rule book_ok_side [OF ok sd])
  note facts = book_side_facts [OF ok sd] and uniq = side_apart [OF ok sd at]
  have lok: "distinct (xs @ i # ys)" using book_level_ok [OF ok sd, of "(l, xs @ i # ys)"] at by (simp add: level_ok_def)
  have iAB: "i \<notin> members A" "i \<notin> members B" using uniq(2) by (fastforce simp: members_def)+
  have others: "level_ok (ords b') (lvls b') sd e" if e: "e \<in> set (A @ B)" for e
  proof -
    have "level_ok (ords b) (lvls b) sd e" using book_level_ok [OF ok sd] e at by auto
    moreover have "odata (ords b') j = odata (ords b) j \<and> onext (ords b') j = onext (ords b) j \<and> oprev (ords b') j = oprev (ords b) j"
      if "j \<in> set (snd e)" for j using that uniq(2) [OF e] P by auto
    ultimately show ?thesis using uniq(1) [OF e] Q(1) level_ok_cong [of "lvls b'" e "lvls b" "ords b'" "ords b" sd] by auto
  qed
  show "side_ok (ords b') (lvls b') (bestOrdersByPrice b' sd) sd (A @ rest @ B)"
    using facts(1) at rest side others by (auto simp: side_ok_def split: if_splits)
  show "dom (ldata (lvls b')) = (dom (ldata (lvls b)) - fst ` set (Lv sd)) \<union> fst ` set (A @ rest @ B)"
    using facts(1,3) at Q(1) rest by auto
  show "dom (odata (ords b')) = (dom (odata (ords b)) - members (Lv sd)) \<union> members (A @ rest @ B)"
    using facts(4) at P(1) lok iAB rest by auto
qed (use at best Q P maps pools in auto)

lemma remove_shared_level:
  assumes ok: "book_ok b Lv" and sd: "sd \<in> sides" and at: "Lv sd = A @ (l, xs @ i # ys) # B"
    and ne: "xs @ ys \<noteq> []" and x: "odata (ords b) i = Some x"
  shows "\<exists>b'. removeOrderFromBook b (Some i) = Inr b' \<and> book_ok b' (Lv(sd := A @ (l, xs @ ys) # B)) \<and>
    odata (ords b') = (odata (ords b))(i := None) \<and> registers b' = registers b"
proof -
  have lok: "level_ok (ords b) (lvls b) sd (l, xs @ i # ys)" using book_level_ok [OF ok sd] at by simp
  from lok have r: "ring (onext (ords b)) (oprev (ords b)) (xs @ i # ys)" and d: "distinct (xs @ i # ys)"
    by (auto simp: level_ok_def)
  from ring_neighbours [OF r d ne] obtain p where p: "oprev (ords b) i = Some p" "p \<noteq> i" by metis
  obtain o0 where o0: "deref (ords b) (Some i) = Inr o0" "strip o0 = x" "prev o0 = Some p"
    using deref_order [OF x] p by auto
  have lvl: "getLevelForPrice b (price o0) = Inr (Some l)"
  proof -
    from lok obtain L where L: "ldata (lvls b) l = Some L" "price x = level_price L"
      using x by (auto simp: level_ok_def)
    then show ?thesis using book_slot [OF book_okD(2) [OF ok] L(1)] o0(2) by auto
  qed
  obtain P1 Q1 L where lv: "leaveLevel b (Some i) (Some l) = Inr (b\<lparr>orderPool := P1, ordersAtPricePool := Q1\<rparr>)"
    "odata P1 = odata (ords b)"
    "\<forall>j. j \<notin> set (xs @ i # ys) \<longrightarrow> onext P1 j = onext (ords b) j \<and> oprev P1 j = oprev (ords b) j"
    "level_ok P1 Q1 sd (l, xs @ ys)" "ldata (lvls b) l = Some L"
    "ldata Q1 = (ldata (lvls b))(l \<mapsto> L\<lparr>order0 := Some (hd (xs @ ys))\<rparr>)"
    "lnext Q1 = lnext (lvls b)" "lprev Q1 = lprev (lvls b)" 
    "opool_ok (ords b) \<longrightarrow> opool_ok P1" "lpool_ok (lvls b) \<longrightarrow> lpool_ok Q1"
    by (rule leaveLevel_spec [OF lok ne])
  let ?b1 = "b\<lparr>orderPool := P1, ordersAtPricePool := Q1\<rparr>"
  obtain o3 cm' P' where rm: "rdO ?b1 (Some i) = Inr o3"
    "setClientOrder ?b1 (clientId o3) (clientOrderId o3) None = Inr (?b1\<lparr>mapClientIdToOrder := cm'\<rparr>)"
    "deallocate P1 i = Inr P'" "odata P' = (odata (ords b))(i := None)"
    "onext P' = (onext P1)(i := None)" "oprev P' = (oprev P1)(i := None)" "opool_ok P'"
    "clients_ok cm' ((odata (ords b))(i := None))"
  proof (rule remove_prepared [of ?b1 i x])
    show "clients_ok (mapClientIdToOrder ?b1) (odata (ords ?b1))" using book_okD(3) [OF ok] lv(2) by simp
    show "odata (ords ?b1) i = Some x" "opool_ok (ords ?b1)" using lv(2,9) x book_okD(4) [OF ok] by simp_all
  qed (use lv(2) that in auto)
  let ?b' = "?b1\<lparr>mapClientIdToOrder := cm', orderPool := P'\<rparr>"
  have run: "removeOrderFromBook b (Some i) = Inr ?b'"
    using p o0 lvl lv(1) rm(1,2,3) by (simp add: removeOrderFromBook_def rdO_def del: bind_res_eq_Inr deref_eq_Inr)
  have new: "level_ok P' Q1 sd (l, xs @ ys)"
    using lv(4) d rm(4,5,6) lv(2) by (subst level_ok_cong [of _ _ Q1 _ P1]) auto
  have "book_ok ?b' (Lv(sd := A @ [(l, xs @ ys)] @ B))"
  proof (rule order_removed [OF ok sd at, where L' = "L\<lparr>order0 := Some (hd (xs @ ys))\<rparr>"])
    show "bestOrdersByPrice ?b' sd = (if A @ [(l, xs @ ys)] @ B = [] then None else Some (fst (hd (A @ [(l, xs @ ys)] @ B))))"
      using book_side_facts(5) [OF ok sd] at by (cases A) auto
    show "\<forall>e\<in>set [(l, xs @ ys)]. level_ok (ords ?b') (lvls ?b') sd e"
      using new by simp
    show "slots_ok (mapPriceToPriceLevel ?b') (ldata (lvls ?b'))"
      using slots_ok_data [OF book_okD(2) [OF ok] lv(5)] lv(6) by simp
  qed (use ne at lv(3,6-8,10) rm(4-8) book_side_facts(2) [OF ok sd] book_okD(5) [OF ok] in auto)
  with run rm(4) show ?thesis by (auto simp: registers_def)
qed

lemma registers_simps [simp]:
  "registers (setBestOrdersByPrice b sd p) = registers b" "registers (b\<lparr>ordersAtPricePool := Q\<rparr>) = registers b"
  "registers (b\<lparr>orderPool := P\<rparr>) = registers b" "registers (b\<lparr>mapPriceToPriceLevel := m\<rparr>) = registers b"
  "registers (b\<lparr>mapClientIdToOrder := cm\<rparr>) = registers b"
  by (simp_all add: registers_def setBestOrdersByPrice_def)

lemma remove_last_order:
  assumes ok: "book_ok b Lv" and sd: "sd \<in> sides" and at: "Lv sd = A @ (l, [i]) # B"
    and x: "odata (ords b) i = Some x"
  shows "\<exists>b'. removeOrderFromBook b (Some i) = Inr b' \<and> book_ok b' (Lv(sd := A @ B)) \<and>
    odata (ords b') = (odata (ords b))(i := None) \<and> registers b' = registers b"
proof -
  have lok: "level_ok (ords b) (lvls b) sd (l, [i])" using book_level_ok [OF ok sd] at by simp
  then obtain L where L: "ldata (lvls b) l = Some L" "side x = sd" "price x = level_price L" "oprev (ords b) i = Some i"
    using x by (auto simp: level_ok_def)
  obtain o0 where o0: "deref (ords b) (Some i) = Inr o0" "strip o0 = x" "prev o0 = Some i"
    using deref_order [OF x] L by auto
  have o0': "price o0 = level_price L" "side o0 = sd" using o0(2) L by auto
  note side = book_side_facts [OF ok sd, unfolded at, simplified]
  let ?m = "(mapPriceToPriceLevel b)\<lparr>velem := (velem (mapPriceToPriceLevel b))(priceToIndex (level_price L) := None)\<rparr>"
  let ?best = "if map fst A @ map fst B = [] then None else Some (hd (map fst A @ map fst B))"
  obtain Q1 where Q1: "removePriceLevel b sd (level_price L) =
      Inr (setBestOrdersByPrice (b\<lparr>mapPriceToPriceLevel := ?m, ordersAtPricePool := Q1\<rparr>) sd ?best)"
    "ldata Q1 = (ldata (lvls b))(l := None)" "ring (lnext Q1) (lprev Q1) (map fst A @ map fst B)"
    "\<forall>j. j \<notin> set (map fst A @ l # map fst B) \<longrightarrow> lnext Q1 j = lnext (lvls b) j \<and> lprev Q1 j = lprev (lvls b) j"
    "lpool_ok Q1"
  proof (rule removePriceLevel_spec)
    show "bestOrdersByPrice b sd = Some (hd (map fst A @ l # map fst B))" using side(5) by (cases A) auto
    show "slots_ok (mapPriceToPriceLevel b) (ldata (lvls b))" "lpool_ok (lvls b)" by (rule book_okD [OF ok])+
    show "ldata (lvls b) l = Some L" by fact
  qed (use side in auto)
  let ?b1 = "setBestOrdersByPrice (b\<lparr>mapPriceToPriceLevel := ?m, ordersAtPricePool := Q1\<rparr>) sd ?best"
  obtain o3 cm' P' where rm: "rdO ?b1 (Some i) = Inr o3"
    "setClientOrder ?b1 (clientId o3) (clientOrderId o3) None = Inr (?b1\<lparr>mapClientIdToOrder := cm'\<rparr>)"
    "deallocate (ords b) i = Inr P'" "odata P' = (odata (ords b))(i := None)"
    "onext P' = (onext (ords b))(i := None)" "oprev P' = (oprev (ords b))(i := None)" "opool_ok P'"
    "clients_ok cm' ((odata (ords b))(i := None))"
  proof (rule remove_prepared [of ?b1 i x])
    show "clients_ok (mapClientIdToOrder ?b1) (odata (ords ?b1))" using book_okD(3) [OF ok] by simp
    show "odata (ords ?b1) i = Some x" "opool_ok (ords ?b1)" using x book_okD(4) [OF ok] by simp_all
  qed (use that in simp)
  let ?b' = "?b1\<lparr>mapClientIdToOrder := cm', orderPool := P'\<rparr>"
  have run: "removeOrderFromBook b (Some i) = Inr ?b'"
    using o0 o0' book_slot [OF book_okD(2) [OF ok] L(1)] Q1(1) rm(1,2,3)
    by (simp add: removeOrderFromBook_def rdO_def del: bind_res_eq_Inr deref_eq_Inr)
  have "book_ok ?b' (Lv(sd := A @ [] @ B))"
  proof (rule order_removed [OF ok sd, where xs = "[]" and ys = "[]" and i = i and l = l])
    show "bestOrdersByPrice ?b' sd = (if A @ [] @ B = [] then None else Some (fst (hd (A @ [] @ B))))"
      using sd by (auto simp: best_setBest hd_append hd_map)
    show "slots_ok (mapPriceToPriceLevel ?b') (ldata (lvls ?b'))"
      using slots_ok_remove [OF book_okD(2) [OF ok] L(1)] Q1(2) by simp
  qed (use at rm(4-8) Q1(2-5) sd best_setBest in auto)
  then have "book_ok ?b' (Lv(sd := A @ B))" by simp
  with run rm(4) show ?thesis by simp
qed

theorem removeOrderFromBook_ok:
  assumes ok: "book_ok b Lv" and x: "odata (ords b) i = Some x"
  shows "\<exists>b'. removeOrderFromBook b (Some i) = Inr b' \<and> book_ok b' (\<lambda>sd. withdraw i (Lv sd)) \<and>
    odata (ords b') = (odata (ords b))(i := None) \<and> registers b' = registers b"
proof -
  obtain A l xs ys B where sd: "side x \<in> sides" and at: "Lv (side x) = A @ (l, xs @ i # ys) # B"
    by (rule locate_order [OF ok x])
  note uniq = side_apart [OF ok sd at]
  have iAB: "i \<notin> members A" "i \<notin> members B" using uniq(2) by (fastforce simp: members_def)+
  have ne: "\<forall>e\<in>set (Lv s). snd e \<noteq> []" if "s \<in> sides" for s
    using book_level_ok [OF ok that] by (auto simp: level_ok_def)
  have d: "distinct (xs @ i # ys)" using book_level_ok [OF ok sd, of "(l, xs @ i # ys)"] at by (simp add: level_ok_def)
  have here: "withdraw i (Lv (side x)) = A @ (if xs @ ys = [] then B else (l, xs @ ys) # B)"
    unfolding at by (rule withdraw_at [OF d iAB]) (use ne [OF sd] at in auto)
  have there: "withdraw i (Lv s) = Lv s" if s: "s \<in> sides" "s \<noteq> side x" for s
  proof (rule withdraw_other)
    show "\<forall>e\<in>set (Lv s). snd e \<noteq> []" by (rule ne [OF s(1)])
    show "i \<notin> members (Lv s)"
      using layout_unique [OF ok s(1) sd, of _ "(l, xs @ i # ys)" i] s(2) at by (auto simp: members_def)
  qed
  have "book_ok b' (\<lambda>sd. withdraw i (Lv sd)) \<longleftrightarrow>
      book_ok b' (Lv(side x := A @ (if xs @ ys = [] then B else (l, xs @ ys) # B)))" for b'
    by (rule book_ok_cong) (use here there in auto)
  with remove_last_order [OF ok sd _ x, of A l B] remove_shared_level [OF ok sd at _ x] at show ?thesis
    by (cases "xs @ ys = []") auto
qed

end
