(* ===== verification/Book_Insert.thy ===== *)
theory Book_Insert
  imports Book_Remove
begin

text \<open>
  Entering an order keeps the representation invariant. If its price has a level, the order goes
  to the end of that level's queue; otherwise a level is created, for which there is always a
  block, and placed by \<open>placeLevel\<close>. A slot of the price array that another price occupies is
  excluded by the hypotheses: \<open>priceToIndex\<close> keeps prices apart only modulo 256.
\<close>

section \<open>Room for a level\<close>

text \<open>Every level occupies its own slot of the price array, so a free slot means a free block.\<close>

lemma level_room:
  assumes slots: "slots_ok m ld" and fin: "finite (dom ld)" and free: "velem m (priceToIndex px) = None"
  shows "card (dom ld) < MAX_PRICE_LEVELS"
proof -
  let ?f = "\<lambda>l. priceToIndex (level_price (the (ld l)))"
  have "inj_on ?f (dom ld)"
    using slots_inj [OF slots] by (fastforce simp: inj_on_def)
  then have "card (dom ld) = card (?f ` dom ld)" by (simp add: card_image)
  also have "?f ` dom ld \<subseteq> {..<MAX_PRICE_LEVELS} - {priceToIndex px}"
  proof
    fix j assume "j \<in> ?f ` dom ld"
    then obtain l L where l: "ld l = Some L" "j = priceToIndex (level_price L)" by auto
    then have "velem m j = Some l" using slots unfolding slots_ok_def by (metis priceToIndex_lt)
    with free have "j \<noteq> priceToIndex px" by auto
    with l(2) show "j \<in> {..<MAX_PRICE_LEVELS} - {priceToIndex px}" by simp
  qed
  then have "card (?f ` dom ld) \<le> card ({..<MAX_PRICE_LEVELS} - {priceToIndex px})" by (intro card_mono) auto
  also have "\<dots> < MAX_PRICE_LEVELS"
    by (metis card_Diff1_less card_lessThan finite_lessThan lessThan_iff priceToIndex_lt)
  finally show ?thesis by simp
qed

text \<open>An order that has just been allocated and is not linked yet.\<close>

definition pending :: "OrderBook \<Rightarrow> Order MemoryPool \<Rightarrow> nat \<Rightarrow> Order \<Rightarrow> bool" where
  "pending b P1 i x \<longleftrightarrow> i \<notin> dom (odata (ords b)) \<and> odata P1 = (odata (ords b))(i \<mapsto> x) \<and>
     (\<forall>j. j \<noteq> i \<longrightarrow> onext P1 j = onext (ords b) j \<and> oprev P1 j = oprev (ords b) j) \<and> opool_ok P1 \<and>
     side x \<in> sides \<and> unat (clientId x) < MAX_N_CLIENTS \<and> unat (clientOrderId x) < MAX_ORDER_IDS \<and>
     velem (velem (mapClientIdToOrder b) (unat (clientId x))) (unat (clientOrderId x)) = None"

lemma enter_client:
  assumes pend: "pending b P1 i x" and ok: "clients_ok (mapClientIdToOrder b) (odata (ords b))"
    and b1: "mapClientIdToOrder b1 = mapClientIdToOrder b" "odata (ords b1) = (odata (ords b))(i \<mapsto> x)"
  shows "\<exists>cm' o1. rdO b1 (Some i) = Inr o1 \<and>
    setClientOrder b1 (clientId o1) (clientOrderId o1) (Some i) = Inr (b1\<lparr>mapClientIdToOrder := cm'\<rparr>) \<and>
    clients_ok cm' ((odata (ords b))(i \<mapsto> x))"
proof -
  obtain o1 where o1: "deref (ords b1) (Some i) = Inr o1" "strip o1 = x"
    using deref_order [of "ords b1" i x] b1(2) by auto
  have ids: "unat (clientId o1) < MAX_N_CLIENTS" "unat (clientOrderId o1) < MAX_ORDER_IDS"
    using pend o1(2) by (auto simp: pending_def)
  obtain cm' where cm': "setClientOrder b1 (clientId o1) (clientOrderId o1) (Some i) = Inr (b1\<lparr>mapClientIdToOrder := cm'\<rparr>)"
    "vsize cm' = MAX_N_CLIENTS" "\<forall>c < MAX_N_CLIENTS. vsize (velem cm' c) = MAX_ORDER_IDS"
    "\<forall>c' k'. velem (velem cm' c') k' = (if c' = unat (clientId o1) \<and> k' = unat (clientOrderId o1) then Some i
       else velem (velem (mapClientIdToOrder b) c') k')"
    using setClientOrder_ok [OF ok b1(1) ids, of "Some i"] by auto
  have "clients_ok cm' ((odata (ords b))(i \<mapsto> x))"
    by (rule clients_ok_add [OF ok _ cm'(2,3)]) (use pend cm'(4) o1(2) in \<open>auto simp: pending_def\<close>)
  with o1(1) cm'(1) show ?thesis by (auto simp: rdO_def simp del: deref_eq_Inr)
qed

lemma join_level_ok:
  assumes ok: "book_ok b Lv" and pend: "pending b P1 i x" and at: "Lv (side x) = A @ (l, os) # B"
    and L: "ldata (lvls b) l = Some L" "level_price L = price x"
  shows "\<exists>b'. addOrderToBook (b\<lparr>orderPool := P1\<rparr>) (Some i) = Inr b' \<and>
    book_ok b' (Lv(side x := A @ (l, os @ [i]) # B)) \<and> odata (ords b') = (odata (ords b))(i \<mapsto> x) \<and> registers b' = registers b"
proof -
  let ?sd = "side x" and ?b1 = "b\<lparr>orderPool := P1\<rparr>"
  have sd: "?sd \<in> sides" and i: "i \<notin> dom (odata (ords b))" and P1: "odata P1 = (odata (ords b))(i \<mapsto> x)"
    "\<forall>j. j \<noteq> i \<longrightarrow> onext P1 j = onext (ords b) j \<and> oprev P1 j = oprev (ords b) j" "opool_ok P1"
    using pend by (auto simp: pending_def)
  note side = book_side_facts [OF ok sd, unfolded at, simplified]
  have iAB: "i \<notin> members A" "i \<notin> members B" "i \<notin> set os" using side(4) i by auto
  have "level_ok (ords b) (lvls b) ?sd (l, os)" using book_level_ok [OF ok sd] at by simp
  then have lok: "level_ok P1 (lvls b) ?sd (l, os)"
    using iAB P1 by (subst level_ok_cong [of _ _ "lvls b" _ "ords b"]) auto
  obtain P2 where P2: "joinLevel ?b1 (Some i) (Some l) = Inr (b\<lparr>orderPool := P2\<rparr>)" "odata P2 = odata P1"
    "\<forall>j. j \<notin> set (os @ [i]) \<longrightarrow> onext P2 j = onext P1 j \<and> oprev P2 j = oprev P1 j"
    "level_ok P2 (lvls b) ?sd (l, os @ [i])" "opool_ok P1 \<longrightarrow> opool_ok P2"
    using joinLevel_spec [of ?b1 ?sd l os i x] lok P1(1) iAB(3) L by auto
  let ?b2 = "b\<lparr>orderPool := P2\<rparr>"
  obtain cm' o1 where cl: "rdO ?b2 (Some i) = Inr o1"
    "setClientOrder ?b2 (clientId o1) (clientOrderId o1) (Some i) = Inr (?b2\<lparr>mapClientIdToOrder := cm'\<rparr>)"
    "clients_ok cm' ((odata (ords b))(i \<mapsto> x))"
    using enter_client [OF pend book_okD(3) [OF ok], of ?b2] P1(1) P2(2) by auto
  let ?b' = "?b2\<lparr>mapClientIdToOrder := cm'\<rparr>"
  obtain o0 where o0: "deref P1 (Some i) = Inr o0" "strip o0 = x" using deref_order [of P1 i x] P1(1) by auto
  have slot: "getLevelForPrice ?b1 (price o0) = Inr (Some l)"
    using book_slot [OF book_okD(2) [OF ok] L(1)] o0(2) L(2) by (auto simp: getLevelForPrice_def)
  have run: "addOrderToBook ?b1 (Some i) = Inr ?b'"
    using o0(1) slot P2(1) cl(1,2)
    by (simp add: addOrderToBook_def rdO_def [of ?b1] del: bind_res_eq_Inr deref_eq_Inr)
  have others: "level_ok P2 (lvls b) ?sd e" if e: "e \<in> set (A @ B)" for e
  proof -
    have "level_ok (ords b) (lvls b) ?sd e" using book_level_ok [OF ok sd] e at by auto
    moreover have "set (snd e) \<inter> set (os @ [i]) = {}"
      using side_apart(2) [OF ok sd at e] iAB e by (auto simp: members_def)
    ultimately show ?thesis using P2(2,3) P1(1,2) by (subst level_ok_cong [of _ _ "lvls b" _ "ords b"]) auto
  qed
  have "book_ok ?b' (Lv(?sd := A @ (l, os @ [i]) # B))"
  proof (rule book_ok_side [OF ok sd])
    have "bestOrdersByPrice b ?sd = Some (fst (hd (A @ (l, os @ [i]) # B)))" using side(5) by (cases A) auto
    then show "side_ok (ords ?b') (lvls ?b') (bestOrdersByPrice ?b' ?sd) ?sd (A @ (l, os @ [i]) # B)"
      using side others P2(4) by (auto simp: side_ok_def)
    show "odata (ords ?b') j = odata (ords b) j \<and> onext (ords ?b') j = onext (ords b) j \<and> oprev (ords ?b') j = oprev (ords b) j"
      if "j \<in> dom (odata (ords b))" "j \<notin> members (Lv ?sd)" for j using that at P2(2,3) P1(1,2) i by auto
    show "dom (ldata (lvls ?b')) = (dom (ldata (lvls b)) - fst ` set (Lv ?sd)) \<union> fst ` set (A @ (l, os @ [i]) # B)"
      using side(3) at by auto
    show "dom (odata (ords ?b')) = (dom (odata (ords b)) - members (Lv ?sd)) \<union> members (A @ (l, os @ [i]) # B)"
      using side(4) at P2(2) P1(1) by auto
  qed (use P2 P1 cl book_okD(2,5) [OF ok] in auto)
  with run P2(2) P1(1) show ?thesis by simp
qed

text \<open>The comparison of prices behind \<open>shouldAddAfter\<close>: is \<open>p\<close> worse than \<open>q\<close> on this side?\<close>

definition worsePrice :: "Side \<Rightarrow> Price \<Rightarrow> Price \<Rightarrow> bool" where
  "worsePrice sd p q \<longleftrightarrow> (if sd = SELL then sint p > sint q else sint p < sint q)"

lemma shouldAddAfter_worse: "shouldAddAfter new t = worsePrice (level_side new) (level_price new) (level_price t)"
  by (simp add: shouldAddAfter_def worsePrice_def)

lemma placeLevel_cong:
  assumes "\<And>x. x \<in> set xs \<Longrightarrow> f x = g x"
  shows "placeLevel f n xs = placeLevel g n xs"
proof (cases xs)
  case (Cons h t)
  then have "takeWhile f t = takeWhile g t" "dropWhile f t = dropWhile g t" "f h = g h"
    using assms by (auto intro!: takeWhile_cong dropWhile_cong)
  with Cons show ?thesis by simp
qed simp

definition levelPrice :: "OrderBook \<Rightarrow> nat \<times> nat list \<Rightarrow> Price" where
  "levelPrice b e = level_price (the (ldata (lvls b) (fst e)))"

text \<open>Opening a level: its block is fresh, so the side can be entered, and its place among the levels is
  decided by the prices alone.\<close>

lemma place_by_price:
  assumes Q: "ldata Q n = Some N" and ls: "\<And>e. e \<in> set Ls \<Longrightarrow> ldata Q (fst e) = ldata (lvls b) (fst e)"
  shows "placeLevel (worseThan Q n) n (map fst Ls) =
    map fst (placeLevel (\<lambda>e. worsePrice (level_side N) (level_price N) (levelPrice b e)) (n, os) Ls)"
proof -
  have "placeLevel (worseThan Q n) n (map fst Ls) = map fst (placeLevel (\<lambda>e. worseThan Q n (fst e)) (n, os) Ls)"
    using map_placeLevel [of fst "worseThan Q n" "(n, os)" Ls] by simp
  also have "placeLevel (\<lambda>e. worseThan Q n (fst e)) (n, os) Ls =
      placeLevel (\<lambda>e. worsePrice (level_side N) (level_price N) (levelPrice b e)) (n, os) Ls"
    using Q ls by (intro placeLevel_cong) (simp add: worseThan_def shouldAddAfter_worse levelPrice_def)
  finally show ?thesis .
qed

lemma new_level_enterable:
  assumes ok: "book_ok b Lv" and sd: "level_side N \<in> sides"
    and free: "velem (mapPriceToPriceLevel b) (priceToIndex (level_price N)) = None"
    and Q: "n \<notin> dom (ldata (lvls b))" "ldata Q = (ldata (lvls b))(n \<mapsto> N)" "lnext Q = (lnext (lvls b))(n := None)"
      "lprev Q = (lprev (lvls b))(n := None)"
  shows "enterable (b\<lparr>orderPool := P, ordersAtPricePool := Q\<rparr>) n N (map fst (Lv (level_side N)))"
proof -
  let ?ls = "map fst (Lv (level_side N))"
  note side = book_side_facts [OF ok sd] and slots = book_okD(2) [OF ok]
  have nls: "n \<notin> set ?ls" using Q(1) side(3) by auto
  have "ring (lnext Q) (lprev Q) ?ls"
    using side(2) nls Q(3,4) by (subst ring_cong [of _ _ "lnext (lvls b)" _ "lprev (lvls b)"]) auto
  moreover have "length ?ls \<le> MAX_PRICE_LEVELS"
  proof -
    have "length ?ls = card (set ?ls)" by (rule distinct_card [OF side(1), symmetric])
    also have "\<dots> \<le> card (dom (ldata (lvls b)))" using side(3) by (intro card_mono) auto
    finally show ?thesis using level_room [OF slots finite_dom_ldata free] by simp
  qed
  moreover have "level_price L \<noteq> level_price N" if "l \<in> set ?ls" "ldata Q l = Some L" for l L
  proof -
    have "ldata (lvls b) l = Some L" using that nls Q(2) by (auto split: if_splits)
    then have "velem (mapPriceToPriceLevel b) (priceToIndex (level_price L)) = Some l"
      using slots unfolding slots_ok_def by (metis priceToIndex_lt)
    with free show ?thesis by auto
  qed
  moreover have "bestOrdersByPrice (b\<lparr>orderPool := P, ordersAtPricePool := Q\<rparr>) (level_side N) =
      (if ?ls = [] then None else Some (hd ?ls))" using side(5) by (simp add: hd_map)
  moreover have "vsize (mapPriceToPriceLevel b) = MAX_PRICE_LEVELS" using slots by (simp add: slots_ok_def)
  moreover have "set ?ls \<subseteq> dom (ldata Q)" using side(3) Q(2) by auto
  ultimately show ?thesis using Q(2) sd side(1) nls by (auto simp: enterable_def)
qed

lemma enter_new_level:
  fixes b N Lv os P
  defines "place \<equiv> \<lambda>n. placeLevel (\<lambda>e. worsePrice (level_side N) (level_price N) (levelPrice b e)) (n, os) (Lv (level_side N))"
  assumes ok: "book_ok b Lv" and sd: "level_side N \<in> sides" and N: "level_prev N = None" "level_next N = None"
    and free: "velem (mapPriceToPriceLevel b) (priceToIndex (level_price N)) = None"
  obtains n Q1 Q2 where "allocate (lvls b) N = Inr (Some n, Q1)" "n \<notin> dom (ldata (lvls b))"
    "addPriceLevel (b\<lparr>orderPool := P, ordersAtPricePool := Q1\<rparr>) (Some n) =
      Inr (setBestOrdersByPrice ((withSlot (b\<lparr>orderPool := P\<rparr>) N n)\<lparr>ordersAtPricePool := Q2\<rparr>) (level_side N)
        (Some (fst (hd (place n)))))"
    "ldata Q2 = (ldata (lvls b))(n \<mapsto> N)" "ring (lnext Q2) (lprev Q2) (map fst (place n))"
    "\<forall>j. j \<notin> insert n (fst ` set (Lv (level_side N))) \<longrightarrow>
      lnext Q2 j = lnext (lvls b) j \<and> lprev Q2 j = lprev (lvls b) j" "lpool_ok Q2"
    "distinct (map fst (place n))" "set (place n) = insert (n, os) (set (Lv (level_side N)))"
proof -
  note side = book_side_facts [OF ok sd] and slots = book_okD(2) [OF ok]
  have lN: "lstrip N = N" using N by (cases N) (simp add: lstrip_def)
  obtain n Q1 where Q1: "allocate (lvls b) N = Inr (Some n, Q1)" "n \<notin> dom (ldata (lvls b))"
    "ldata Q1 = (ldata (lvls b))(n \<mapsto> N)" "lnext Q1 = (lnext (lvls b))(n := None)"
    "lprev Q1 = (lprev (lvls b))(n := None)" "lpool_ok Q1"
    using allocate_level [OF book_okD(5) [OF ok] level_room [OF slots finite_dom_ldata free], of N] lN N
    by auto
  let ?b = "b\<lparr>orderPool := P, ordersAtPricePool := Q1\<rparr>" and ?ls = "map fst (Lv (level_side N))"
  have nls: "n \<notin> set ?ls" using Q1(2) side(3) by auto
  have at: "placeLevel (worseThan Q1 n) n ?ls = map fst (place n)"
    using place_by_price [of Q1 n N "Lv (level_side N)" b os] Q1(3) nls by (force simp: place_def)
  have pl: "distinct (map fst (place n))" "set (place n) = insert (n, os) (set (Lv (level_side N)))"
    using distinct_placeLevel [OF side(1) nls, of "worseThan Q1 n"] at by (simp_all add: place_def)
  have hd_pl: "hd (map fst (place n)) = fst (hd (place n))" using pl(2) by (cases "place n") auto
  obtain Q2 where Q2: "relinked Q1 n ?ls (map fst (place n)) Q2" "addPriceLevel ?b (Some n) =
      Inr (setBestOrdersByPrice ((withSlot ?b N n)\<lparr>ordersAtPricePool := Q2\<rparr>) (level_side N) (Some (fst (hd (place n)))))"
    using addPriceLevel_spec [OF new_level_enterable [OF ok sd free Q1(2-5)]] at hd_pl by (auto simp: entered_def)
  show thesis
    by (rule that [of n Q1 Q2, OF Q1(1,2) _ _ _ _ _ pl]) (use Q1 Q2 in \<open>auto simp: relinked_def withSlot_def\<close>)
qed

text \<open>The book after the new order \<open>i\<close> stands alone in the new level \<open>n\<close>.\<close>

lemma level_opened:
  assumes ok: "book_ok b Lv" and sd: "side x \<in> sides" and i: "i \<notin> dom (odata (ords b))"
    and N: "n \<notin> dom (ldata (lvls b))" "level_side N = side x" "level_price N = price x" "order0 N = Some i"
    and free: "velem (mapPriceToPriceLevel b) (priceToIndex (price x)) = None"
    and P: "odata (ords b') = (odata (ords b))(i \<mapsto> x)" "onext (ords b') i = Some i" "oprev (ords b') i = Some i"
      "\<forall>j. j \<noteq> i \<longrightarrow> onext (ords b') j = onext (ords b) j \<and> oprev (ords b') j = oprev (ords b) j" "opool_ok (ords b')"
    and Q: "ldata (lvls b') = (ldata (lvls b))(n \<mapsto> N)" "ring (lnext (lvls b')) (lprev (lvls b')) (map fst A)"
      "\<forall>j. j \<notin> insert n (fst ` set (Lv (side x))) \<longrightarrow>
         lnext (lvls b') j = lnext (lvls b) j \<and> lprev (lvls b') j = lprev (lvls b) j" "lpool_ok (lvls b')"
    and A: "distinct (map fst A)" "set A = insert (n, [i]) (set (Lv (side x)))"
    and best: "\<And>s. s \<in> sides \<Longrightarrow>
      bestOrdersByPrice b' s = (if s = side x then Some (fst (hd A)) else bestOrdersByPrice b s)"
    and maps: "mapPriceToPriceLevel b' =
        (mapPriceToPriceLevel b)\<lparr>velem := (velem (mapPriceToPriceLevel b))(priceToIndex (price x) := Some n)\<rparr>"
      "clients_ok (mapClientIdToOrder b') (odata (ords b'))"
  shows "book_ok b' (Lv(side x := A))"
proof (rule book_ok_side [OF ok sd])
  note side = book_side_facts [OF ok sd]
  have new: "level_ok (ords b') (lvls b') (side x) (n, [i])"
    using P(1-3) N(2-4) Q(1) by (simp add: level_ok_def)
  have others: "level_ok (ords b') (lvls b') (side x) e" if e: "e \<in> set (Lv (side x))" for e
  proof -
    have "level_ok (ords b) (lvls b) (side x) e" by (rule book_level_ok [OF ok sd e])
    moreover have "i \<notin> set (snd e)" "fst e \<noteq> n" using side(3,4) i N(1) e by (auto simp: members_def)
    ultimately show ?thesis using P(1,4) Q(1) by (subst level_ok_cong [of _ _ "lvls b" _ "ords b"]) auto
  qed
  have "A \<noteq> []" using A(2) by auto
  then show "side_ok (ords b') (lvls b') (bestOrdersByPrice b' (side x)) (side x) A"
    using Q(2) A new others best [OF sd] by (simp add: side_ok_def)
  show "dom (ldata (lvls b')) = (dom (ldata (lvls b)) - fst ` set (Lv (side x))) \<union> fst ` set A"
    using side(3) Q(1) A(2) by auto
  show "dom (odata (ords b')) = (dom (odata (ords b)) - members (Lv (side x))) \<union> members A"
    using side(4) P(1) A(2) by (auto simp: members_def)
  show "slots_ok (mapPriceToPriceLevel b') (ldata (lvls b'))"
    using slots_ok_add [OF book_okD(2) [OF ok], of n N] N(1,3) Q(1) free maps(1) by auto
qed (use i N(1) P(1,4,5) Q(1,3,4) best maps(2) in auto)

lemma open_level_ok:
  assumes ok: "book_ok b Lv" and pend: "pending b P1 i x"
    and free: "velem (mapPriceToPriceLevel b) (priceToIndex (price x)) = None"
  shows "\<exists>b' n. addOrderToBook (b\<lparr>orderPool := P1\<rparr>) (Some i) = Inr b' \<and>
    book_ok b' (Lv(side x := placeLevel (\<lambda>e. worsePrice (side x) (price x) (levelPrice b e)) (n, [i]) (Lv (side x)))) \<and>
    odata (ords b') = (odata (ords b))(i \<mapsto> x) \<and> registers b' = registers b"
proof -
  let ?sd = "side x" and ?b1 = "b\<lparr>orderPool := P1\<rparr>"
  have sd: "?sd \<in> sides" and i: "i \<notin> dom (odata (ords b))" and P1: "odata P1 = (odata (ords b))(i \<mapsto> x)"
    "\<forall>j. j \<noteq> i \<longrightarrow> onext P1 j = onext (ords b) j \<and> oprev P1 j = oprev (ords b) j" "opool_ok P1"
    using pend by (auto simp: pending_def)
  obtain o0 where o0: "deref P1 (Some i) = Inr o0" "strip o0 = x" using deref_order [of P1 i x] P1(1) by auto
  obtain P2 where P2: "assign P1 (Some i) (\<lambda>x. x\<lparr>prev := Some i, nxt := Some i\<rparr>) = Inr P2" "odata P2 = odata P1"
    "onext P2 = (onext P1)(i := Some i)" "oprev P2 = (oprev P1)(i := Some i)" "opool_ok P2"
    using assign_links [of i P1 "Some i" "Some i"] P1 by auto
  let ?N = "\<lparr>level_side = ?sd, level_price = price x, order0 = Some i, level_prev = None, level_next = None\<rparr>"
  define A where "A n = placeLevel (\<lambda>e. worsePrice ?sd (price x) (levelPrice b e)) (n, [i]) (Lv ?sd)" for n
  obtain n Q1 Q2 where Q: "allocate (lvls b) ?N = Inr (Some n, Q1)" "n \<notin> dom (ldata (lvls b))"
    "addPriceLevel (b\<lparr>orderPool := P2, ordersAtPricePool := Q1\<rparr>) (Some n) =
      Inr (setBestOrdersByPrice ((withSlot (b\<lparr>orderPool := P2\<rparr>) ?N n)\<lparr>ordersAtPricePool := Q2\<rparr>) ?sd (Some (fst (hd (A n)))))"
    "ldata Q2 = (ldata (lvls b))(n \<mapsto> ?N)" "ring (lnext Q2) (lprev Q2) (map fst (A n))"
    "\<forall>j. j \<notin> insert n (fst ` set (Lv ?sd)) \<longrightarrow> lnext Q2 j = lnext (lvls b) j \<and> lprev Q2 j = lprev (lvls b) j"
    "lpool_ok Q2" "distinct (map fst (A n))" "set (A n) = insert (n, [i]) (set (Lv ?sd))"
    by (rule enter_new_level [OF ok, of ?N P2 "[i]"]) (use sd free in \<open>simp_all add: A_def\<close>)
  let ?b3 = "setBestOrdersByPrice ((withSlot (b\<lparr>orderPool := P2\<rparr>) ?N n)\<lparr>ordersAtPricePool := Q2\<rparr>) ?sd (Some (fst (hd (A n))))"
  have b3: "ords ?b3 = P2" "lvls ?b3 = Q2" "mapClientIdToOrder ?b3 = mapClientIdToOrder b"
    "mapPriceToPriceLevel ?b3 = (mapPriceToPriceLevel b)\<lparr>velem := (velem (mapPriceToPriceLevel b))(priceToIndex (price x) := Some n)\<rparr>"
    by (simp_all add: withSlot_def)
  obtain cm' o1 where cl: "rdO ?b3 (Some i) = Inr o1"
    "setClientOrder ?b3 (clientId o1) (clientOrderId o1) (Some i) = Inr (?b3\<lparr>mapClientIdToOrder := cm'\<rparr>)"
    "clients_ok cm' ((odata (ords b))(i \<mapsto> x))"
    using enter_client [OF pend book_okD(3) [OF ok] b3(3)] b3(1) P1(1) P2(2) by auto
  let ?b' = "?b3\<lparr>mapClientIdToOrder := cm'\<rparr>"
  have "getLevelForPrice ?b1 (price o0) = Inr None" "side o0 = ?sd" "price o0 = price x"
    using free book_okD(2) [OF ok] o0(2) by (auto simp: getLevelForPrice_def slots_ok_def)
  then have run: "addOrderToBook ?b1 (Some i) = Inr ?b'"
    using o0(1) P2(1) Q(1,3) cl(1,2)
    by (simp add: addOrderToBook_def openLevel_def wrO_def rdO_def [of ?b1] del: bind_res_eq_Inr deref_eq_Inr)
  have "book_ok ?b' (Lv(?sd := A n))"
  proof (rule level_opened [OF ok sd i Q(2) _ _ _ free])
    show "bestOrdersByPrice ?b' s = (if s = ?sd then Some (fst (hd (A n))) else bestOrdersByPrice b s)" if "s \<in> sides" for s
      using best_setBest [OF sd that] by (auto simp: withSlot_def bestOrdersByPrice_def)
  qed (use P1 P2 Q b3 cl(3) in \<open>auto\<close>)
  moreover have "registers ?b' = registers b" by (simp add: registers_def setBestOrdersByPrice_def withSlot_def)
  ultimately show ?thesis using run P1(1) P2(2) b3(1) by (auto simp: A_def)
qed

end
