(* ===== verification/Book_Match.thy ===== *)
theory Book_Match
  imports Book_Insert
begin

text \<open>
  Matching on a book that satisfies its invariant: what one fill does, and what the loop of
  \<open>findMatch\<close> leaves of the opposite side.
\<close>

section \<open>Messages sent\<close>

definition me_ok :: "MEQueues \<Rightarrow> bool" where
  "me_ok me \<longleftrightarrow> queue_wf (txResponses me) \<and> queue_wf (txMarketUpdates me)"

text \<open>\<open>emits me rs us me'\<close>: the responses \<open>rs\<close> and the updates \<open>us\<close> were appended to the two queues,
  as far as they fit.\<close>

definition emits :: "MEQueues \<Rightarrow> OMEClientResponse list \<Rightarrow> OMEMarketUpdate list \<Rightarrow> MEQueues \<Rightarrow> bool" where
  "emits me rs us me' \<longleftrightarrow> me_ok me' \<and>
     vsize (queue (txResponses me')) = vsize (queue (txResponses me)) \<and>
     vsize (queue (txMarketUpdates me')) = vsize (queue (txMarketUpdates me)) \<and>
     contents (txResponses me') = take (vsize (queue (txResponses me))) (contents (txResponses me) @ rs) \<and>
     contents (txMarketUpdates me') = take (vsize (queue (txMarketUpdates me))) (contents (txMarketUpdates me) @ us)"

lemma emits_ok: "emits me rs us me' \<Longrightarrow> me_ok me'"
  by (simp add: emits_def)

lemma emits_refl: "me_ok me \<Longrightarrow> emits me [] [] me"
  using queue_wf_le [of "txResponses me"] queue_wf_le [of "txMarketUpdates me"] by (simp add: emits_def me_ok_def)

lemma take_take_append: "take n (take n xs @ ys) = take n (xs @ ys)"
  by (cases "length xs \<le> n") auto

lemma emits_trans: "emits me rs us me1 \<Longrightarrow> emits me1 rs' us' me2 \<Longrightarrow> emits me (rs @ rs') (us @ us') me2"
  unfolding emits_def by (metis append_assoc take_take_append)

lemma dispatch_emits:
  assumes "me_ok me"
  shows "\<exists>me'. dispatchClientResponse me r = Inr me' \<and> emits me [r] [] me'"
proof -
  obtain ok q where "push (txResponses me) r = Inr (ok, q)" "queue_wf q"
    "contents q = take (vsize (queue (txResponses me))) (contents (txResponses me) @ [r])"
    "vsize (queue q) = vsize (queue (txResponses me))"
    using lfq.enq_total [of "txResponses me" r] assms by (auto simp: me_ok_def)
  then show ?thesis using emits_refl [OF assms] by (auto simp: dispatchClientResponse_def emits_def me_ok_def)
qed

lemma publish_emits:
  assumes "me_ok me"
  shows "\<exists>me'. publishMarketUpdate me u = Inr me' \<and> emits me [] [u] me'"
proof -
  obtain ok q where "push (txMarketUpdates me) u = Inr (ok, q)" "queue_wf q"
    "contents q = take (vsize (queue (txMarketUpdates me))) (contents (txMarketUpdates me) @ [u])"
    "vsize (queue q) = vsize (queue (txMarketUpdates me))"
    using lfq.enq_total [of "txMarketUpdates me" u] assms by (auto simp: me_ok_def)
  then show ?thesis using emits_refl [OF assms] by (auto simp: publishMarketUpdate_def emits_def me_ok_def)
qed

section \<open>Changing the quantity of an order\<close>

lemma setRegisters_ok [simp]:
  "book_ok (b\<lparr>clientResponse := r\<rparr>) Lv = book_ok b Lv" "book_ok (b\<lparr>marketUpdate := u\<rparr>) Lv = book_ok b Lv"
  "book_ok (b\<lparr>nextMarketOid := m\<rparr>) Lv = book_ok b Lv"
  by (simp_all add: book_ok_def bestOrdersByPrice_def)

lemma change_data_ok:
  assumes ok: "book_ok b Lv" and x: "odata (ords b) i = Some x" and P: "odata P = (odata (ords b))(i \<mapsto> y)"
    and links: "onext P = onext (ords b)" "oprev P = oprev (ords b)" and pool: "opool_ok P"
    and y: "side y = side x" "price y = price x" "clientId y = clientId x" "clientOrderId y = clientOrderId x"
  shows "book_ok (b\<lparr>orderPool := P\<rparr>) Lv"
proof -
  have "level_ok P (lvls b) sd e" if "level_ok (ords b) (lvls b) sd e" for sd e
    using that x y by (fastforce simp: level_ok_def P links)
  then have "side_ok P (lvls b) best sd A" if "side_ok (ords b) (lvls b) best sd A" for best sd A
    using that by (simp add: side_ok_def)
  moreover have "dom (odata P) = dom (odata (ords b))" using x P by auto
  moreover have "clients_ok (mapClientIdToOrder b) (odata P)"
    unfolding P by (rule clients_ok_data [OF book_okD(3) [OF ok] x y(3,4)])
  ultimately show ?thesis using ok pool by (simp add: book_ok_def)
qed

text \<open>One fill of the first order of the opposite side.\<close>

definition afterFill :: "Qty \<Rightarrow> Order \<Rightarrow> Order" where
  "afterFill q x = x\<lparr>qty := qty x - min q (qty x)\<rparr>"

definition noStray :: "stray \<Rightarrow> bool" where
  "noStray stray \<longleftrightarrow> (\<forall>b k. stray b k \<noteq> None)"

lemma fill_messages:
  assumes "me_ok me"
  obtains me1 me2 me3 me4 where "dispatchClientResponse me r1 = Inr me1" "dispatchClientResponse me1 r2 = Inr me2"
    "publishMarketUpdate me2 u1 = Inr me3" "publishMarketUpdate me3 u2 = Inr me4" "emits me [r1, r2] [u1, u2] me4"
proof -
  obtain me1 where me1: "dispatchClientResponse me r1 = Inr me1" "emits me [r1] [] me1"
    using dispatch_emits [OF assms] by blast
  obtain me2 where me2: "dispatchClientResponse me1 r2 = Inr me2" "emits me1 [r2] [] me2"
    using dispatch_emits [OF emits_ok [OF me1(2)]] by blast
  obtain me3 where me3: "publishMarketUpdate me2 u1 = Inr me3" "emits me2 [] [u1] me3"
    using publish_emits [OF emits_ok [OF me2(2)]] by blast
  obtain me4 where me4: "publishMarketUpdate me3 u2 = Inr me4" "emits me3 [] [u2] me4"
    using publish_emits [OF emits_ok [OF me3(2)]] by blast
  show thesis using that [OF me1(1) me2(1) me3(1) me4(1)]
      emits_trans [OF emits_trans [OF emits_trans [OF me1(2) me2(2)] me3(2)] me4(2)] by simp
qed

text \<open>The messages of a fill are read off the order after its quantity was reduced.\<close>

lemma fill_reads:
  assumes "strip om = afterFill q x"
  shows "qty om = qty (afterFill q x)" "fillAggressor c t k m sd om f rest = fillAggressor c t k m sd x f rest"
    "fillMatched t om f = fillMatched t (afterFill q x) f" "tradeUpdate t sd om f = tradeUpdate t sd x f"
    "filledUpdate t om f = filledUpdate t x f" "modifyUpdate t om = modifyUpdate t (afterFill q x)"
proof -
  have "price om = price x" "clientId om = clientId x" "clientOrderId om = clientOrderId x"
    "marketOrderId om = marketOrderId x" "side om = side x" "priority om = priority x" "qty om = qty (afterFill q x)"
    using assms by (auto simp: afterFill_def strip_def dest: arg_cong [where f = price] arg_cong [where f = clientId]
      arg_cong [where f = clientOrderId] arg_cong [where f = marketOrderId] arg_cong [where f = side]
      arg_cong [where f = qty] arg_cong [where f = priority])
  then show "qty om = qty (afterFill q x)" "fillAggressor c t k m sd om f rest = fillAggressor c t k m sd x f rest"
    "fillMatched t om f = fillMatched t (afterFill q x) f" "tradeUpdate t sd om f = tradeUpdate t sd x f"
    "filledUpdate t om f = filledUpdate t x f" "modifyUpdate t om = modifyUpdate t (afterFill q x)"
    by (simp_all add: fillAggressor_def fillMatched_def tradeUpdate_def filledUpdate_def modifyUpdate_def afterFill_def)
qed

lemma matchOrder_ok:
  assumes ok: "book_ok b Lv" and x: "odata (ords b) i = Some x" and me: "me_ok me" and st: "noStray stray"
  shows "\<exists>b' me' rest. matchOrder stray b me t c sd k newOid (Some i) q = Inr (b', me') \<and>
    (if qty (afterFill q x) = 0
     then book_ok b' (\<lambda>sd. withdraw i (Lv sd)) \<and> odata (ords b') = (odata (ords b))(i := None)
     else book_ok b' Lv \<and> odata (ords b') = (odata (ords b))(i \<mapsto> afterFill q x)) \<and>
    assignedTicker b' = assignedTicker b \<and> nextMarketOid b' = nextMarketOid b \<and>
    emits me [fillAggressor c t k newOid sd x (min q (qty x)) rest, fillMatched t (afterFill q x) (min q (qty x))]
      [tradeUpdate t sd x (min q (qty x)),
       if qty (afterFill q x) = 0 then filledUpdate t x (min q (qty x)) else modifyUpdate t (afterFill q x)] me'"
proof -
  let ?f = "min q (qty x)" and ?y = "afterFill q x"
  obtain o0 where o0: "deref (ords b) (Some i) = Inr o0" "strip o0 = x" using deref_order [OF x] by auto
  have f: "min q (qty o0) = ?f" using o0(2) by auto
  obtain P where P: "assign (ords b) (Some i) (\<lambda>z. z\<lparr>qty := qty z - ?f\<rparr>) = Inr P"
    "odata P = (odata (ords b))(i \<mapsto> ?y)" "onext P = onext (ords b)" "oprev P = oprev (ords b)" "opool_ok P"
    using assign_qty [OF x, of ?f] book_okD(4) [OF ok] by (auto simp: afterFill_def)
  let ?b1 = "b\<lparr>orderPool := P\<rparr>"
  have ok1: "book_ok ?b1 Lv" by (rule change_data_ok [OF ok x P(2-5)]) (simp_all add: afterFill_def)
  obtain om where om: "deref P (Some i) = Inr om" "strip om = ?y" using deref_order [of P i ?y] P(2) by auto
  note msgs = fill_reads [OF om(2)]
  obtain v where "stray ?b1 ?f = Some v" using st by (auto simp: noStray_def)
  then have rest: "readMoved stray ?b1 q ?f = Inr (if ?f = 0 then q else v)" by (simp add: readMoved_def)
  define rest where "rest = (if ?f = 0 then q else v)"
  note rest = rest [folded rest_def]
  let ?u = "if qty ?y = 0 then filledUpdate t x ?f else modifyUpdate t ?y"
  obtain me1 me2 me3 me4 where me: "dispatchClientResponse me (fillAggressor c t k newOid sd x ?f rest) = Inr me1"
    "dispatchClientResponse me1 (fillMatched t ?y ?f) = Inr me2" "publishMarketUpdate me2 (tradeUpdate t sd x ?f) = Inr me3"
    "publishMarketUpdate me3 ?u = Inr me4"
    and sent: "emits me [fillAggressor c t k newOid sd x ?f rest, fillMatched t ?y ?f] [tradeUpdate t sd x ?f, ?u] me4"
    by (rule fill_messages [OF me])
  have run: "matchOrder stray b me t c sd k newOid (Some i) q =
      (let b2 = ?b1\<lparr>clientResponse := fillMatched t ?y ?f, marketUpdate := ?u\<rparr> in
       if qty ?y = 0 then bind_res (removeOrderFromBook b2 (Some i)) (\<lambda>b. Inr (b, me4)) else Inr (b2, me4))"
    using o0(1) f P(1) om(1) rest msgs me
    by (cases "qty ?y = 0") (simp_all add: matchOrder_def rdO_def wrO_def Let_def setResponse_def setUpdate_def
        del: bind_res_eq_Inr deref_eq_Inr)
  let ?b2 = "?b1\<lparr>clientResponse := fillMatched t ?y ?f, marketUpdate := ?u\<rparr>"
  show ?thesis
  proof (cases "qty ?y = 0")
    case True
    obtain b' where b': "removeOrderFromBook ?b2 (Some i) = Inr b'" "book_ok b' (\<lambda>sd. withdraw i (Lv sd))"
      "odata (ords b') = (odata P)(i := None)" "registers b' = registers ?b2"
      using removeOrderFromBook_ok [of ?b2 Lv i ?y] ok1 P(2) by auto
    have "assignedTicker b' = assignedTicker b" "nextMarketOid b' = nextMarketOid b"
      using b'(4) by (simp_all add: registers_def)
    with True run b' sent P(2) show ?thesis by auto
  next
    case False
    with run ok1 sent P(2) show ?thesis by auto
  qed
qed

section \<open>The orders of a side\<close>

text \<open>The abstract view of a book: for each side its price levels, each a list of orders.\<close>

definition sideOrders :: "OrderBook \<Rightarrow> layout \<Rightarrow> Side \<Rightarrow> Order list list" where
  "sideOrders b Lv sd = map (\<lambda>e. map (\<lambda>i. the (odata (ords b) i)) (snd e)) (Lv sd)"

definition opposite :: "Side \<Rightarrow> Side" where
  "opposite sd = (if sd = BUY then SELL else BUY)"

lemma opposite_sides [simp]: "opposite sd \<in> sides" "sd \<in> sides \<Longrightarrow> opposite sd \<noteq> sd"
  by (auto simp: opposite_def)

lemma oppositeBest_opposite: "sd \<in> sides \<Longrightarrow> oppositeBest b sd = bestOrdersByPrice b (opposite sd)"
  by (auto simp: oppositeBest_def bestOrdersByPrice_def opposite_def)

text \<open>Splitting a fill of a resting quantity \<open>r\<close> into rounds of at most \<open>q\<close>.\<close>

function chunks :: "Qty \<Rightarrow> Qty \<Rightarrow> Qty list" where
  "chunks q r = (if q = 0 \<or> r = 0 then [] else min q r # chunks q (r - min q r))"
  by pat_completeness auto
termination
proof (relation "measure (\<lambda>(q, r). unat r)", goal_cases)
  case (2 q r)
  then show ?case using unat_gt_0 [of q] unat_gt_0 [of r] by (auto simp: unat_diff_min)
qed simp

declare chunks.simps [simp del]

lemma chunks_zero [simp]: "chunks q 0 = []"
  by (simp add: chunks.simps)

lemma chunks_total: "q \<noteq> 0 \<Longrightarrow> (\<Sum>f\<leftarrow>chunks q r. unat f) = unat r"
proof (induction q r rule: chunks.induct)
  case (1 q r)
  then show ?case by (subst chunks.simps) (auto simp: unat_diff_min unat_min)
qed

text \<open>Reading the first order of a side.\<close>

lemma read_head:
  assumes ok: "book_ok b Lv" and sd: "sd \<in> sides" and at: "Lv sd = (l, os) # A"
  obtains i js lv x first where "os = i # js" "bestOrdersByPrice b sd = Some l" "rdL b (Some l) = Inr lv"
    "order0 lv = Some i" "rdO b (Some i) = Inr first" "strip first = x" "odata (ords b) i = Some x" "side x = sd"
    "\<forall>j\<in>set os. \<exists>y. odata (ords b) j = Some y \<and> side y = sd \<and> price y = price x"
proof -
  from book_level_ok [OF ok sd, of "(l, os)"] at obtain L where L: "ldata (lvls b) l = Some L" "os \<noteq> []"
      "order0 L = Some (hd os)"
    and data: "\<forall>j\<in>set os. \<exists>x. odata (ords b) j = Some x \<and> side x = sd \<and> price x = level_price L"
    by (auto elim!: level_okE)
  then obtain i js where os: "os = i # js" by (cases os) auto
  obtain x where x: "odata (ords b) i = Some x" "side x = sd" "price x = level_price L" using data os by auto
  obtain lv where "deref (lvls b) (Some l) = Inr lv" "order0 lv = Some i"
    using deref_level [OF L(1)] L(3) os by (metis list.sel(1) lstrip_simps(3))
  moreover obtain first where "deref (ords b) (Some i) = Inr first" "strip first = x" using deref_order [OF x(1)] by auto
  ultimately show thesis
    using that [OF os] book_side_facts(5) [OF ok sd] at x data by (simp add: rdL_def rdO_def del: deref_eq_Inr)
qed

text \<open>The effect of removing or changing the first order on the abstract view.\<close>

lemma sideOrders_cong:
  assumes "\<And>i. i \<in> members (Lv sd) \<Longrightarrow> odata (ords b') i = odata (ords b) i" "Lv' sd = Lv sd"
  shows "sideOrders b' Lv' sd = sideOrders b Lv sd"
proof -
  have "the (odata (ords b') i) = the (odata (ords b) i)" if "e \<in> set (Lv sd)" "i \<in> set (snd e)" for e i
  proof -
    have "i \<in> members (Lv sd)" using that by (auto simp: members_def)
    from assms(1) [OF this] show ?thesis by simp
  qed
  then show ?thesis using assms(2) by (simp add: sideOrders_def)
qed

lemma side_members_apart:
  assumes ok: "book_ok b Lv" and "sd \<in> sides" "sd' \<in> sides" "sd \<noteq> sd'"
  shows "members (Lv sd) \<inter> members (Lv sd') = {}"
  using layout_unique [OF ok assms(2,3)] assms(4) by (auto simp: members_def)

lemma remove_head_view:
  assumes ok: "book_ok b Lv" and sd: "sd \<in> sides" and at: "Lv sd = (l, i # js) # A"
    and od: "odata (ords b') = (odata (ords b))(i := None)"
  shows "sideOrders b' (\<lambda>s. withdraw i (Lv s)) sd = (if js = [] then [] else [map (\<lambda>i. the (odata (ords b) i)) js]) @ tl (sideOrders b Lv sd)"
    and "sd' \<in> sides \<Longrightarrow> sd' \<noteq> sd \<Longrightarrow> sideOrders b' (\<lambda>s. withdraw i (Lv s)) sd' = sideOrders b Lv sd'"
proof -
  have ne: "\<forall>e\<in>set (Lv s). snd e \<noteq> []" if "s \<in> sides" for s
    using book_level_ok [OF ok that] by (auto simp: level_ok_def)
  have d: "distinct (i # js)" using book_level_ok [OF ok sd, of "(l, i # js)"] at by (simp add: level_ok_def)
  have iA: "i \<notin> members A" using side_apart(2) [OF ok sd, of "[]" l "i # js" A] at by (fastforce simp: members_def)
  have "withdraw i (Lv sd) = (if js = [] then A else (l, js) # A)"
    using withdraw_at [of "[]" i js "[]" A l] d iA ne [OF sd] at by simp
  then show "sideOrders b' (\<lambda>s. withdraw i (Lv s)) sd = (if js = [] then [] else [map (\<lambda>i. the (odata (ords b) i)) js]) @ tl (sideOrders b Lv sd)"
    using d iA at od by (auto simp: sideOrders_def members_def)
  show "sideOrders b' (\<lambda>s. withdraw i (Lv s)) sd' = sideOrders b Lv sd'" if "sd' \<in> sides" "sd' \<noteq> sd"
  proof (rule sideOrders_cong)
    have "i \<notin> members (Lv sd')" using side_members_apart [OF ok that(1) sd that(2)] at by auto
    then show "withdraw i (Lv sd') = Lv sd'" "\<And>j. j \<in> members (Lv sd') \<Longrightarrow> odata (ords b') j = odata (ords b) j"
      using withdraw_other ne [OF that(1)] od by auto
  qed
qed

lemma change_head_view:
  assumes ok: "book_ok b Lv" and sd: "sd \<in> sides" and at: "Lv sd = (l, i # js) # A"
    and od: "odata (ords b') = (odata (ords b))(i \<mapsto> y)"
  shows "sideOrders b' Lv sd = (y # map (\<lambda>i. the (odata (ords b) i)) js) # tl (sideOrders b Lv sd)"
    and "sd' \<in> sides \<Longrightarrow> sd' \<noteq> sd \<Longrightarrow> sideOrders b' Lv sd' = sideOrders b Lv sd'"
proof -
  have d: "distinct (i # js)" using book_level_ok [OF ok sd, of "(l, i # js)"] at by (simp add: level_ok_def)
  have "i \<notin> members A" using side_apart(2) [OF ok sd, of "[]" l "i # js" A] at by (fastforce simp: members_def)
  with d show "sideOrders b' Lv sd = (y # map (\<lambda>i. the (odata (ords b) i)) js) # tl (sideOrders b Lv sd)"
    using at od by (auto simp: sideOrders_def members_def)
  show "sideOrders b' Lv sd' = sideOrders b Lv sd'" if "sd' \<in> sides" "sd' \<noteq> sd"
    by (rule sideOrders_cong) (use side_members_apart [OF ok that(1) sd that(2)] at od in auto)
qed

section \<open>The matching loop\<close>

definition trades :: "OMEMarketUpdate list \<Rightarrow> OMEMarketUpdate list" where
  "trades us = filter (\<lambda>u. mu_type u = MU_TRADE) us"

text \<open>The trades of taking every order of a list completely, \<open>q\<close> at a time.\<close>

definition sweepTrades :: "TickerID \<Rightarrow> Side \<Rightarrow> Qty \<Rightarrow> Order list \<Rightarrow> OMEMarketUpdate list" where
  "sweepTrades t sd q xs = concat (map (\<lambda>x. map (tradeUpdate t sd x) (chunks q (qty x))) xs)"

text \<open>The states of an order before each of the fills that take it completely.\<close>

function fills :: "Qty \<Rightarrow> Order \<Rightarrow> Order list" where
  "fills q x = (if q = 0 \<or> qty x = 0 then [] else x # fills q (afterFill q x))"
  by pat_completeness auto
termination
proof (relation "measure (\<lambda>(q, x). unat (qty x))", goal_cases)
  case (2 q x)
  then show ?case using unat_gt_0 [of q] unat_gt_0 [of "qty x"] by (auto simp: afterFill_def unat_diff_min)
qed simp

declare fills.simps [simp del]

definition sweepFills :: "Qty \<Rightarrow> Order list \<Rightarrow> Order list" where
  "sweepFills q xs = concat (map (fills q) xs)"

text \<open>The messages of a fill, and of all of them. What the code finds at \<open>*qtyRemains\<close> is free in the
  responses.\<close>

definition fillUpdates :: "TickerID \<Rightarrow> Side \<Rightarrow> Qty \<Rightarrow> Order \<Rightarrow> OMEMarketUpdate list" where
  "fillUpdates t sd q x =
     [tradeUpdate t sd x (min q (qty x)),
      if qty (afterFill q x) = 0 then filledUpdate t x (min q (qty x)) else modifyUpdate t (afterFill q x)]"

definition sweepUpdates :: "TickerID \<Rightarrow> Side \<Rightarrow> Qty \<Rightarrow> Order list \<Rightarrow> OMEMarketUpdate list" where
  "sweepUpdates t sd q xs = concat (map (fillUpdates t sd q) (sweepFills q xs))"

definition fillResponses ::
    "ClientID \<Rightarrow> TickerID \<Rightarrow> OrderID \<Rightarrow> OrderID \<Rightarrow> Side \<Rightarrow> Qty \<Rightarrow> Order \<Rightarrow> Qty \<Rightarrow> OMEClientResponse list" where
  "fillResponses c t k m sd q x rest =
     [fillAggressor c t k m sd x (min q (qty x)) rest, fillMatched t (afterFill q x) (min q (qty x))]"

definition sweepResponses ::
    "ClientID \<Rightarrow> TickerID \<Rightarrow> OrderID \<Rightarrow> OrderID \<Rightarrow> Side \<Rightarrow> Qty \<Rightarrow> Order list \<Rightarrow> Qty list \<Rightarrow> OMEClientResponse list" where
  "sweepResponses c t k m sd q xs rests = concat (map2 (fillResponses c t k m sd q) (sweepFills q xs) rests)"

lemma trades_append [simp]: "trades (us @ vs) = trades us @ trades vs" "trades [] = []"
  by (simp_all add: trades_def)

lemma trades_fillUpdates: "trades (fillUpdates t sd q x) = [tradeUpdate t sd x (min q (qty x))]"
  by (simp add: trades_def fillUpdates_def tradeUpdate_def filledUpdate_def modifyUpdate_def)

lemma qty_afterFill: "qty (afterFill q x) = qty x - min q (qty x)"
  by (simp add: afterFill_def)

lemma trades_fills: "trades (concat (map (fillUpdates t sd q) (fills q x))) = map (tradeUpdate t sd x) (chunks q (qty x))"
proof (induction q x rule: fills.induct)
  case (1 q x)
  show ?case
  proof (cases "q = 0 \<or> qty x = 0")
    case True
    then show ?thesis by (simp add: fills.simps [of q x] chunks.simps [of q])
  next
    case False
    have "fills q x = x # fills q (afterFill q x)" "chunks q (qty x) = min q (qty x) # chunks q (qty (afterFill q x))"
      using False by (simp_all add: fills.simps [of q x] chunks.simps [of q "qty x"] qty_afterFill)
    moreover have "tradeUpdate t sd (afterFill q x) = tradeUpdate t sd x" by (simp add: tradeUpdate_def afterFill_def fun_eq_iff)
    ultimately show ?thesis using 1 False by (simp add: trades_fillUpdates)
  qed
qed

lemma trades_sweepUpdates: "trades (sweepUpdates t sd q xs) = sweepTrades t sd q xs"
  by (induction xs) (simp_all add: sweepUpdates_def sweepFills_def sweepTrades_def trades_fills)

definition crossing :: "Side \<Rightarrow> Price \<Rightarrow> Order list \<Rightarrow> bool" where
  "crossing sd px os \<longleftrightarrow> \<not> noCross sd px (hd os)"

definition allPositive :: "OrderBook \<Rightarrow> bool" where
  "allPositive b \<longleftrightarrow> (\<forall>i x. odata (ords b) i = Some x \<longrightarrow> qty x \<noteq> 0)"

lemma noCross_price: "price x = price y \<Longrightarrow> noCross sd px x = noCross sd px y"
  by (simp add: noCross_def)

lemma sweep_step:
  assumes q: "q \<noteq> 0" and x: "qty x \<noteq> 0" and cross: "\<not> noCross sd px x"
    and pr: "\<forall>y\<in>set xs. price y = price x" and y: "y = afterFill q x"
  defines "rest \<equiv> if qty y = 0 then (if xs = [] then [] else [xs]) else [y # xs]"
  shows "dropWhile (crossing sd px) (rest @ ls) = dropWhile (crossing sd px) ((x # xs) # ls)"
    and "sweepFills q (concat (takeWhile (crossing sd px) ((x # xs) # ls))) =
      x # sweepFills q (concat (takeWhile (crossing sd px) (rest @ ls)))"
proof -
  have cx: "crossing sd px (x # xs)" "crossing sd px (y # xs)" "xs \<noteq> [] \<Longrightarrow> crossing sd px xs"
    using cross pr noCross_price [of "hd xs" x sd px] by (auto simp: crossing_def y afterFill_def noCross_def)
  then show "dropWhile (crossing sd px) (rest @ ls) = dropWhile (crossing sd px) ((x # xs) # ls)"
    by (simp add: rest_def)
  have "fills q x = x # fills q y" using q x by (simp add: fills.simps [of q x] y)
  moreover have "qty y = 0 \<Longrightarrow> fills q y = []" by (simp add: fills.simps)
  ultimately show "sweepFills q (concat (takeWhile (crossing sd px) ((x # xs) # ls))) =
      x # sweepFills q (concat (takeWhile (crossing sd px) (rest @ ls)))"
    using cx by (simp add: rest_def sweepFills_def)
qed

text \<open>The loop stops on a side that is empty or does not cross.\<close>

lemma matchLoop_stops:
  assumes ok: "book_ok b Lv" and sd: "sd \<in> sides"
    and stop: "sideOrders b Lv (opposite sd) = [] \<or> \<not> crossing sd px (hd (sideOrders b Lv (opposite sd)))"
  shows "matchLoop stray t c sd k newOid px q b me = Inr (b, me)"
proof (cases "Lv (opposite sd)")
  case Nil
  then have "oppositeBest b sd = None"
    using book_side_facts(5) [OF ok opposite_sides(1) [of sd]] by (simp add: oppositeBest_opposite [OF sd])
  then show ?thesis by (simp add: matchLoop.simps)
next
  case (Cons e A)
  obtain l os where e: "e = (l, os)" by (cases e)
  obtain i js lv x first where h: "os = i # js" "bestOrdersByPrice b (opposite sd) = Some l" "rdL b (Some l) = Inr lv"
    "order0 lv = Some i" "rdO b (Some i) = Inr first" "strip first = x" "odata (ords b) i = Some x"
    by (rule read_head [OF ok opposite_sides(1) Cons [unfolded e]])
  have "noCross sd px first" using stop h(1,6,7) noCross_price [of first x sd px] by (auto simp: crossing_def sideOrders_def Cons e)
  then show ?thesis using h by (simp add: matchLoop.simps oppositeBest_opposite [OF sd] del: bind_res_eq_Inr)
qed

text \<open>Otherwise a round takes what it can of the first order \<open>x\<close>, the others \<open>xs\<close> of its level and the
  other levels \<open>ls\<close> staying as they are.\<close>

lemma match_round:
  assumes ok: "book_ok b Lv" and me: "me_ok me" and st: "noStray stray" and sd: "sd \<in> sides" and q: "q \<noteq> 0"
    and pos: "allPositive b"
    and cross: "sideOrders b Lv (opposite sd) \<noteq> []" "crossing sd px (hd (sideOrders b Lv (opposite sd)))"
  obtains x xs ls b1 me1 Lv1 rest where
    "sideOrders b Lv (opposite sd) = (x # xs) # ls" "qty x \<noteq> 0" "\<not> noCross sd px x" "\<forall>y\<in>set xs. price y = price x"
    "matchLoop stray t c sd k newOid px q b me = matchLoop stray t c sd k newOid px q b1 me1" "liquidity b1 < liquidity b"
    "book_ok b1 Lv1" "allPositive b1" "sideOrders b1 Lv1 (opposite sd) =
      (if qty (afterFill q x) = 0 then (if xs = [] then [] else [xs]) else [afterFill q x # xs]) @ ls"
    "sideOrders b1 Lv1 sd = sideOrders b Lv sd" "assignedTicker b1 = assignedTicker b" "nextMarketOid b1 = nextMarketOid b"
    "emits me (fillResponses c t k newOid sd q x rest) (fillUpdates t sd q x) me1"
proof -
  let ?opp = "opposite sd"
  obtain l os A where Lv: "Lv ?opp = (l, os) # A" using cross(1) by (cases "Lv ?opp") (auto simp: sideOrders_def)
  obtain i js lv x first where h: "os = i # js" "bestOrdersByPrice b ?opp = Some l" "rdL b (Some l) = Inr lv"
    "order0 lv = Some i" "rdO b (Some i) = Inr first" "strip first = x" "odata (ords b) i = Some x" "side x = ?opp"
    "\<forall>j\<in>set os. \<exists>y. odata (ords b) j = Some y \<and> side y = ?opp \<and> price y = price x"
    by (rule read_head [OF ok opposite_sides(1) Lv])
  note at = Lv [unfolded h(1)]
  let ?xs = "map (\<lambda>i. the (odata (ords b) i)) js" and ?y = "afterFill q x" and ?ls = "tl (sideOrders b Lv ?opp)"
  let ?Lv = "if qty ?y = 0 then \<lambda>s. withdraw i (Lv s) else Lv"
  have view: "sideOrders b Lv ?opp = (x # ?xs) # ?ls" using at h(7) by (simp add: sideOrders_def)
  have "price first = price x" "hd (hd (sideOrders b Lv ?opp)) = x" using h(6,7) at by (auto simp: sideOrders_def)
  then have nc: "\<not> noCross sd px x" "\<not> noCross sd px first"
    using cross(2) noCross_price [of first x sd px] by (simp_all add: crossing_def)
  obtain b1 me1 rest where m: "matchOrder stray b me t c sd k newOid (Some i) q = Inr (b1, me1)"
    "book_ok b1 ?Lv" "odata (ords b1) = (odata (ords b))(i := if qty ?y = 0 then None else Some ?y)"
    "assignedTicker b1 = assignedTicker b" "nextMarketOid b1 = nextMarketOid b"
    "emits me (fillResponses c t k newOid sd q x rest) (fillUpdates t sd q x) me1"
    using matchOrder_ok [OF ok h(7) me st, of t c sd k newOid q]
    by (auto simp: fillResponses_def fillUpdates_def split: if_splits)
  have pos1: "allPositive b1" and qx: "qty x \<noteq> 0" using pos m(3) h(7) by (auto simp: allPositive_def split: if_splits)
  have pr: "\<forall>y\<in>set ?xs. price y = price x" using h(1,9) by fastforce
  have run: "matchLoop stray t c sd k newOid px q b me = matchLoop stray t c sd k newOid px q b1 me1"
    using h nc(2) m(1) q by (subst matchLoop.simps) (simp add: oppositeBest_opposite [OF sd] del: bind_res_eq_Inr)
  note sd_ne = opposite_sides(2) [OF sd, symmetric]
  note gone = remove_head_view [OF ok opposite_sides(1) at] and left = change_head_view [OF ok opposite_sides(1) at]
  have "sideOrders b1 ?Lv ?opp = (if qty ?y = 0 then (if ?xs = [] then [] else [?xs]) else [?y # ?xs]) @ ?ls"
    using gone(1) [of b1] left(1) [of b1 ?y] m(3) by (cases "qty ?y = 0") simp_all
  moreover have "sideOrders b1 ?Lv sd = sideOrders b Lv sd"
    using gone(2) [of b1] left(2) [of b1 ?y] m(3) sd sd_ne by (cases "qty ?y = 0") simp_all
  ultimately show thesis
    using that [OF view qx nc(1) pr run liquidity_decreases [OF m(1) q] m(2) pos1] m(4-6) by blast
qed

theorem matchLoop_ok:
  assumes "book_ok b Lv" "me_ok me" "noStray stray" "sd \<in> sides" "q \<noteq> 0" "allPositive b"
  shows "\<exists>b' me' Lv' rests. matchLoop stray t c sd k newOid px q b me = Inr (b', me') \<and> book_ok b' Lv' \<and> allPositive b' \<and>
    sideOrders b' Lv' (opposite sd) = dropWhile (crossing sd px) (sideOrders b Lv (opposite sd)) \<and>
    sideOrders b' Lv' sd = sideOrders b Lv sd \<and> assignedTicker b' = assignedTicker b \<and> nextMarketOid b' = nextMarketOid b \<and>
    length rests = length (sweepFills q (concat (takeWhile (crossing sd px) (sideOrders b Lv (opposite sd))))) \<and>
    emits me (sweepResponses c t k newOid sd q (concat (takeWhile (crossing sd px) (sideOrders b Lv (opposite sd)))) rests)
      (sweepUpdates t sd q (concat (takeWhile (crossing sd px) (sideOrders b Lv (opposite sd))))) me'"
  using assms(1,2,6)
proof (induction "liquidity b" arbitrary: b me Lv rule: less_induct)
  case less
  let ?opp = "opposite sd"
  note ok = less.prems(1) and me = less.prems(2)
  show ?case
  proof (cases "sideOrders b Lv ?opp = [] \<or> \<not> crossing sd px (hd (sideOrders b Lv ?opp))")
    case True
    then have "dropWhile (crossing sd px) (sideOrders b Lv ?opp) = sideOrders b Lv ?opp"
      "takeWhile (crossing sd px) (sideOrders b Lv ?opp) = []" by (cases "sideOrders b Lv ?opp"; simp)+
    with matchLoop_stops [OF ok assms(4) True, of stray t c k newOid q me] show ?thesis using less.prems emits_refl [OF me]
      by (intro exI [of _ b] exI [of _ me] exI [of _ Lv] exI [of _ "[]"]) (simp add: sweepFills_def sweepResponses_def sweepUpdates_def)
  next
    case False
    obtain x xs ls b1 me1 Lv1 rest where r: "sideOrders b Lv ?opp = (x # xs) # ls" "qty x \<noteq> 0" "\<not> noCross sd px x"
      "\<forall>y\<in>set xs. price y = price x"
      "matchLoop stray t c sd k newOid px q b me = matchLoop stray t c sd k newOid px q b1 me1" "liquidity b1 < liquidity b"
      "book_ok b1 Lv1" "allPositive b1" "sideOrders b1 Lv1 ?opp =
        (if qty (afterFill q x) = 0 then (if xs = [] then [] else [xs]) else [afterFill q x # xs]) @ ls"
      "sideOrders b1 Lv1 sd = sideOrders b Lv sd" "assignedTicker b1 = assignedTicker b" "nextMarketOid b1 = nextMarketOid b"
      "emits me (fillResponses c t k newOid sd q x rest) (fillUpdates t sd q x) me1"
      by (rule match_round [OF ok me assms(3-5) less.prems(3), where px = px and t = t and c = c and k = k and newOid = newOid])
        (use False in blast)+
    note sw = sweep_step [OF assms(5) r(2-4) refl, of ls]
    let ?hit = "concat (takeWhile (crossing sd px) (sideOrders b1 Lv1 ?opp))"
    let ?all = "concat (takeWhile (crossing sd px) (sideOrders b Lv ?opp))"
    obtain b' me' Lv' rests where IH: "matchLoop stray t c sd k newOid px q b1 me1 = Inr (b', me')" "book_ok b' Lv'" "allPositive b'"
      "sideOrders b' Lv' ?opp = dropWhile (crossing sd px) (sideOrders b1 Lv1 ?opp)" "sideOrders b' Lv' sd = sideOrders b Lv sd"
      "assignedTicker b' = assignedTicker b" "nextMarketOid b' = nextMarketOid b" "length rests = length (sweepFills q ?hit)"
      "emits me1 (sweepResponses c t k newOid sd q ?hit rests) (sweepUpdates t sd q ?hit) me'"
      using less.hyps [OF r(6,7) emits_ok [OF r(13)] r(8)] r(10-12) by metis
    have fills: "sweepFills q ?all = x # sweepFills q ?hit" using sw(2) r(1,9) by simp
    have "emits me (sweepResponses c t k newOid sd q ?all (rest # rests)) (sweepUpdates t sd q ?all) me'"
      using emits_trans [OF r(13) IH(9)] by (simp add: sweepResponses_def sweepUpdates_def fills)
    moreover have "length (rest # rests) = length (sweepFills q ?all)" using IH(8) fills by simp
    moreover have "sideOrders b' Lv' ?opp = dropWhile (crossing sd px) (sideOrders b Lv ?opp)" using IH(4) sw(1) r(1,9) by simp
    ultimately show ?thesis using r(5) IH(1-3,5-7) by metis
  qed
qed

end
