(* ===== verification/Book_Requests.thy ===== *)
theory Book_Requests
  imports Book_Match
begin

text \<open>
  The two requests of the order book, \<open>addOrder\<close> and \<open>cancelOrder\<close>, on a book that satisfies
  its invariant: under the stated conditions they complete without a fault, keep the invariant,
  change the two sides as the abstract functions \<open>enterOrder\<close>, \<open>dropWhile crossing\<close> and
  \<open>dropOrder\<close> say, and send the messages listed.
\<close>

section \<open>Entering an order, abstractly\<close>

definition atPrice :: "Price \<Rightarrow> Order list \<Rightarrow> bool" where
  "atPrice px os \<longleftrightarrow> price (hd os) = px"

definition enterOrder :: "Order \<Rightarrow> Order list list \<Rightarrow> Order list list" where
  "enterOrder x ls =
     (if \<exists>os\<in>set ls. atPrice (price x) os
      then map (\<lambda>os. if atPrice (price x) os then os @ [x] else os) ls
      else placeLevel (\<lambda>os. worsePrice (side x) (price x) (price (hd os))) [x] ls)"

definition nextPriority :: "Price \<Rightarrow> Order list list \<Rightarrow> Priority" where
  "nextPriority px ls = (case find (atPrice px) ls of None \<Rightarrow> 1 | Some os \<Rightarrow> priority (last os) + 1)"

text \<open>No level sits in the slot of a price except, possibly, that price's own on the order's side.\<close>

definition slotFree :: "OrderBook \<Rightarrow> layout \<Rightarrow> Side \<Rightarrow> Price \<Rightarrow> bool" where
  "slotFree b Lv sd px \<longleftrightarrow> (\<forall>sd'\<in>sides. \<forall>os\<in>set (sideOrders b Lv sd').
     priceToIndex (price (hd os)) = priceToIndex px \<longrightarrow> price (hd os) = px \<and> sd' = sd)"

lemma level_view:
  assumes ok: "book_ok b Lv" and sd: "sd \<in> sides" and e: "(l, os) \<in> set (Lv sd)"
  obtains L xs where "ldata (lvls b) l = Some L" "level_side L = sd" "xs = map (\<lambda>i. the (odata (ords b) i)) os" "os \<noteq> []"
    "xs \<in> set (sideOrders b Lv sd)" "price (hd xs) = level_price L" "levelPrice b (l, os) = level_price L"
    "order0 L = Some (hd os)" "ring (onext (ords b)) (oprev (ords b)) os" "set os \<subseteq> dom (odata (ords b))"
proof -
  from book_level_ok [OF ok sd e] obtain L where L: "ldata (lvls b) l = Some L" "level_side L = sd" "os \<noteq> []"
    "order0 L = Some (hd os)" "\<forall>i\<in>set os. \<exists>x. odata (ords b) i = Some x \<and> side x = sd \<and> price x = level_price L"
    "ring (onext (ords b)) (oprev (ords b)) os"
    by (auto elim!: level_okE)
  let ?xs = "map (\<lambda>i. the (odata (ords b) i)) os"
  have "?xs \<in> set (sideOrders b Lv sd)" using e by (force simp: sideOrders_def)
  moreover have "price (hd ?xs) = level_price L" using L(3,5) by (cases os) auto
  ultimately show thesis using that [OF L(1,2) refl L(3)] L by (auto simp: levelPrice_def)
qed

text \<open>The two ways the slot can look.\<close>

lemma slotFree_cases:
  assumes ok: "book_ok b Lv" and sd: "sd \<in> sides" and slot: "slotFree b Lv sd px"
  obtains (none) "velem (mapPriceToPriceLevel b) (priceToIndex px) = None" "\<forall>os\<in>set (sideOrders b Lv sd). \<not> atPrice px os"
    | (some) A l os B L where "Lv sd = A @ (l, os) # B" "ldata (lvls b) l = Some L" "level_price L = px" "os \<noteq> []"
      "order0 L = Some (hd os)" "ring (onext (ords b)) (oprev (ords b)) os" "set os \<subseteq> dom (odata (ords b))"
      "velem (mapPriceToPriceLevel b) (priceToIndex px) = Some l"
      "atPrice px (map (\<lambda>i. the (odata (ords b) i)) os)"
      "\<forall>e\<in>set (A @ B). \<not> atPrice px (map (\<lambda>i. the (odata (ords b) i)) (snd e))"
proof -
  note slots = book_okD(2) [OF ok]
  have at_slot: "velem (mapPriceToPriceLevel b) (priceToIndex px) = Some l"
    if e: "(l, os) \<in> set (Lv sd)" "atPrice px (map (\<lambda>i. the (odata (ords b) i)) os)" for l os
  proof -
    from level_view [OF ok sd e(1)] obtain L where "ldata (lvls b) l = Some L"
      "price (hd (map (\<lambda>i. the (odata (ords b) i)) os)) = level_price L" by metis
    then show ?thesis using slots e(2) unfolding slots_ok_def atPrice_def by (metis priceToIndex_lt)
  qed
  show thesis
  proof (cases "velem (mapPriceToPriceLevel b) (priceToIndex px)")
    case None
    then have "\<forall>os\<in>set (sideOrders b Lv sd). \<not> atPrice px os"
      using at_slot by (fastforce simp: sideOrders_def)
    with None none show thesis by blast
  next
    case (Some l)
    then obtain L where L: "ldata (lvls b) l = Some L" "priceToIndex (level_price L) = priceToIndex px"
      using slots unfolding slots_ok_def by (metis priceToIndex_lt)
    then have "l \<in> (\<Union>sd\<in>sides. fst ` set (Lv sd))" using book_okD(6) [OF ok] by blast
    then obtain sd' os where e: "sd' \<in> sides" "(l, os) \<in> set (Lv sd')" by (elim UN_E imageE) (metis prod.collapse)
    from level_view [OF ok e] L(1) have v: "level_side L = sd'" "map (\<lambda>i. the (odata (ords b) i)) os \<in> set (sideOrders b Lv sd')"
      "price (hd (map (\<lambda>i. the (odata (ords b) i)) os)) = level_price L" "os \<noteq> []" "order0 L = Some (hd os)"
      "ring (onext (ords b)) (oprev (ords b)) os" "set os \<subseteq> dom (odata (ords b))"
      by (metis option.inject)+
    with slot e(1) L(2) have p: "level_price L = px" "sd' = sd" unfolding slotFree_def by metis+
    obtain A B where AB: "Lv sd = A @ (l, os) # B" using e(2) p(2) by (metis split_list)
    have "\<not> atPrice px (map (\<lambda>i. the (odata (ords b) i)) (snd e'))" if "e' \<in> set (A @ B)" for e'
      using at_slot [of "fst e'" "snd e'"] side_apart(1) [OF ok sd AB that] Some that AB by auto
    with some [OF AB L(1) p(1) v(4-7) Some] v(3) p show thesis by (auto simp: atPrice_def)
  qed
qed

lemma find_split: "\<forall>a\<in>set as. \<not> P a \<Longrightarrow> P x \<Longrightarrow> find P (as @ x # bs) = Some x"
  by (induction as) auto

lemma getNextPriority_ok:
  assumes ok: "book_ok b Lv" and sd: "sd \<in> sides" and slot: "slotFree b Lv sd px"
  shows "getNextPriority b px = Inr (nextPriority px (sideOrders b Lv sd))"
  using ok sd slot
proof (cases rule: slotFree_cases)
  case none
  then have "find (atPrice px) (sideOrders b Lv sd) = None" by (simp add: find_None_iff)
  then have "nextPriority px (sideOrders b Lv sd) = 1" by (simp add: nextPriority_def)
  moreover have "getLevelForPrice b px = Inr None"
    using none(1) book_okD(2) [OF ok] by (simp add: getLevelForPrice_def slots_ok_def)
  ultimately show ?thesis by (simp add: getNextPriority_def)
next
  case (some A l os B L)
  let ?f = "\<lambda>e. map (\<lambda>i. the (odata (ords b) i)) (snd e)"
  have "sideOrders b Lv sd = map ?f A @ ?f (l, os) # map ?f B" using some(1) by (simp add: sideOrders_def)
  then have np: "nextPriority px (sideOrders b Lv sd) = priority (the (odata (ords b) (last os))) + 1"
    using some(4,9,10) find_split [of "map ?f A" "atPrice px" "?f (l, os)" "map ?f B"]
    by (auto simp: nextPriority_def last_map)
  have in_dom: "hd os \<in> dom (odata (ords b))" "last os \<in> dom (odata (ords b))"
    using some(7) hd_in_set [OF some(4)] last_in_set [OF some(4)] by blast+
  have pr: "oprev (ords b) (hd os) = Some (last os)"
    using ring_last [of _ _ "hd os" "tl os"] some(4,6) by simp
  obtain lv where lv: "deref (lvls b) (Some l) = Inr lv" "order0 lv = Some (hd os)"
    using deref_level [OF some(2)] some(5) by (metis lstrip_simps(3))
  obtain f where f: "deref (ords b) (Some (hd os)) = Inr f" "prev f = Some (last os)"
    using deref_order [of "ords b" "hd os"] in_dom(1) pr by auto
  obtain z where z: "deref (ords b) (Some (last os)) = Inr z" "odata (ords b) (last os) = Some (strip z)"
    using deref_order [of "ords b" "last os"] in_dom(2) by auto
  have "getLevelForPrice b px = Inr (Some l)"
    using some(8) book_okD(2) [OF ok] by (simp add: getLevelForPrice_def slots_ok_def)
  then show ?thesis using lv f z np
    by (simp add: getNextPriority_def rdL_def rdO_def del: deref_eq_Inr bind_res_eq_Inr)
qed

text \<open>The entry of an order in the abstract view.\<close>

lemma enter_view_join:
  assumes ok: "book_ok b Lv" and sd: "side x \<in> sides" and at: "Lv (side x) = A @ (l, os) # B"
    and here: "atPrice (price x) (map (\<lambda>i. the (odata (ords b) i)) os)"
    and rest: "\<forall>e\<in>set (A @ B). \<not> atPrice (price x) (map (\<lambda>i. the (odata (ords b) i)) (snd e))"
    and i: "i \<notin> dom (odata (ords b))" and od: "odata (ords b') = (odata (ords b))(i \<mapsto> x)"
  shows "sideOrders b' (Lv(side x := A @ (l, os @ [i]) # B)) (side x) = enterOrder x (sideOrders b Lv (side x))"
proof -
  let ?f = "\<lambda>b e. map (\<lambda>i. the (odata (ords b) i)) (snd e)"
  have "i \<notin> members (Lv (side x))" using i book_side_facts(4) [OF ok sd] by auto
  then have "i \<notin> members A" "i \<notin> members B" "i \<notin> set os" using at by auto
  then have same: "map (?f b') A = map (?f b) A" "map (?f b') B = map (?f b) B" "?f b' (l, os @ [i]) = ?f b (l, os) @ [x]"
    using od by (auto simp: members_def)
  have keep: "map (\<lambda>os. if atPrice (price x) os then os @ [x] else os) (map (?f b) C) = map (?f b) C"
    if "\<forall>e\<in>set C. \<not> atPrice (price x) (?f b e)" for C using that by simp
  have v: "sideOrders b Lv (side x) = map (?f b) A @ ?f b (l, os) # map (?f b) B" using at by (simp add: sideOrders_def)
  have "enterOrder x (sideOrders b Lv (side x)) = map (?f b) A @ (?f b (l, os) @ [x]) # map (?f b) B"
    using here rest keep [of A] keep [of B] unfolding enterOrder_def v by simp
  then show ?thesis using same by (simp add: sideOrders_def)
qed

lemma enter_view_open:
  assumes ok: "book_ok b Lv" and sd: "side x \<in> sides"
    and none: "\<forall>os\<in>set (sideOrders b Lv (side x)). \<not> atPrice (price x) os"
    and i: "i \<notin> dom (odata (ords b))" and od: "odata (ords b') = (odata (ords b))(i \<mapsto> x)"
  shows "sideOrders b' (Lv(side x := placeLevel (\<lambda>e. worsePrice (side x) (price x) (levelPrice b e)) (n, [i]) (Lv (side x)))) (side x) =
    enterOrder x (sideOrders b Lv (side x))"
proof -
  let ?f = "\<lambda>b e. map (\<lambda>i. the (odata (ords b) i)) (snd e)" and ?w = "\<lambda>os. worsePrice (side x) (price x) (price (hd os))"
  have "i \<notin> members (Lv (side x))" using i book_side_facts(4) [OF ok sd] by auto
  then have same: "?f b' e = ?f b e" if "e \<in> set (Lv (side x))" for e using od that by (auto simp: members_def)
  have worse: "worsePrice (side x) (price x) (levelPrice b e) = ?w (?f b' e)" if e: "e \<in> set (Lv (side x))" for e
  proof -
    have "(fst e, snd e) \<in> set (Lv (side x))" using e by simp
    from level_view [OF ok sd this] have "levelPrice b e = price (hd (?f b e))" by (metis prod.collapse)
    then show ?thesis by (simp only: same [OF e])
  qed
  have "map (?f b') (placeLevel (\<lambda>e. worsePrice (side x) (price x) (levelPrice b e)) (n, [i]) (Lv (side x))) =
      map (?f b') (placeLevel (\<lambda>e. ?w (?f b' e)) (n, [i]) (Lv (side x)))"
    using worse by (intro arg_cong [where f = "map (?f b')"] placeLevel_cong)
  also have "\<dots> = placeLevel ?w (?f b' (n, [i])) (map (?f b') (Lv (side x)))" by (rule map_placeLevel)
  also have "map (?f b') (Lv (side x)) = sideOrders b Lv (side x)" using same by (simp add: sideOrders_def)
  also have "?f b' (n, [i]) = [x]" using od by simp
  also have "placeLevel ?w [x] (sideOrders b Lv (side x)) = enterOrder x (sideOrders b Lv (side x))"
    using none by (auto simp: enterOrder_def)
  finally show ?thesis by (simp add: sideOrders_def)
qed

section \<open>All orders of a book\<close>

definition bookOrders :: "OrderBook \<Rightarrow> layout \<Rightarrow> Order list" where
  "bookOrders b Lv = concat (sideOrders b Lv BUY) @ concat (sideOrders b Lv SELL)"

lemma concat_sideOrders: "concat (sideOrders b Lv sd) = map (\<lambda>i. the (odata (ords b) i)) (concat (map snd (Lv sd)))"
  by (simp add: sideOrders_def map_concat comp_def)

lemma orders_dom:
  assumes "book_ok b Lv"
  shows "dom (odata (ords b)) = set (concat (map snd (Lv BUY)) @ concat (map snd (Lv SELL)))"
  using book_okD(7) [OF assms] by auto

lemma set_bookOrders:
  assumes "book_ok b Lv"
  shows "set (bookOrders b Lv) = ran (odata (ords b))"
proof -
  have "set (bookOrders b Lv) = (\<lambda>i. the (odata (ords b) i)) ` dom (odata (ords b))"
    unfolding orders_dom [OF assms] by (simp add: bookOrders_def concat_sideOrders image_Un image_UN del: set_concat)
  also have "\<dots> = ran (odata (ords b))" by (force simp: ran_def)
  finally show ?thesis .
qed

lemma card_orders_le:
  assumes "book_ok b Lv"
  shows "card (dom (odata (ords b))) \<le> length (bookOrders b Lv)"
  unfolding orders_dom [OF assms] by (rule order_trans [OF card_length]) (simp add: bookOrders_def concat_sideOrders)

section \<open>Resting\<close>

definition newOrder ::
    "TickerID \<Rightarrow> ClientID \<Rightarrow> OrderID \<Rightarrow> OrderID \<Rightarrow> Side \<Rightarrow> Price \<Rightarrow> Qty \<Rightarrow> Priority \<Rightarrow> Order" where
  "newOrder t c k m sd px q pr =
     \<lparr>tickerId = t, clientId = c, clientOrderId = k, marketOrderId = m, side = sd, price = px, qty = q,
      priority = pr, prev = None, nxt = None\<rparr>"

lemma newOrder_simps [simp]:
  "clientId (newOrder t c k m sd px q pr) = c" "clientOrderId (newOrder t c k m sd px q pr) = k"
  "side (newOrder t c k m sd px q pr) = sd" "price (newOrder t c k m sd px q pr) = px"
  "qty (newOrder t c k m sd px q pr) = q" "strip (newOrder t c k m sd px q pr) = newOrder t c k m sd px q pr"
  by (simp_all add: newOrder_def strip_def)

definition unknownTo :: "OrderBook \<Rightarrow> layout \<Rightarrow> ClientID \<Rightarrow> OrderID \<Rightarrow> bool" where
  "unknownTo b Lv c k \<longleftrightarrow> (\<forall>x\<in>set (bookOrders b Lv). \<not> (clientId x = c \<and> clientOrderId x = k))"

lemma addOrderToBook_ok:
  assumes ok: "book_ok b Lv" and pend: "pending b P1 i x" and slot: "slotFree b Lv (side x) (price x)"
  shows "\<exists>b' Lv'. addOrderToBook (b\<lparr>orderPool := P1\<rparr>) (Some i) = Inr b' \<and> book_ok b' Lv' \<and>
    odata (ords b') = (odata (ords b))(i \<mapsto> x) \<and> registers b' = registers b \<and>
    sideOrders b' Lv' (side x) = enterOrder x (sideOrders b Lv (side x)) \<and>
    sideOrders b' Lv' (opposite (side x)) = sideOrders b Lv (opposite (side x))"
proof -
  have sd: "side x \<in> sides" and i: "i \<notin> dom (odata (ords b))" using pend by (auto simp: pending_def)
  have other: "sideOrders b' (Lv(side x := A)) (opposite (side x)) = sideOrders b Lv (opposite (side x))"
    if "odata (ords b') = (odata (ords b))(i \<mapsto> x)" for b' A
  proof (rule sideOrders_cong)
    show "(Lv(side x := A)) (opposite (side x)) = Lv (opposite (side x))" using opposite_sides(2) [OF sd] by simp
    show "odata (ords b') j = odata (ords b) j" if "j \<in> members (Lv (opposite (side x)))" for j
      using that i book_side_facts(4) [OF ok opposite_sides(1)] \<open>odata (ords b') = _\<close> by auto
  qed
  from ok sd slot show ?thesis
  proof (cases rule: slotFree_cases)
    case none
    from open_level_ok [OF ok pend none(1)] enter_view_open [OF ok sd none(2) i] other show ?thesis by metis
  next
    case (some A l os B L)
    from join_level_ok [OF ok pend some(1,2,3)] enter_view_join [OF ok sd some(1,9,10) i] other show ?thesis by metis
  qed
qed

theorem restOrder_ok:
  assumes ok: "book_ok b Lv" and pos: "allPositive b" and me: "me_ok me" and sd: "sd \<in> sides" and q: "q \<noteq> 0"
    and ids: "unat c < MAX_N_CLIENTS" "unat k < MAX_ORDER_IDS" and room: "length (bookOrders b Lv) < MAX_ORDER_IDS"
    and new: "unknownTo b Lv c k" and slot: "slotFree b Lv sd px"
  defines "pr \<equiv> nextPriority px (sideOrders b Lv sd)"
  shows "\<exists>b' me' Lv'. restOrder b me c k t sd px q m = Inr (b', me') \<and> book_ok b' Lv' \<and> allPositive b' \<and>
    assignedTicker b' = assignedTicker b \<and> nextMarketOid b' = nextMarketOid b \<and>
    sideOrders b' Lv' sd = enterOrder (newOrder t c k m sd px q pr) (sideOrders b Lv sd) \<and>
    sideOrders b' Lv' (opposite sd) = sideOrders b Lv (opposite sd) \<and>
    emits me [] [addedUpdate m t sd px q pr] me'"
proof -
  let ?x = "newOrder t c k m sd px q pr"
  have "card (dom (odata (ords b))) < MAX_ORDER_IDS" using card_orders_le [OF ok] room by simp
  from allocate_order [OF book_okD(4) [OF ok] this, of ?x] obtain i P1 where P1: "allocate (ords b) ?x = Inr (Some i, P1)"
    "i \<notin> dom (odata (ords b))" "odata P1 = (odata (ords b))(i \<mapsto> ?x)" "onext P1 = (onext (ords b))(i := nxt ?x)"
    "oprev P1 = (oprev (ords b))(i := prev ?x)" "opool_ok P1"
    by auto
  have "velem (velem (mapClientIdToOrder b) (unat c)) (unat k) = None"
  proof (rule ccontr)
    assume "velem (velem (mapClientIdToOrder b) (unat c)) (unat k) \<noteq> None"
    then obtain p y where y: "odata (ords b) p = Some y" "unat (clientId y) = unat c" "unat (clientOrderId y) = unat k"
      using book_okD(3) [OF ok] ids unfolding clients_ok_def by fastforce
    then have "y \<in> set (bookOrders b Lv)" using set_bookOrders [OF ok] by (auto simp: ran_def)
    with new y(2,3) show False unfolding unknownTo_def by (metis word_unat_eq_iff)
  qed
  then have pend: "pending b P1 i ?x" using P1 ids sd by (simp add: pending_def)
  obtain b' Lv' where b': "addOrderToBook (b\<lparr>orderPool := P1\<rparr>) (Some i) = Inr b'" "book_ok b' Lv'"
    "odata (ords b') = (odata (ords b))(i \<mapsto> ?x)" "registers b' = registers b"
    "sideOrders b' Lv' sd = enterOrder ?x (sideOrders b Lv sd)" "sideOrders b' Lv' (opposite sd) = sideOrders b Lv (opposite sd)"
    using addOrderToBook_ok [OF ok pend] slot by auto
  obtain me' where me': "publishMarketUpdate me (addedUpdate m t sd px q pr) = Inr me'"
    "emits me [] [addedUpdate m t sd px q pr] me'" using publish_emits [OF me] by blast
  have run: "restOrder b me c k t sd px q m = Inr (b'\<lparr>marketUpdate := addedUpdate m t sd px q pr\<rparr>, me')"
    using getNextPriority_ok [OF ok sd slot] P1(1) b'(1) me'(1)
    by (simp add: restOrder_def newOrder_def pr_def setUpdate_def Let_def del: bind_res_eq_Inr)
  have "allPositive b'" using pos b'(3) q by (simp add: allPositive_def)
  moreover have "assignedTicker b' = assignedTicker b" "nextMarketOid b' = nextMarketOid b"
    using b'(4) by (simp_all add: registers_def)
  ultimately show ?thesis using run b'(2,5,6) me'(2)
    by (intro exI [of _ "b'\<lparr>marketUpdate := _\<rparr>"] exI [of _ me'] exI [of _ Lv']) (simp add: allPositive_def sideOrders_def)
qed

section \<open>The two requests\<close>

text \<open>The slot of the price after matching: on the order's side only the price's own level may sit
  there, on the opposite side no level that matching leaves.\<close>

definition noCollision :: "OrderBook \<Rightarrow> layout \<Rightarrow> Side \<Rightarrow> Price \<Rightarrow> bool" where
  "noCollision b Lv sd px \<longleftrightarrow>
     (\<forall>os\<in>set (sideOrders b Lv sd). priceToIndex (price (hd os)) = priceToIndex px \<longrightarrow> price (hd os) = px) \<and>
     (\<forall>os\<in>set (dropWhile (crossing sd px) (sideOrders b Lv (opposite sd))). priceToIndex (price (hd os)) \<noteq> priceToIndex px)"

definition admissible :: "OrderBook \<Rightarrow> layout \<Rightarrow> ClientID \<Rightarrow> OrderID \<Rightarrow> Side \<Rightarrow> Price \<Rightarrow> bool" where
  "admissible b Lv c k sd px \<longleftrightarrow> sd \<in> sides \<and> unat c < MAX_N_CLIENTS \<and> unat k < MAX_ORDER_IDS \<and>
     length (bookOrders b Lv) < MAX_ORDER_IDS \<and> unknownTo b Lv c k \<and> noCollision b Lv sd px"

lemma sides_opposite: "sd \<in> sides \<Longrightarrow> sides = {sd, opposite sd}"
  by (auto simp: opposite_def)

lemma length_concat_dropWhile: "length (concat (dropWhile P xs)) \<le> length (concat xs)"
  by (induction xs) auto

lemma set_concat_dropWhile: "set (concat (dropWhile P xs)) \<subseteq> set (concat xs)"
  using set_dropWhileD by fastforce

lemma orders_by_side:
  assumes "sd \<in> sides"
  shows "length (bookOrders b Lv) = length (concat (sideOrders b Lv sd)) + length (concat (sideOrders b Lv (opposite sd)))"
    and "set (bookOrders b Lv) = set (concat (sideOrders b Lv sd)) \<union> set (concat (sideOrders b Lv (opposite sd)))"
  using assms by (auto simp: bookOrders_def opposite_def)

lemma rest_conditions:
  assumes adm: "admissible b Lv c k sd px"
    and opp: "sideOrders b1 Lv1 (opposite sd) = dropWhile (crossing sd px) (sideOrders b Lv (opposite sd))"
    and own: "sideOrders b1 Lv1 sd = sideOrders b Lv sd"
  shows "length (bookOrders b1 Lv1) < MAX_ORDER_IDS" "unknownTo b1 Lv1 c k" "slotFree b1 Lv1 sd px"
proof -
  have sd: "sd \<in> sides" using adm by (simp add: admissible_def)
  note len = orders_by_side(1) [OF sd] and set = orders_by_side(2) [OF sd]
  show "length (bookOrders b1 Lv1) < MAX_ORDER_IDS"
    using adm length_concat_dropWhile [of "crossing sd px" "sideOrders b Lv (opposite sd)"]
    unfolding admissible_def len own opp by linarith
  show "unknownTo b1 Lv1 c k"
    using adm set_concat_dropWhile [of "crossing sd px" "sideOrders b Lv (opposite sd)"]
    unfolding admissible_def unknownTo_def set own opp by blast
  show "slotFree b1 Lv1 sd px"
    using adm unfolding slotFree_def admissible_def noCollision_def sides_opposite [OF sd] own [symmetric] opp [symmetric] by auto
qed

theorem addOrder_ok:
  assumes ok: "book_ok b Lv" and pos: "allPositive b" and me: "me_ok me" and st: "noStray stray" and q: "q \<noteq> 0"
    and adm: "admissible b Lv c k sd px"
  defines "m \<equiv> nextMarketOid b" and "pr \<equiv> nextPriority px (sideOrders b Lv sd)"
    and "hit \<equiv> concat (takeWhile (crossing sd px) (sideOrders b Lv (opposite sd)))"
  shows "\<exists>b' me' Lv' rests. addOrder stray b me c k t sd px q = Inr (b', me') \<and> book_ok b' Lv' \<and> allPositive b' \<and>
    assignedTicker b' = assignedTicker b \<and> nextMarketOid b' = m + 1 \<and>
    sideOrders b' Lv' sd = enterOrder (newOrder t c k m sd px q pr) (sideOrders b Lv sd) \<and>
    sideOrders b' Lv' (opposite sd) = dropWhile (crossing sd px) (sideOrders b Lv (opposite sd)) \<and>
    length rests = length (sweepFills q hit) \<and>
    emits me (acceptedResponse c t k m sd px q # sweepResponses c t k m sd q hit rests)
      (sweepUpdates t sd q hit @ [addedUpdate m t sd px q pr]) me'"
proof -
  have sd: "sd \<in> sides" and ids: "unat c < MAX_N_CLIENTS" "unat k < MAX_ORDER_IDS" using adm by (auto simp: admissible_def)
  let ?acc = "acceptedResponse c t k m sd px q" and ?b0 = "b\<lparr>nextMarketOid := m + 1, clientResponse := acceptedResponse c t k m sd px q\<rparr>"
  obtain me0 where me0: "dispatchClientResponse me ?acc = Inr me0" "emits me [?acc] [] me0" using dispatch_emits [OF me] by blast
  have v0: "sideOrders ?b0 Lv s = sideOrders b Lv s" for s by (simp add: sideOrders_def)
  have ok0: "book_ok ?b0 Lv" "allPositive ?b0" using ok pos by (simp_all add: allPositive_def)
  obtain b1 me1 Lv1 rests where m: "matchLoop stray t c sd k m px q ?b0 me0 = Inr (b1, me1)" "book_ok b1 Lv1" "allPositive b1"
    "sideOrders b1 Lv1 (opposite sd) = dropWhile (crossing sd px) (sideOrders b Lv (opposite sd))"
    "sideOrders b1 Lv1 sd = sideOrders b Lv sd" "assignedTicker b1 = assignedTicker b" "nextMarketOid b1 = m + 1"
    "length rests = length (sweepFills q hit)" "emits me0 (sweepResponses c t k m sd q hit rests) (sweepUpdates t sd q hit) me1"
    using matchLoop_ok [OF ok0(1) emits_ok [OF me0(2)] st sd q ok0(2), of t c k m px] by (auto simp: v0 hit_def)
  note rc = rest_conditions [OF adm m(4,5)]
  obtain b' me' Lv' where r: "restOrder b1 me1 c k t sd px q m = Inr (b', me')" "book_ok b' Lv'" "allPositive b'"
    "assignedTicker b' = assignedTicker b" "nextMarketOid b' = m + 1"
    "sideOrders b' Lv' sd = enterOrder (newOrder t c k m sd px q pr) (sideOrders b Lv sd)"
    "sideOrders b' Lv' (opposite sd) = dropWhile (crossing sd px) (sideOrders b Lv (opposite sd))"
    "emits me1 [] [addedUpdate m t sd px q pr] me'"
    using restOrder_ok [OF m(2,3) emits_ok [OF m(9)] sd q ids rc, of t m] m(4-7) by (auto simp: pr_def)
  have "addOrder stray b me c k t sd px q = Inr (b', me')"
    using me0(1) m(1) r(1) q
    by (simp add: addOrder_def getNewMarketOrderId_def findMatch_def setResponse_def Let_def m_def del: bind_res_eq_Inr)
  moreover have "emits me (?acc # sweepResponses c t k m sd q hit rests) (sweepUpdates t sd q hit @ [addedUpdate m t sd px q pr]) me'"
    using emits_trans [OF emits_trans [OF me0(2) m(9)] r(8)] by simp
  ultimately show ?thesis using r(2-7) m(8) by blast
qed

text \<open>A quantity of zero is acknowledged and leaves no order behind.\<close>

lemma addOrder_zero:
  fixes b
  assumes me: "me_ok me"
  defines "m \<equiv> nextMarketOid b"
  shows "\<exists>me'. addOrder stray b me c k t sd px 0 =
      Inr (b\<lparr>nextMarketOid := m + 1, clientResponse := acceptedResponse c t k m sd px 0\<rparr>, me') \<and>
    emits me [acceptedResponse c t k m sd px 0] [] me'"
proof -
  obtain me' where "dispatchClientResponse me (acceptedResponse c t k m sd px 0) = Inr me'"
    "emits me [acceptedResponse c t k m sd px 0] [] me'" using dispatch_emits [OF me] by blast
  then show ?thesis
    by (simp add: addOrder_def getNewMarketOrderId_def findMatch_def setResponse_def Let_def m_def matchLoop.simps del: bind_res_eq_Inr)
qed

section \<open>Cancelling\<close>

definition isOrder :: "ClientID \<Rightarrow> OrderID \<Rightarrow> Order \<Rightarrow> bool" where
  "isOrder c k x \<longleftrightarrow> clientId x = c \<and> clientOrderId x = k"

definition dropOrder :: "ClientID \<Rightarrow> OrderID \<Rightarrow> Order list list \<Rightarrow> Order list list" where
  "dropOrder c k ls = filter (\<lambda>os. os \<noteq> []) (map (filter (\<lambda>x. \<not> isOrder c k x)) ls)"

lemma withdraw_view:
  assumes key: "\<And>j. j \<in> members A \<Longrightarrow> isOrder c k (d j) \<longleftrightarrow> j = i"
    and same: "\<And>j. j \<in> members A \<Longrightarrow> j \<noteq> i \<Longrightarrow> d' j = d j"
  shows "map (\<lambda>e. map d' (snd e)) (withdraw i A) = dropOrder c k (map (\<lambda>e. map d (snd e)) A)"
  using assms
proof (induction A)
  case (Cons e A)
  have "filter (\<lambda>x. \<not> isOrder c k x) (map d (snd e)) = map d (filter (\<lambda>j. j \<noteq> i) (snd e))"
  proof -
    have "filter (\<lambda>x. \<not> isOrder c k (d x)) (snd e) = filter (\<lambda>j. j \<noteq> i) (snd e)"
      using Cons.prems(1) by (intro filter_cong) auto
    then show ?thesis by (simp add: filter_map comp_def)
  qed
  also have "\<dots> = map d' (filter (\<lambda>j. j \<noteq> i) (snd e))" using Cons.prems(2) by auto
  finally show ?case using Cons by (auto simp: withdraw_def dropOrder_def split: prod.splits)
qed (simp_all add: withdraw_def dropOrder_def)

lemma order_key:
  assumes ok: "book_ok b Lv" and "odata (ords b) i = Some x" "odata (ords b) j = Some y"
    and "clientId y = clientId x" "clientOrderId y = clientOrderId x"
  shows "j = i"
proof -
  have "velem (velem (mapClientIdToOrder b) (unat (clientId x))) (unat (clientOrderId x)) = Some i"
    "velem (velem (mapClientIdToOrder b) (unat (clientId y))) (unat (clientOrderId y)) = Some j"
    using book_okD(3) [OF ok] assms(2,3) unfolding clients_ok_def by blast+
  with assms(4,5) show ?thesis by simp
qed

lemma lookup_known:
  assumes ok: "book_ok b Lv" and x: "odata (ords b) i = Some x"
  shows "lookupOrder b (clientId x) (clientOrderId x) = Inr (Some i)"
proof -
  from book_okD(3) [OF ok] x have "unat (clientId x) < MAX_N_CLIENTS" "unat (clientOrderId x) < MAX_ORDER_IDS"
    "velem (velem (mapClientIdToOrder b) (unat (clientId x))) (unat (clientOrderId x)) = Some i"
    unfolding clients_ok_def by blast+
  with book_okD(3) [OF ok] show ?thesis by (simp add: lookupOrder_def clients_ok_def)
qed

theorem cancelOrder_known:
  assumes ok: "book_ok b Lv" and pos: "allPositive b" and me: "me_ok me"
    and x: "x \<in> set (bookOrders b Lv)" "clientId x = c" "clientOrderId x = k"
  shows "\<exists>b' me' Lv'. cancelOrder b me c k t = Inr (b', me') \<and> book_ok b' Lv' \<and> allPositive b' \<and>
    assignedTicker b' = assignedTicker b \<and> nextMarketOid b' = nextMarketOid b \<and>
    (\<forall>sd\<in>sides. sideOrders b' Lv' sd = dropOrder c k (sideOrders b Lv sd)) \<and>
    emits me [cancelledResponse c t k x] [cancelUpdate t x] me'"
proof -
  obtain i where i: "odata (ords b) i = Some x" using x(1) set_bookOrders [OF ok] by (auto simp: ran_def)
  obtain o0 where o0: "deref (ords b) (Some i) = Inr o0" "strip o0 = x" using deref_order [OF i] by auto
  have msg: "cancelledResponse c t k o0 = cancelledResponse c t k x" "cancelUpdate t o0 = cancelUpdate t x"
    unfolding o0(2) [symmetric] by (simp_all add: cancelledResponse_def cancelUpdate_def)
  let ?b1 = "b\<lparr>clientResponse := cancelledResponse c t k x, marketUpdate := cancelUpdate t x\<rparr>"
  obtain b' where b': "removeOrderFromBook ?b1 (Some i) = Inr b'" "book_ok b' (\<lambda>sd. withdraw i (Lv sd))"
    "odata (ords b') = (odata (ords b))(i := None)" "registers b' = registers ?b1"
    using removeOrderFromBook_ok [of ?b1 Lv i x] ok i by auto
  have reg: "assignedTicker b' = assignedTicker b" "nextMarketOid b' = nextMarketOid b"
    "clientResponse b' = cancelledResponse c t k x" "marketUpdate b' = cancelUpdate t x"
    using b'(4) by (simp_all add: registers_def)
  obtain me1 where me1: "publishMarketUpdate me (cancelUpdate t x) = Inr me1" "emits me [] [cancelUpdate t x] me1"
    using publish_emits [OF me] by blast
  obtain me' where me': "dispatchClientResponse me1 (cancelledResponse c t k x) = Inr me'"
    "emits me1 [cancelledResponse c t k x] [] me'" using dispatch_emits [OF emits_ok [OF me1(2)]] by blast
  have run: "cancelOrder b me c k t = Inr (b', me')"
    using lookup_known [OF ok i] x(2,3) o0(1) msg b'(1) reg me1(1) me'(1)
    by (simp add: cancelOrder_def rdO_def setResponse_def setUpdate_def Let_def del: bind_res_eq_Inr deref_eq_Inr)
  have view: "sideOrders b' (\<lambda>sd. withdraw i (Lv sd)) sd = dropOrder c k (sideOrders b Lv sd)" if sd: "sd \<in> sides" for sd
    unfolding sideOrders_def
  proof (rule withdraw_view)
    fix j assume "j \<in> members (Lv sd)"
    then obtain y where y: "odata (ords b) j = Some y" using book_side_facts(4) [OF ok sd] by auto
    then show "isOrder c k (the (odata (ords b) j)) \<longleftrightarrow> j = i"
      using order_key [OF ok i y] x(2,3) i by (auto simp: isOrder_def)
    show "the (odata (ords b') j) = the (odata (ords b) j)" if "j \<noteq> i" using that b'(3) by simp
  qed
  have "allPositive b'" using pos b'(3) by (simp add: allPositive_def)
  moreover have "emits me [cancelledResponse c t k x] [cancelUpdate t x] me'" using emits_trans [OF me1(2) me'(2)] by simp
  ultimately show ?thesis using run b'(2) reg view by blast
qed

theorem cancelOrder_unknown:
  assumes ok: "book_ok b Lv" and me: "me_ok me" and new: "unknownTo b Lv c k"
    and k: "unat c < MAX_N_CLIENTS \<longrightarrow> unat k < MAX_ORDER_IDS"
  shows "\<exists>me'. cancelOrder b me c k t = Inr (b\<lparr>clientResponse := rejectedResponse c t k\<rparr>, me') \<and>
    emits me [rejectedResponse c t k] [] me'"
proof -
  have "lookupOrder b c k = Inr None"
  proof (cases "unat c < MAX_N_CLIENTS")
    case True
    have "velem (velem (mapClientIdToOrder b) (unat c)) (unat k) = None"
    proof (rule ccontr)
      assume "velem (velem (mapClientIdToOrder b) (unat c)) (unat k) \<noteq> None"
      then obtain p y where y: "odata (ords b) p = Some y" "unat (clientId y) = unat c" "unat (clientOrderId y) = unat k"
        using book_okD(3) [OF ok] k True unfolding clients_ok_def by fastforce
      then have "y \<in> set (bookOrders b Lv)" using set_bookOrders [OF ok] by (auto simp: ran_def)
      with new y(2,3) show False unfolding unknownTo_def by (metis word_unat_eq_iff)
    qed
    with True k book_okD(3) [OF ok] show ?thesis by (simp add: lookupOrder_def clients_ok_def)
  next
    case False
    with book_okD(3) [OF ok] show ?thesis by (simp add: lookupOrder_def clients_ok_def)
  qed
  moreover obtain me' where "dispatchClientResponse me (rejectedResponse c t k) = Inr me'" "emits me [rejectedResponse c t k] [] me'"
    using dispatch_emits [OF me] by blast
  ultimately show ?thesis by (simp add: cancelOrder_def setResponse_def Let_def del: bind_res_eq_Inr)
qed

lemma cancelOrder_throws:
  assumes ok: "book_ok b Lv" and "unat c < MAX_N_CLIENTS" "MAX_ORDER_IDS \<le> unat k"
  shows "cancelOrder b me c k t = Inl (Uncaught ''std::out_of_range'')"
  using assms book_okD(3) [OF ok] by (simp add: cancelOrder_def lookupOrder_def clients_ok_def vat_def)

end
