(* ===== verification/Book_Spec.thy ===== *)
theory Book_Spec
  imports Book_Requests
begin

text \<open>
  The specification of the order book and the refinement. An abstract book is, for each side, a
  list of price levels, each a list of orders; a request is a function on it. Every acceptable
  request completes on the modelled book and does what the function says. The second part is about
  the specification itself: when it keeps prices in order and the two sides apart.
\<close>

section \<open>Simulation\<close>

text \<open>
  The interface between a component that can fail and its specification: under the specification's
  conditions one step succeeds and stays related. Runs of steps then do the same.
\<close>

fun allowed :: "('a \<Rightarrow> 'r \<Rightarrow> bool) \<Rightarrow> ('a \<Rightarrow> 'r \<Rightarrow> 'a) \<Rightarrow> 'a \<Rightarrow> 'r list \<Rightarrow> bool" where
  "allowed P g a [] \<longleftrightarrow> True"
| "allowed P g a (r # rs) \<longleftrightarrow> P a r \<and> allowed P g (g a r) rs"

lemma allowed_append:
  "allowed P g a (rs @ qs) \<longleftrightarrow> allowed P g a rs \<and> allowed P g (foldl g a rs) qs"
  by (induction rs arbitrary: a) auto

locale simulation =
  fixes R :: "'c \<Rightarrow> 'a \<Rightarrow> bool"
    and cstep :: "'c \<Rightarrow> 'r \<Rightarrow> 'c res"
    and astep :: "'a \<Rightarrow> 'r \<Rightarrow> 'a"
    and guard :: "'a \<Rightarrow> 'r \<Rightarrow> bool"
  assumes step: "R c a \<Longrightarrow> guard a r \<Longrightarrow> \<exists>c'. cstep c r = Inr c' \<and> R c' (astep a r)"
begin

lemma runs: "R c a \<Longrightarrow> allowed guard astep a rs \<Longrightarrow> \<exists>c'. runAll cstep c rs = Inr c' \<and> R c' (foldl astep a rs)"
proof (induction rs arbitrary: c a)
  case (Cons r rs)
  from step [OF Cons.prems(1)] Cons.prems(2) obtain c1 where "cstep c r = Inr c1" "R c1 (astep a r)" by auto
  with Cons.IH Cons.prems(2) show ?case by auto
qed simp

end

section \<open>The abstract book\<close>

record AbstractBook =
  levels :: "Side \<Rightarrow> Order list list"
  nextId :: OrderID

definition emptyBook :: AbstractBook where
  "emptyBook = \<lparr>levels = (\<lambda>_. []), nextId = 1\<rparr>"

definition allOrders :: "AbstractBook \<Rightarrow> Order list" where
  "allOrders A = concat (levels A BUY) @ concat (levels A SELL)"

datatype request =
    AddRequest ClientID OrderID Side Price Qty
  | CancelRequest ClientID OrderID

text \<open>What a request does to the two sides. The order that enters keeps its whole quantity, and
  every crossing level of the opposite side goes.\<close>

fun specRequest :: "TickerID \<Rightarrow> AbstractBook \<Rightarrow> request \<Rightarrow> AbstractBook" where
  "specRequest t A (AddRequest c k sd px q) =
     (if q = 0 then A\<lparr>nextId := nextId A + 1\<rparr>
      else \<lparr>levels = (levels A)
              (sd := enterOrder (newOrder t c k (nextId A) sd px q (nextPriority px (levels A sd))) (levels A sd),
               opposite sd := dropWhile (crossing sd px) (levels A (opposite sd))),
            nextId = nextId A + 1\<rparr>)"
| "specRequest t A (CancelRequest c k) = A\<lparr>levels := (\<lambda>sd. dropOrder c k (levels A sd))\<rparr>"

text \<open>What a request sends: the market updates, and the client responses, in which what the code finds at
  \<open>*qtyRemains\<close> is free.\<close>

abbreviation crossed :: "AbstractBook \<Rightarrow> Side \<Rightarrow> Price \<Rightarrow> Order list" where
  "crossed A sd px \<equiv> concat (takeWhile (crossing sd px) (levels A (opposite sd)))"

fun specUpdates :: "TickerID \<Rightarrow> AbstractBook \<Rightarrow> request \<Rightarrow> OMEMarketUpdate list" where
  "specUpdates t A (AddRequest c k sd px q) =
     (if q = 0 then []
      else sweepUpdates t sd q (crossed A sd px) @ [addedUpdate (nextId A) t sd px q (nextPriority px (levels A sd))])"
| "specUpdates t A (CancelRequest c k) =
     (case find (isOrder c k) (allOrders A) of None \<Rightarrow> [] | Some x \<Rightarrow> [cancelUpdate t x])"

fun specResponses :: "TickerID \<Rightarrow> AbstractBook \<Rightarrow> Qty list \<Rightarrow> request \<Rightarrow> OMEClientResponse list" where
  "specResponses t A rests (AddRequest c k sd px q) =
     acceptedResponse c t k (nextId A) sd px q #
     (if q = 0 then [] else sweepResponses c t k (nextId A) sd q (crossed A sd px) rests)"
| "specResponses t A rests (CancelRequest c k) =
     (case find (isOrder c k) (allOrders A) of None \<Rightarrow> [rejectedResponse c t k] | Some x \<Rightarrow> [cancelledResponse c t k x])"

fun openRests :: "AbstractBook \<Rightarrow> request \<Rightarrow> nat" where
  "openRests A (AddRequest c k sd px q) = (if q = 0 then 0 else length (sweepFills q (crossed A sd px)))"
| "openRests A (CancelRequest c k) = 0"

text \<open>The conditions: valid side and identifiers, a free block, a client order identifier that is
  not in use, and no other price in the slot of the price array.\<close>

fun acceptable :: "AbstractBook \<Rightarrow> request \<Rightarrow> bool" where
  "acceptable A (AddRequest c k sd px q) \<longleftrightarrow> q = 0 \<or>
     sd \<in> sides \<and> unat c < MAX_N_CLIENTS \<and> unat k < MAX_ORDER_IDS \<and> length (allOrders A) < MAX_ORDER_IDS \<and>
     (\<forall>x\<in>set (allOrders A). \<not> isOrder c k x) \<and>
     (\<forall>os\<in>set (levels A sd). priceToIndex (price (hd os)) = priceToIndex px \<longrightarrow> price (hd os) = px) \<and>
     (\<forall>os\<in>set (dropWhile (crossing sd px) (levels A (opposite sd))). priceToIndex (price (hd os)) \<noteq> priceToIndex px)"
| "acceptable A (CancelRequest c k) \<longleftrightarrow> (unat c < MAX_N_CLIENTS \<longrightarrow> unat k < MAX_ORDER_IDS)"

text \<open>The same request on the modelled book.\<close>

fun runRequest :: "stray \<Rightarrow> TickerID \<Rightarrow> OrderBook \<times> MEQueues \<Rightarrow> request \<Rightarrow> (OrderBook \<times> MEQueues) res" where
  "runRequest stray t (b, me) (AddRequest c k sd px q) = addOrder stray b me c k t sd px q"
| "runRequest stray t (b, me) (CancelRequest c k) = cancelOrder b me c k t"

definition represents :: "OrderBook \<times> MEQueues \<Rightarrow> AbstractBook \<Rightarrow> bool" where
  "represents s A \<longleftrightarrow> me_ok (snd s) \<and> nextMarketOid (fst s) = nextId A \<and> allPositive (fst s) \<and>
     (\<exists>Lv. book_ok (fst s) Lv \<and> (\<forall>sd\<in>sides. sideOrders (fst s) Lv sd = levels A sd))"

lemma representsE:
  assumes "represents (b, me) A"
  obtains Lv where "me_ok me" "nextMarketOid b = nextId A" "allPositive b" "book_ok b Lv"
    "sideOrders b Lv BUY = levels A BUY" "sideOrders b Lv SELL = levels A SELL" "bookOrders b Lv = allOrders A"
    "\<forall>sd\<in>sides. sideOrders b Lv sd = levels A sd"
  using assms by (auto simp: represents_def bookOrders_def allOrders_def)

lemma representsI:
  assumes "me_ok me" "nextMarketOid b = nextId A" "allPositive b" "book_ok b Lv"
    "\<And>sd. sd \<in> sides \<Longrightarrow> sideOrders b Lv sd = levels A sd"
  shows "represents (b, me) A"
  using assms by (auto simp: represents_def)

lemma add_simulates:
  fixes c k sd px q
  defines "r \<equiv> AddRequest c k sd px q"
  assumes rep: "represents (b, me) A" and acc: "acceptable A r" and st: "noStray stray"
  shows "\<exists>b' me' rests. addOrder stray b me c k t sd px q = Inr (b', me') \<and> represents (b', me') (specRequest t A r) \<and>
    length rests = openRests A r \<and> emits me (specResponses t A rests r) (specUpdates t A r) me'"
proof -
  from rep obtain Lv where r: "me_ok me" "nextMarketOid b = nextId A" "allPositive b" "book_ok b Lv"
    "sideOrders b Lv BUY = levels A BUY" "sideOrders b Lv SELL = levels A SELL" "bookOrders b Lv = allOrders A"
    and views: "\<forall>sd\<in>sides. sideOrders b Lv sd = levels A sd"
    by (rule representsE)
  note v = bspec [OF views]
  show ?thesis
  proof (cases "q = 0")
    case True
    obtain me' where "addOrder stray b me c k t sd px 0 =
        Inr (b\<lparr>nextMarketOid := nextId A + 1, clientResponse := acceptedResponse c t k (nextId A) sd px 0\<rparr>, me')"
      "emits me [acceptedResponse c t k (nextId A) sd px 0] [] me'"
      using addOrder_zero [OF r(1), of stray b c k t sd px] r(2) by metis
    with True r v emits_ok show ?thesis
      by (auto simp: r_def sideOrders_def allPositive_def intro!: representsI [where Lv = Lv])
  next
    case False
    then have sd: "sd \<in> sides" and adm: "admissible b Lv c k sd px"
      using acc v [of sd] v [OF opposite_sides(1) [of sd]] r(7)
      by (simp_all add: r_def admissible_def noCollision_def unknownTo_def isOrder_def)
    from addOrder_ok [OF r(4,3,1) st False adm, of t] obtain b' me' Lv' rests where b':
      "addOrder stray b me c k t sd px q = Inr (b', me')" "book_ok b' Lv'" "allPositive b'" "nextMarketOid b' = nextId A + 1"
      "sideOrders b' Lv' sd = enterOrder (newOrder t c k (nextId A) sd px q (nextPriority px (levels A sd))) (levels A sd)"
      "sideOrders b' Lv' (opposite sd) = dropWhile (crossing sd px) (levels A (opposite sd))"
      "length rests = openRests A r" "emits me (specResponses t A rests r) (specUpdates t A r) me'"
      unfolding r(2) v [OF sd] v [OF opposite_sides(1)] by (auto simp: r_def False)
    have "represents (b', me') (specRequest t A r)"
    proof (rule representsI [OF emits_ok [OF b'(8)] _ b'(3,2)])
      show "sideOrders b' Lv' s = levels (specRequest t A r) s" if "s \<in> sides" for s
      proof -
        have "s = sd \<or> s = opposite sd" using that sd by (auto simp: opposite_def)
        then show ?thesis using False b'(5,6) opposite_sides(2) [OF sd] by (auto simp: r_def)
      qed
    qed (simp add: False b'(4) r_def)
    with b'(1,7,8) show ?thesis by blast
  qed
qed

lemma cancel_simulates:
  fixes c k
  defines "r \<equiv> CancelRequest c k"
  assumes rep: "represents (b, me) A" and acc: "acceptable A r"
  shows "\<exists>b' me'. cancelOrder b me c k t = Inr (b', me') \<and> represents (b', me') (specRequest t A r) \<and>
    emits me (specResponses t A [] r) (specUpdates t A r) me'"
proof -
  from rep obtain Lv where r: "me_ok me" "nextMarketOid b = nextId A" "allPositive b" "book_ok b Lv"
    "sideOrders b Lv BUY = levels A BUY" "sideOrders b Lv SELL = levels A SELL" "bookOrders b Lv = allOrders A"
    and views: "\<forall>sd\<in>sides. sideOrders b Lv sd = levels A sd"
    by (rule representsE)
  note v = bspec [OF views]
  show ?thesis
  proof (cases "find (isOrder c k) (allOrders A)")
    case None
    then have none: "\<forall>x\<in>set (allOrders A). \<not> isOrder c k x" by (auto simp: find_None_iff)
    then have "unknownTo b Lv c k" by (simp add: unknownTo_def isOrder_def r(7))
    from cancelOrder_unknown [OF r(4,1) this] acc obtain me' where
      me': "cancelOrder b me c k t = Inr (b\<lparr>clientResponse := rejectedResponse c t k\<rparr>, me')" "emits me [rejectedResponse c t k] [] me'"
      by (fastforce simp: r_def)
    have "dropOrder c k (levels A sd) = levels A sd" if sd: "sd \<in> sides" for sd
    proof -
      have "\<forall>x\<in>set (concat (levels A sd)). \<not> isOrder c k x" using none sd by (auto simp: allOrders_def)
      moreover have "[] \<notin> set (levels A sd)"
        using book_level_ok [OF r(4) sd] unfolding v [OF sd, symmetric] by (auto simp: sideOrders_def level_ok_def)
      ultimately show ?thesis unfolding dropOrder_def by (induction "levels A sd") (auto simp: filter_id_conv map_idI)
    qed
    with me' emits_ok [OF me'(2)] None r v show ?thesis
      by (auto simp: r_def sideOrders_def allPositive_def intro!: representsI [where Lv = Lv])
  next
    case (Some x)
    then have x: "x \<in> set (bookOrders b Lv)" "clientId x = c" "clientOrderId x = k"
      by (auto simp: find_Some_iff isOrder_def r(7))
    from cancelOrder_known [OF r(4,3,1) x, of t] obtain b' me' Lv' where b':
      "cancelOrder b me c k t = Inr (b', me')" "book_ok b' Lv'" "allPositive b'" "nextMarketOid b' = nextId A"
      "\<forall>sd\<in>sides. sideOrders b' Lv' sd = dropOrder c k (levels A sd)" "emits me [cancelledResponse c t k x] [cancelUpdate t x] me'"
      using r(2) v by metis
    have "represents (b', me') (specRequest t A r)"
      using b' emits_ok [OF b'(6)] by (auto simp: r_def intro!: representsI [where Lv = Lv'])
    with b'(1,6) Some show ?thesis by (auto simp: r_def)
  qed
qed

text \<open>Every acceptable request completes, does what the specification says and sends what it says.\<close>

lemma request_simulates:
  assumes "represents (b, me) A" "acceptable A r"
  shows "\<exists>b' me' rests. runRequest (\<lambda>b k. Some (f b k)) t (b, me) r = Inr (b', me') \<and> represents (b', me') (specRequest t A r) \<and>
    length rests = openRests A r \<and> emits me (specResponses t A rests r) (specUpdates t A r) me'"
proof (cases r)
  case (AddRequest c k sd px q)
  have "noStray (\<lambda>b k. Some (f b k))" by (simp add: noStray_def)
  from add_simulates [OF assms [unfolded AddRequest] this, of t] show ?thesis unfolding AddRequest by simp
next
  case (CancelRequest c k)
  from cancel_simulates [OF assms [unfolded CancelRequest], of t] obtain b' me' where
    "cancelOrder b me c k t = Inr (b', me')" "represents (b', me') (specRequest t A (CancelRequest c k))"
    "emits me (specResponses t A [] (CancelRequest c k)) (specUpdates t A (CancelRequest c k)) me'" by blast
  then show ?thesis unfolding CancelRequest by (intro exI [of _ b'] exI [of _ me'] exI [of _ "[]"]) simp
qed

text \<open>A new book is empty.\<close>

lemma init_represents:
  assumes "me_ok me"
  shows "\<exists>b. OrderBook_init t = Inr b \<and> represents (b, me) emptyBook \<and> assignedTicker b = t"
proof -
  obtain lp :: "OrdersAtPrice MemoryPool" where lp: "MemoryPool_init MAX_PRICE_LEVELS = Inr lp" "pool_wf lp" "live lp = Map.empty"
    "vsize (memoryBlocks lp) = MAX_PRICE_LEVELS" using MemoryPool_init_wf [of MAX_PRICE_LEVELS] by (auto simp: limits)
  obtain op :: "Order MemoryPool" where op: "MemoryPool_init MAX_ORDER_IDS = Inr op" "pool_wf op" "live op = Map.empty"
    "vsize (memoryBlocks op) = MAX_ORDER_IDS" using MemoryPool_init_wf [of MAX_ORDER_IDS] by (auto simp: limits)
  have e: "odata op = Map.empty" "ldata lp = Map.empty" using lp(3) op(3) by (auto simp: odata_def ldata_def)
  obtain b where b: "OrderBook_init t = Inr b" "ords b = op" "lvls b = lp" "bidsByPrice b = None" "asksByPrice b = None"
    "mapPriceToPriceLevel b = vfill MAX_PRICE_LEVELS None" "assignedTicker b = t" "nextMarketOid b = 1"
    "mapClientIdToOrder b = vfill MAX_N_CLIENTS (vfill MAX_ORDER_IDS None)"
    using lp(1) op(1) by (simp add: OrderBook_init_def)
  have "book_ok b (\<lambda>_. [])"
    using e lp op by (auto simp: book_ok_def b side_ok_def bestOrdersByPrice_def slots_ok_def clients_ok_def opool_ok_def lpool_ok_def)
  with b(1,7,8) assms show ?thesis
    by (auto simp: emptyBook_def allPositive_def e b(2) sideOrders_def intro!: representsI)
qed

interpretation book: simulation represents "runRequest (\<lambda>b k. Some (f b k)) t" "specRequest t" acceptable for f t
proof
  fix s A r assume "represents s A" "acceptable A r"
  with request_simulates [of "fst s" "snd s" A r f t]
  show "\<exists>s'. runRequest (\<lambda>b k. Some (f b k)) t s r = Inr s' \<and> represents s' (specRequest t A r)" by auto
qed

section \<open>Price order and crossing\<close>

definition rank :: "Side \<Rightarrow> Price \<Rightarrow> int" where
  "rank sd px = (if sd = SELL then sint px else - sint px)"

lemma worsePrice_rank: "worsePrice sd p q \<longleftrightarrow> rank sd q < rank sd p"
  by (simp add: worsePrice_def rank_def)

lemma rank_inj: "rank sd p = rank sd q \<longleftrightarrow> p = q"
  by (metis rank_def neg_equal_iff_equal word_eq_iff_signed)

text \<open>Levels from the best price to the worst.\<close>

definition inOrder :: "Side \<Rightarrow> Order list list \<Rightarrow> bool" where
  "inOrder sd ls \<longleftrightarrow> sorted_wrt (<) (map (\<lambda>os. rank sd (price (hd os))) ls)"

text \<open>Placing a value into an ascending list goes wrong in exactly one case.\<close>

lemma placeLevel_sorted:
  fixes v :: int
  assumes s: "sorted_wrt (<) xs" and v: "v \<notin> set xs"
  shows "sorted_wrt (<) (placeLevel (\<lambda>y. y < v) v xs) \<longleftrightarrow> \<not> (2 \<le> length xs \<and> (\<forall>y\<in>set xs. y < v))"
proof (cases xs)
  case (Cons h t)
  consider (better) "\<not> h < v" | (worst) "h < v" "dropWhile (\<lambda>y. y < v) t = []" | (between) z zs where "h < v" "dropWhile (\<lambda>y. y < v) t = z # zs"
    by (cases "dropWhile (\<lambda>y. y < v) t") auto
  then show ?thesis
  proof cases
    case better
    with s v Cons show ?thesis by fastforce
  next
    case worst
    then have "\<forall>y\<in>set t. y < v" by (simp add: dropWhile_eq_Nil_conv)
    with worst s v Cons show ?thesis by (cases t) auto
  next
    case between
    define us where "us = takeWhile (\<lambda>y. y < v) t"
    have t: "t = us @ z # zs" using between(2) unfolding us_def by (metis takeWhile_dropWhile_id)
    have z: "\<not> z < v" using between(2) by (metis hd_dropWhile list.distinct(1) list.sel(1))
    then have zv: "v < z" using v Cons t by auto
    have "\<forall>y\<in>set us. y < v" unfolding us_def by (auto dest: set_takeWhileD)
    with s Cons t zv between(1) have "sorted_wrt (<) (h # us @ v # z # zs)" by (auto simp: sorted_wrt_append)
    moreover have "placeLevel (\<lambda>y. y < v) v xs = h # us @ v # z # zs" using Cons between by (simp add: us_def)
    moreover have "z \<in> set xs" using Cons t by simp
    ultimately show ?thesis using z by metis
  qed
qed simp

lemma enterOrder_inOrder:
  assumes s: "inOrder (side x) ls" and ne: "[] \<notin> set ls"
  shows "inOrder (side x) (enterOrder x ls) \<longleftrightarrow>
    \<not> (2 \<le> length ls \<and> (\<forall>os\<in>set ls. worsePrice (side x) (price x) (price (hd os))))"
proof (cases "\<exists>os\<in>set ls. atPrice (price x) os")
  case True
  have "map (\<lambda>os. rank (side x) (price (hd os))) (enterOrder x ls) = map (\<lambda>os. rank (side x) (price (hd os))) ls"
    using True ne by (auto simp: enterOrder_def hd_append)
  moreover have "\<not> (\<forall>os\<in>set ls. worsePrice (side x) (price x) (price (hd os)))"
    using True unfolding atPrice_def worsePrice_rank by (metis less_irrefl)
  ultimately show ?thesis using s by (simp add: inOrder_def)
next
  case False
  let ?r = "\<lambda>os. rank (side x) (price (hd os))" and ?v = "rank (side x) (price x)"
  have "map ?r (enterOrder x ls) = placeLevel (\<lambda>y. y < ?v) ?v (map ?r ls)"
    using False map_placeLevel [of ?r "\<lambda>y. y < ?v" "[x]" ls] by (simp add: enterOrder_def worsePrice_rank)
  moreover have "?v \<notin> set (map ?r ls)" using False rank_inj by (auto simp: atPrice_def)
  ultimately show ?thesis using placeLevel_sorted [of "map ?r ls" ?v] s by (simp add: inOrder_def worsePrice_rank)
qed

text \<open>
  The invariant of a healthy book: no empty level, one price per level, both sides in price order, and
  every bid below every ask.
\<close>

definition healthy :: "AbstractBook \<Rightarrow> bool" where
  "healthy A \<longleftrightarrow> (\<forall>sd\<in>sides. [] \<notin> set (levels A sd) \<and> inOrder sd (levels A sd) \<and>
       (\<forall>os\<in>set (levels A sd). \<forall>x\<in>set os. price x = price (hd os))) \<and>
     (\<forall>bid\<in>set (levels A BUY). \<forall>ask\<in>set (levels A SELL). sint (price (hd bid)) < sint (price (hd ask)))"

text \<open>The request that \<open>addPriceLevel\<close> misplaces: a price worse than all of at least two levels.\<close>

definition beyondAll :: "AbstractBook \<Rightarrow> request \<Rightarrow> bool" where
  "beyondAll A r = (case r of
     AddRequest c k sd px q \<Rightarrow> 2 \<le> length (levels A sd) \<and> (\<forall>os\<in>set (levels A sd). worsePrice sd px (price (hd os)))
   | CancelRequest c k \<Rightarrow> False)"

lemma dropOrder_prices:
  assumes "[] \<notin> set ls" "\<forall>os\<in>set ls. \<forall>x\<in>set os. price x = price (hd os)"
  shows "os \<in> set (dropOrder c k ls) \<Longrightarrow> \<exists>os'\<in>set ls. price (hd os) = price (hd os') \<and> set os \<subseteq> set os' \<and> os \<noteq> []"
proof -
  assume "os \<in> set (dropOrder c k ls)"
  then obtain os' where o: "os' \<in> set ls" "os = filter (\<lambda>x. \<not> isOrder c k x) os'" "os \<noteq> []" by (auto simp: dropOrder_def)
  then have "hd os \<in> set os'" by (metis filter_is_subset hd_in_set subsetD)
  with assms(2) o show ?thesis by auto
qed

lemma dropOrder_inOrder:
  assumes "inOrder sd ls" "[] \<notin> set ls" "\<forall>os\<in>set ls. \<forall>x\<in>set os. price x = price (hd os)"
  shows "inOrder sd (dropOrder c k ls)"
  using assms
proof (induction ls)
  case (Cons os ls)
  have IH: "inOrder sd (dropOrder c k ls)" using Cons by (simp add: inOrder_def)
  have below: "rank sd (price (hd os)) < rank sd (price (hd os'))" if "os' \<in> set (dropOrder c k ls)" for os'
  proof -
    from dropOrder_prices [OF _ _ that] Cons.prems obtain z where "z \<in> set ls" "price (hd os') = price (hd z)" by auto
    with Cons.prems(1) show ?thesis by (simp add: inOrder_def)
  qed
  let ?os = "filter (\<lambda>x. \<not> isOrder c k x) os"
  show ?case
  proof (cases "?os = []")
    case True
    then show ?thesis using IH by (simp add: dropOrder_def)
  next
    case False
    have "hd ?os \<in> set ?os" using False by (rule hd_in_set)
    then have "price (hd ?os) = price (hd os)" using Cons.prems(3) by simp
    moreover have "dropOrder c k (os # ls) = ?os # dropOrder c k ls" using False by (simp add: dropOrder_def)
    ultimately show ?thesis using IH below by (simp add: inOrder_def)
  qed
qed (simp add: inOrder_def dropOrder_def)

lemma cancel_healthy:
  assumes "healthy A"
  shows "healthy (specRequest t A (CancelRequest c k))"
proof -
  have side: "[] \<notin> set (levels A sd)" "inOrder sd (levels A sd)" "\<forall>os\<in>set (levels A sd). \<forall>x\<in>set os. price x = price (hd os)"
    if "sd \<in> sides" for sd using assms that by (auto simp: healthy_def)
  have new: "[] \<notin> set (dropOrder c k (levels A sd)) \<and> inOrder sd (dropOrder c k (levels A sd)) \<and>
      (\<forall>os\<in>set (dropOrder c k (levels A sd)). \<forall>x\<in>set os. price x = price (hd os))" if sd: "sd \<in> sides" for sd
  proof (intro conjI ballI)
    show "[] \<notin> set (dropOrder c k (levels A sd))" by (auto simp: dropOrder_def)
    show "inOrder sd (dropOrder c k (levels A sd))" by (rule dropOrder_inOrder [OF side(2,1,3) [OF sd]])
    fix os x assume "os \<in> set (dropOrder c k (levels A sd))" "x \<in> set os"
    with dropOrder_prices [OF side(1,3) [OF sd]] side(3) [OF sd] show "price x = price (hd os)" by (metis subsetD)
  qed
  have "sint (price (hd bid)) < sint (price (hd ask))"
    if "bid \<in> set (dropOrder c k (levels A BUY))" "ask \<in> set (dropOrder c k (levels A SELL))" for bid ask
    using dropOrder_prices [OF side(1,3) [of BUY] that(1)] dropOrder_prices [OF side(1,3) [of SELL] that(2)] assms
    unfolding healthy_def by (metis insertCI)
  with new show ?thesis by (simp add: healthy_def)
qed

lemma noCross_rank: "sd \<in> sides \<Longrightarrow> noCross sd px x \<longleftrightarrow> 0 < rank sd px + rank (opposite sd) (price x)"
  by (auto simp: noCross_def rank_def opposite_def)

lemma healthy_sides:
  assumes "sd \<in> sides"
  shows "healthy A \<longleftrightarrow> (\<forall>s\<in>{sd, opposite sd}. [] \<notin> set (levels A s) \<and> inOrder s (levels A s) \<and>
       (\<forall>os\<in>set (levels A s). \<forall>x\<in>set os. price x = price (hd os))) \<and>
     (\<forall>os\<in>set (levels A sd). \<forall>os'\<in>set (levels A (opposite sd)). 0 < rank sd (price (hd os)) + rank (opposite sd) (price (hd os')))"
  using assms by (auto simp: healthy_def opposite_def rank_def)

lemma enterOrder_levels:
  assumes "os \<in> set (enterOrder x ls)"
  shows "os = [x] \<or> os \<in> set ls \<or> (\<exists>os'\<in>set ls. price (hd os') = price x \<and> os = os' @ [x])"
  using assms by (auto simp: enterOrder_def atPrice_def split: if_splits)

lemma enterOrder_uniform:
  assumes "[] \<notin> set ls" "\<forall>os\<in>set ls. \<forall>x\<in>set os. price x = price (hd os)" "os \<in> set (enterOrder x ls)"
  shows "os \<noteq> []" "y \<in> set os \<Longrightarrow> price y = price (hd os)" "price (hd os) = price x \<or> (\<exists>os'\<in>set ls. price (hd os) = price (hd os'))"
  using enterOrder_levels [OF assms(3)] assms(1,2) by (auto simp: hd_append)

text \<open>What is left of the opposite side does not cross.\<close>

lemma dropWhile_uncrossed:
  assumes sd: "sd \<in> sides" and ord: "inOrder (opposite sd) ls" and os: "os \<in> set (dropWhile (crossing sd px) ls)"
  shows "0 < rank sd px + rank (opposite sd) (price (hd os))"
  using ord os
proof (induction ls)
  case (Cons z zs)
  show ?case
  proof (cases "crossing sd px z")
    case True
    with Cons show ?thesis by (simp add: inOrder_def)
  next
    case False
    then have "0 < rank sd px + rank (opposite sd) (price (hd z))" using noCross_rank [OF sd] by (simp add: crossing_def)
    moreover have "os = z \<or> rank (opposite sd) (price (hd z)) < rank (opposite sd) (price (hd os))"
      using False Cons.prems by (auto simp: inOrder_def)
    ultimately show ?thesis by auto
  qed
qed simp

lemma add_healthy:
  assumes h: "healthy A" and acc: "acceptable A (AddRequest c k sd px q)" and place: "\<not> beyondAll A (AddRequest c k sd px q)"
  shows "healthy (specRequest t A (AddRequest c k sd px q))"
proof (cases "q = 0")
  case True
  with h show ?thesis by (simp add: healthy_def)
next
  case False
  then have sd: "sd \<in> sides" using acc by simp
  let ?x = "newOrder t c k (nextId A) sd px q (nextPriority px (levels A sd))" and ?opp = "opposite sd"
  let ?own = "enterOrder ?x (levels A sd)" and ?left = "dropWhile (crossing sd px) (levels A ?opp)"
  have own: "[] \<notin> set (levels A sd)" "inOrder sd (levels A sd)" "\<forall>os\<in>set (levels A sd). \<forall>x\<in>set os. price x = price (hd os)"
    and opp: "[] \<notin> set (levels A ?opp)" "inOrder ?opp (levels A ?opp)" "\<forall>os\<in>set (levels A ?opp). \<forall>x\<in>set os. price x = price (hd os)"
    and apart: "\<forall>os\<in>set (levels A sd). \<forall>os'\<in>set (levels A ?opp). 0 < rank sd (price (hd os)) + rank ?opp (price (hd os'))"
    using h unfolding healthy_sides [OF sd] by auto
  have "inOrder sd ?own" using enterOrder_inOrder [of ?x "levels A sd"] own(1,2) place by (simp add: beyondAll_def)
  moreover have "inOrder ?opp ?left"
    using opp(2) unfolding inOrder_def by (metis dropWhile_eq_drop drop_map sorted_wrt_drop)
  moreover have "0 < rank sd (price (hd os)) + rank ?opp (price (hd os'))" if "os \<in> set ?own" "os' \<in> set ?left" for os os'
    using enterOrder_uniform(3) [OF own(1,3) that(1)] dropWhile_uncrossed [OF sd opp(2) that(2)] apart set_dropWhileD [OF that(2)]
    by auto
  moreover have "[] \<notin> set ?own" "\<forall>os\<in>set ?own. \<forall>x\<in>set os. price x = price (hd os)"
    using enterOrder_uniform(1,2) [OF own(1,3)] by blast+
  moreover have "[] \<notin> set ?left" "\<forall>os\<in>set ?left. \<forall>x\<in>set os. price x = price (hd os)"
    using opp(1,3) set_dropWhileD by metis+
  ultimately show ?thesis using False opposite_sides(2) [OF sd] unfolding healthy_sides [OF sd] by simp
qed

lemma empty_healthy: "healthy emptyBook"
  by (simp add: healthy_def emptyBook_def inOrder_def)

end
