(* ===== verification/Book_Properties.thy ===== *)
theory Book_Properties
  imports Book_Spec
begin

text \<open>
  The properties of the order book, stated for the modelled code, with runs on a book of
  production size as witnesses and examples.
\<close>

section \<open>Shared facts\<close>

definition newQueues :: MEQueues where
  "newQueues = \<lparr>txResponses = LFQueue_init OMEClientResponse_default MAX_CLIENT_UPDATES,
     txMarketUpdates = LFQueue_init OMEMarketUpdate_default MAX_MARKET_UPDATES\<rparr>"

lemma newQueues_ok [simp]: "me_ok newQueues"
  by (simp add: me_ok_def newQueues_def LFQueue_init_wf limits)

abbreviation strayZero :: stray where
  "strayZero \<equiv> \<lambda>b k. Some 0"

lemma allowed_mono:
  "allowed P g a rs \<Longrightarrow> (\<And>a r. P a r \<Longrightarrow> Q a r) \<Longrightarrow> allowed Q g a rs"
  by (induction rs arbitrary: a) auto

lemma request_healthy:
  "healthy A \<Longrightarrow> acceptable A r \<Longrightarrow> \<not> beyondAll A r \<Longrightarrow> healthy (specRequest t A r)"
  by (cases r) (auto intro: add_healthy cancel_healthy simp del: acceptable.simps specRequest.simps)

lemma requests_healthy:
  "allowed (\<lambda>A r. acceptable A r \<and> \<not> beyondAll A r) (specRequest t) A rs \<Longrightarrow> healthy A \<Longrightarrow>
   healthy (foldl (specRequest t) A rs)"
  by (induction rs arbitrary: A) (simp_all add: request_healthy)

lemma init_and_run:
  assumes "me_ok me" "allowed acceptable (specRequest t) emptyBook rs"
  shows "\<exists>b s. OrderBook_init t = Inr b \<and> runAll (runRequest (\<lambda>b k. Some (f b k)) t) (b, me) rs = Inr s \<and>
    represents s (foldl (specRequest t) emptyBook rs)"
  using init_represents [OF assms(1), of t] book.runs [OF _ assms(2)] by blast

lemmas spec_eval =
  emptyBook_def allOrders_def isOrder_def enterOrder_def placeLevel.simps atPrice_def nextPriority_def
  newOrder_def opposite_def crossing_def noCross_def worsePrice_def priceToIndex_def limits dropOrder_def
  beyondAll_def inOrder_def rank_def

lemma represents_cong:
  "represents s A \<Longrightarrow> nextId A' = nextId A \<Longrightarrow> (\<And>sd. sd \<in> sides \<Longrightarrow> levels A' sd = levels A sd) \<Longrightarrow> represents s A'"
  by (auto simp: represents_def)

lemma represents_nonempty:
  assumes "represents s A" "sd \<in> sides"
  shows "[] \<notin> set (levels A sd)"
proof -
  obtain Lv where "book_ok (fst s) Lv" "levels A sd = sideOrders (fst s) Lv sd"
    using assms by (auto simp: represents_def)
  moreover from this(1) have "\<forall>e\<in>set (Lv sd). snd e \<noteq> []"
    using book_level_ok [OF _ assms(2)] by (fastforce simp: level_ok_def)
  ultimately show ?thesis by (auto simp: sideOrders_def)
qed

lemma placeLevel_splits: "\<exists>us vs. ls = us @ vs \<and> placeLevel P n ls = us @ n # vs"
proof (cases ls)
  case (Cons h t)
  show ?thesis
  proof (cases "P h \<and> dropWhile P t \<noteq> []")
    case True
    with Cons show ?thesis by (intro exI [of _ "h # takeWhile P t"] exI [of _ "dropWhile P t"]) auto
  next
    case False
    then consider "\<not> P h" | "P h" "dropWhile P t = []" by blast
    then show ?thesis
    proof cases
      case 1
      with Cons show ?thesis by (intro exI [of _ "[]"] exI [of _ ls]) auto
    next
      case 2
      then have "placeLevel P n ls = [h] @ n # t" using Cons by simp
      with Cons show ?thesis by (intro exI [of _ "[h]"] exI [of _ t]) simp
    qed
  qed
qed simp

lemma dropOrder_same:
  "[] \<notin> set ls \<Longrightarrow> \<forall>x\<in>set (concat ls). \<not> isOrder c k x \<Longrightarrow> dropOrder c k ls = ls"
  unfolding dropOrder_def by (induction ls) (auto simp: filter_id_conv)

lemma drop_entered:
  assumes ne: "[] \<notin> set ls" and new: "\<forall>y\<in>set (concat ls). \<not> isOrder c k y" and x: "isOrder c k x"
  shows "dropOrder c k (enterOrder x ls) = ls"
proof (cases "\<exists>os\<in>set ls. atPrice (price x) os")
  case True
  let ?keep = "filter (\<lambda>x. \<not> isOrder c k x)"
  have "?keep (if atPrice (price x) os then os @ [x] else os) = os" if "os \<in> set ls" for os
    using new x that by (auto simp: filter_id_conv)
  then have "map (\<lambda>os. ?keep (if atPrice (price x) os then os @ [x] else os)) ls = ls" by (simp add: map_idI)
  then show ?thesis using True ne by (auto simp: dropOrder_def enterOrder_def comp_def filter_id_conv)
next
  case False
  let ?w = "\<lambda>os. worsePrice (side x) (price x) (price (hd os))"
  have "enterOrder x ls = placeLevel ?w [x] ls" using False by (simp add: enterOrder_def)
  then obtain us vs where "ls = us @ vs" "enterOrder x ls = us @ [x] # vs"
    using placeLevel_splits [of ls ?w "[x]"] by auto
  moreover from this have "dropOrder c k us = us" "dropOrder c k vs = vs"
    using ne new by (auto intro!: dropOrder_same)
  ultimately show ?thesis using x by (simp add: dropOrder_def)
qed

lemma sweepTrades_total:
  assumes "q \<noteq> 0"
  shows "(\<Sum>u\<leftarrow>sweepTrades t sd q xs. unat (mu_qty u)) = (\<Sum>x\<leftarrow>xs. unat (qty x))"
proof (induction xs)
  case (Cons x xs)
  have "(\<Sum>u\<leftarrow>map (tradeUpdate t sd x) (chunks q (qty x)). unat (mu_qty u)) = unat (qty x)"
    using chunks_total [OF assms, of "qty x"] by (simp add: comp_def tradeUpdate_def)
  with Cons show ?case by (simp add: sweepTrades_def comp_def)
qed (simp add: sweepTrades_def)

lemmas run_eval = newQueues_def exec_simps Let_def nextFreeLoop.simps findTarget.simps matchLoop.simps
  acceptedResponse_def addedUpdate_def

section \<open>Properties\<close>

text \<open>C2: any sequence of acceptable requests, run on a new book, completes without a fault (no null or dangling
  pointer, no index out of range, no failed assertion, no endless loop; the stray read of \<open>matchOrder\<close> gives some value \<open>f\<close>), and the book then holds exactly what the
  specification says: the same levels in the same order with the same orders, and the same next identifier.\<close>

theorem requests_run:
  assumes "me_ok me" "allowed acceptable (specRequest t) emptyBook rs"
  shows "\<exists>b s. OrderBook_init t = Inr b \<and> runAll (runRequest (\<lambda>b k. Some (f b k)) t) (b, me) rs = Inr s \<and>
    represents s (foldl (specRequest t) emptyBook rs)"
  by (rule init_and_run [OF assms])

theorem requests_run_witness:
  "\<exists>b s. OrderBook_init 1 = Inr b \<and>
    runAll (runRequest strayZero 1) (b, newQueues)
      [AddRequest 1 1 SELL 100 10, AddRequest 1 2 SELL 101 10, AddRequest 2 1 BUY 100 5, CancelRequest 1 2] = Inr s \<and>
    represents s (foldl (specRequest 1) emptyBook
      [AddRequest 1 1 SELL 100 10, AddRequest 1 2 SELL 101 10, AddRequest 2 1 BUY 100 5, CancelRequest 1 2])"
  by (rule requests_run) (simp_all add: spec_eval)

text \<open>C4: a new book stays healthy (both sides in price order, one price per level, every bid below every ask) as long as every
  request is acceptable and not placed beyond all of two or more levels of its side. Acceptable means among other things that no
  other price of the book falls into the same slot of the price array: without that, orders of different prices share a
  level.\<close>

theorem book_stays_healthy:
  assumes "me_ok me" "allowed (\<lambda>A r. acceptable A r \<and> \<not> beyondAll A r) (specRequest t) emptyBook rs"
  shows "\<exists>b s A. OrderBook_init t = Inr b \<and> runAll (runRequest (\<lambda>b k. Some (f b k)) t) (b, me) rs = Inr s \<and>
    represents s A \<and> healthy A"
  using init_and_run [OF assms(1), of t rs f] allowed_mono [OF assms(2), of acceptable] requests_healthy [OF assms(2) empty_healthy]
  by blast

theorem book_stays_healthy_witness:
  "\<exists>b s A. OrderBook_init 1 = Inr b \<and>
    runAll (runRequest strayZero 1) (b, newQueues)
      [AddRequest 1 1 SELL 101 10, AddRequest 1 2 SELL 100 10, AddRequest 2 1 BUY 99 5] = Inr s \<and> represents s A \<and> healthy A"
  by (rule book_stays_healthy) (simp_all add: spec_eval)

text \<open>C5: among acceptable orders the condition of the previous property is exact. Adding an acceptable order of positive quantity (no
  other price in its slot of the price array) to a healthy book keeps the levels of its side in price order if and only if the side
  does not already have two levels that are all better: in that case \<open>addPriceLevel\<close> walks once around the ring and
  inserts the new level right after the best one.\<close>

theorem level_order_kept_iff:
  assumes "represents (b, me) A" "healthy A" "acceptable A (AddRequest c k sd px q)" "q \<noteq> 0"
  shows "\<exists>s'. addOrder (\<lambda>b k. Some (f b k)) b me c k t sd px q = Inr s' \<and>
    represents s' (specRequest t A (AddRequest c k sd px q)) \<and>
    (inOrder sd (levels (specRequest t A (AddRequest c k sd px q)) sd) \<longleftrightarrow> \<not> beyondAll A (AddRequest c k sd px q))"
proof -
  have sd: "sd \<in> sides" using assms(3,4) by simp
  have "inOrder sd (levels A sd)" "[] \<notin> set (levels A sd)" using assms(2) sd by (auto simp: healthy_def)
  from enterOrder_inOrder [of "newOrder t c k (nextId A) sd px q (nextPriority px (levels A sd))" "levels A sd"] this
  have "inOrder sd (levels (specRequest t A (AddRequest c k sd px q)) sd) \<longleftrightarrow> \<not> beyondAll A (AddRequest c k sd px q)"
    using assms(4) opposite_sides(2) [OF sd] by (simp add: beyondAll_def)
  with book.step [of "(b, me)" A "AddRequest c k sd px q"] assms(1,3) show ?thesis by simp
qed

text \<open>With asks at 100 and 101, an ask at 102 is misplaced; one at 99 is not.\<close>

theorem level_order_kept_iff_witness:
  "\<exists>b b1 me1 s2 s3. OrderBook_init 1 = Inr b \<and>
    runAll (runRequest strayZero 1) (b, newQueues) [AddRequest 1 1 SELL 100 10, AddRequest 1 2 SELL 101 10] = Inr (b1, me1) \<and>
    addOrder strayZero b1 me1 1 3 1 SELL 102 10 = Inr s2 \<and> addOrder strayZero b1 me1 1 3 1 SELL 99 10 = Inr s3 \<and>
    (\<exists>A2 A3. represents s2 A2 \<and> \<not> inOrder SELL (levels A2 SELL) \<and> represents s3 A3 \<and> inOrder SELL (levels A3 SELL))"
proof -
  let ?rs = "[AddRequest 1 1 SELL 100 10, AddRequest 1 2 SELL 101 10]"
  define A where "A = foldl (specRequest 1) emptyBook ?rs"
  have "allowed acceptable (specRequest 1) emptyBook ?rs" by (simp add: spec_eval)
  from init_and_run [OF newQueues_ok this, of "\<lambda>_ _. 0"] obtain b b1 me1 where b: "OrderBook_init 1 = Inr b"
    "runAll (runRequest strayZero 1) (b, newQueues) ?rs = Inr (b1, me1)" "represents (b1, me1) A" unfolding A_def by (metis surj_pair)
  have h: "healthy A" by (simp add: A_def healthy_def spec_eval)
  have "acceptable A (AddRequest 1 3 SELL 102 10)" "beyondAll A (AddRequest 1 3 SELL 102 10)" by (simp_all add: A_def spec_eval)
  from level_order_kept_iff [OF b(3) h this(1), of "\<lambda>_ _. 0" 1] this(2) obtain s2 where
    "addOrder strayZero b1 me1 1 3 1 SELL 102 10 = Inr s2" "\<exists>A2. represents s2 A2 \<and> \<not> inOrder SELL (levels A2 SELL)" by (auto simp del: specRequest.simps)
  moreover have "acceptable A (AddRequest 1 3 SELL 99 10)" "\<not> beyondAll A (AddRequest 1 3 SELL 99 10)" by (simp_all add: A_def spec_eval)
  from level_order_kept_iff [OF b(3) h this(1), of "\<lambda>_ _. 0" 1] this(2) obtain s3 where
    "addOrder strayZero b1 me1 1 3 1 SELL 99 10 = Inr s3" "\<exists>A3. represents s3 A3 \<and> inOrder SELL (levels A3 SELL)" by (auto simp del: specRequest.simps)
  ultimately show ?thesis using b(1,2) by blast
qed

text \<open>C8: the consequence. Five valid requests lead to a book whose best ask is 103 although 101 is on offer, and where a
  bid of 102 rests above that ask without having been matched.\<close>

theorem crossed_book_reachable:
  "\<exists>b s A. OrderBook_init 1 = Inr b \<and>
    runAll (runRequest (\<lambda>b k. Some (f b k)) 1) (b, newQueues)
      [AddRequest 1 1 SELL 100 10, AddRequest 1 2 SELL 101 10, AddRequest 1 3 SELL 103 10,
       CancelRequest 1 1, AddRequest 2 1 BUY 102 5] = Inr s \<and>
    represents s A \<and> map (\<lambda>os. price (hd os)) (levels A SELL) = [103, 101] \<and>
    map (\<lambda>os. price (hd os)) (levels A BUY) = [102]"
proof -
  let ?rs = "[AddRequest 1 1 SELL 100 10, AddRequest 1 2 SELL 101 10, AddRequest 1 3 SELL 103 10,
       CancelRequest 1 1, AddRequest 2 1 BUY 102 5]"
  have "allowed acceptable (specRequest 1) emptyBook ?rs" by (simp add: spec_eval)
  from init_and_run [OF newQueues_ok this, of f] obtain b s where "OrderBook_init 1 = Inr b"
    "runAll (runRequest (\<lambda>b k. Some (f b k)) 1) (b, newQueues) ?rs = Inr s"
    "represents s (foldl (specRequest 1) emptyBook ?rs)" by blast
  moreover have "map (\<lambda>os. price (hd os)) (levels (foldl (specRequest 1) emptyBook ?rs) SELL) = [103, 101]"
    "map (\<lambda>os. price (hd os)) (levels (foldl (specRequest 1) emptyBook ?rs) BUY) = [102]" by (simp_all add: spec_eval)
  ultimately show ?thesis
    by (intro exI [of _ b] exI [of _ s] exI [of _ "foldl (specRequest 1) emptyBook ?rs"] conjI)
qed

text \<open>On a side in price order the levels that cross are the ones at its front.\<close>

lemma crossing_front:
  assumes "inOrder (opposite sd) ls" "sd \<in> sides"
  shows "takeWhile (crossing sd px) ls = filter (crossing sd px) ls"
  using assms(1)
proof (induction ls)
  case (Cons os ls)
  have "\<not> crossing sd px ms" if "\<not> crossing sd px os" "ms \<in> set ls" for ms
    using that Cons.prems assms(2) by (auto simp: inOrder_def rank_def crossing_def noCross_def opposite_def split: if_splits)
  moreover have "inOrder (opposite sd) ls" using Cons.prems by (simp add: inOrder_def)
  ultimately show ?case using Cons.IH by (auto simp: filter_empty_conv)
qed simp

text \<open>C6: \<open>matchOrder\<close> decrements the pointer \<open>qtyRemains\<close> and not the quantity. So an acceptable order of any
  positive quantity takes, if every read outside \<open>qtyRemains\<close> gives some value, all orders of the crossing levels at the front
  of the opposite side completely, in fills of at most its own quantity; the total traded is their whole quantity, however small the
  order is, and afterwards the order rests in the book with its full quantity. If the opposite side is in price order, these are
  all its crossing levels; if not, a crossing level behind one that does not cross is left.\<close>

theorem addOrder_takes_all_crossing:
  assumes "represents (b, me) A" "acceptable A (AddRequest c k sd px q)" "q \<noteq> 0"
  defines "m \<equiv> nextMarketOid b" and "pr \<equiv> nextPriority px (levels A sd)"
    and "hit \<equiv> concat (takeWhile (crossing sd px) (levels A (opposite sd)))"
  shows "\<exists>b' me' us. addOrder (\<lambda>b k. Some (f b k)) b me c k t sd px q = Inr (b', me') \<and>
    represents (b', me') \<lparr>levels = (levels A)(sd := enterOrder (newOrder t c k m sd px q pr) (levels A sd),
        opposite sd := dropWhile (crossing sd px) (levels A (opposite sd))), nextId = m + 1\<rparr> \<and>
    contents (txMarketUpdates me') = take (vsize (queue (txMarketUpdates me)))
      (contents (txMarketUpdates me) @ us @ [addedUpdate m t sd px q pr]) \<and>
    trades us = sweepTrades t sd q hit \<and>
    (\<Sum>u\<leftarrow>trades us. unat (mu_qty u)) = (\<Sum>x\<leftarrow>hit. unat (qty x)) \<and>
    (inOrder (opposite sd) (levels A (opposite sd)) \<longrightarrow> hit = concat (filter (crossing sd px) (levels A (opposite sd))))"
proof -
  from assms(1) obtain Lv where r: "me_ok me" "nextMarketOid b = nextId A" "allPositive b" "book_ok b Lv"
    "sideOrders b Lv BUY = levels A BUY" "sideOrders b Lv SELL = levels A SELL" "bookOrders b Lv = allOrders A"
    and views: "\<forall>sd\<in>sides. sideOrders b Lv sd = levels A sd"
    by (rule representsE)
  have sd: "sd \<in> sides" using assms(2,3) by simp
  note v = bspec [OF views sd] bspec [OF views opposite_sides(1) [of sd]]
  have adm: "admissible b Lv c k sd px" and st: "noStray (\<lambda>b k. Some (f b k))"
    using assms(2,3) v r(7) by (simp_all add: admissible_def noCollision_def unknownTo_def isOrder_def noStray_def)
  obtain b' me' rs where run: "addOrder (\<lambda>b k. Some (f b k)) b me c k t sd px q = Inr (b', me')"
    "emits me rs (sweepUpdates t sd q hit @ [addedUpdate m t sd px q pr]) me'"
    using addOrder_ok [OF r(4,3,1) st assms(3) adm, of t] unfolding m_def pr_def hit_def v by blast
  have "represents (b', me') (specRequest t A (AddRequest c k sd px q))"
    using add_simulates [OF assms(1,2) st, of t] run(1) by auto
  then have "represents (b', me') \<lparr>levels = (levels A)(sd := enterOrder (newOrder t c k m sd px q pr) (levels A sd),
        opposite sd := dropWhile (crossing sd px) (levels A (opposite sd))), nextId = m + 1\<rparr>"
    using assms(3) r(2) by (simp add: m_def pr_def)
  moreover have "inOrder (opposite sd) (levels A (opposite sd)) \<longrightarrow> hit = concat (filter (crossing sd px) (levels A (opposite sd)))"
    using crossing_front [OF _ sd] by (simp add: hit_def)
  ultimately show ?thesis using run sweepTrades_total [OF assms(3)] trades_sweepUpdates [of t sd q hit] by (auto simp: emits_def)
qed

text \<open>A bid for 5 takes asks of 10 and 20 and rests with 5.\<close>

theorem addOrder_takes_all_crossing_witness:
  "\<exists>b b1 me1 b2 me2 A us. OrderBook_init 1 = Inr b \<and>
    runAll (runRequest strayZero 1) (b, newQueues) [AddRequest 1 1 SELL 109 7, AddRequest 1 2 SELL 100 10, AddRequest 1 3 SELL 101 20] =
      Inr (b1, me1) \<and>
    addOrder strayZero b1 me1 2 1 1 BUY 101 5 = Inr (b2, me2) \<and> represents (b2, me2) A \<and>
    map (map qty) (levels A BUY) = [[5]] \<and> map (map qty) (levels A SELL) = [[7]] \<and>
    (\<Sum>u\<leftarrow>trades us. unat (mu_qty u)) = 30 \<and>
    contents (txMarketUpdates me2) = take (vsize (queue (txMarketUpdates me1)))
      (contents (txMarketUpdates me1) @ us @ [addedUpdate 4 1 BUY 101 5 1])"
proof -
  let ?rs = "[AddRequest 1 1 SELL 109 7, AddRequest 1 2 SELL 100 10, AddRequest 1 3 SELL 101 20]"
  define B where "B = foldl (specRequest 1) emptyBook ?rs"
  have "allowed acceptable (specRequest 1) emptyBook ?rs" by (simp add: spec_eval)
  from init_and_run [OF newQueues_ok this, of "\<lambda>_ _. 0"] obtain b b1 me1 where b: "OrderBook_init 1 = Inr b"
    "runAll (runRequest strayZero 1) (b, newQueues) ?rs = Inr (b1, me1)" "represents (b1, me1) B" unfolding B_def by (metis surj_pair)
  have "acceptable B (AddRequest 2 1 BUY 101 5)" by (simp add: B_def spec_eval)
  note all = addOrder_takes_all_crossing [OF b(3) this, of "\<lambda>_ _. 0" 1]
  have m: "nextMarketOid b1 = 4" "nextPriority 101 (levels B BUY) = 1" using b(3) by (simp_all add: represents_def B_def spec_eval)
  have hit: "map qty (concat (takeWhile (crossing BUY 101) (levels B (opposite BUY)))) = [10, 20]"
    "map (map qty) (dropWhile (crossing BUY 101) (levels B (opposite BUY))) = [[7]]"
    "map (map qty) (enterOrder (newOrder 1 2 1 4 BUY 101 5 1) (levels B BUY)) = [[5]]" by (simp_all add: B_def spec_eval)
  have "(\<Sum>x\<leftarrow>concat (takeWhile (crossing BUY 101) (levels B (opposite BUY))). unat (qty x)) = sum_list (map unat [10, 20 :: Qty])"
    unfolding hit(1) [symmetric] by (simp add: comp_def)
  then have total: "(\<Sum>x\<leftarrow>concat (takeWhile (crossing BUY 101) (levels B (opposite BUY))). unat (qty x)) = 30" by simp
  from all [unfolded m total] obtain b2 me2 us where u: "addOrder strayZero b1 me1 2 1 1 BUY 101 5 = Inr (b2, me2)"
    "represents (b2, me2) \<lparr>levels = (levels B)(BUY := enterOrder (newOrder 1 2 1 4 BUY 101 5 1) (levels B BUY),
        opposite BUY := dropWhile (crossing BUY 101) (levels B (opposite BUY))), nextId = 4 + 1\<rparr>"
    "(\<Sum>u\<leftarrow>trades us. unat (mu_qty u)) = 30"
    "contents (txMarketUpdates me2) = take (vsize (queue (txMarketUpdates me1)))
      (contents (txMarketUpdates me1) @ us @ [addedUpdate 4 1 BUY 101 5 1])" by auto
  have "opposite BUY = SELL" by (simp add: opposite_def)
  with u hit b(1,2) show ?thesis
    by (intro exI [of _ b] exI [of _ b1] exI [of _ me1] exI [of _ b2] exI [of _ me2] exI conjI) (assumption | simp)+
qed

text \<open>C11: an acceptable order that does not match and is cancelled right away leaves no trace in the book except for the
  market order identifier it used.\<close>

theorem add_then_cancel:
  assumes rep: "represents (b, me) A" and acc: "acceptable A (AddRequest c k sd px q)" and q: "q \<noteq> 0"
    and far: "takeWhile (crossing sd px) (levels A (opposite sd)) = []"
  shows "\<exists>b1 me1 s2. addOrder (\<lambda>b k. Some (f b k)) b me c k t sd px q = Inr (b1, me1) \<and>
    cancelOrder b1 me1 c k t = Inr s2 \<and> represents s2 (A\<lparr>nextId := nextId A + 1\<rparr>)"
proof -
  have sd: "sd \<in> sides" using acc q by simp
  let ?A1 = "specRequest t A (AddRequest c k sd px q)"
  obtain b1 me1 where s1: "addOrder (\<lambda>b k. Some (f b k)) b me c k t sd px q = Inr (b1, me1)" "represents (b1, me1) ?A1"
    using book.step [of "(b, me)" A "AddRequest c k sd px q" f t] rep acc by (auto simp del: specRequest.simps acceptable.simps)
  have ids: "acceptable ?A1 (CancelRequest c k)" using acc q by simp
  obtain s2 where s2: "cancelOrder b1 me1 c k t = Inr s2" "represents s2 (specRequest t ?A1 (CancelRequest c k))"
    using cancel_simulates [OF s1(2) ids, of t] by blast
  have "levels (specRequest t ?A1 (CancelRequest c k)) s = levels A s" if s: "s \<in> sides" for s
  proof -
    have known: "\<forall>y\<in>set (concat (levels A s)). \<not> isOrder c k y" using acc q s by (auto simp: allOrders_def)
    have "dropWhile (crossing sd px) (levels A (opposite sd)) = levels A (opposite sd)"
      using far by (metis append_Nil takeWhile_dropWhile_id)
    moreover have "s = sd \<or> s = opposite sd" using s sd by (auto simp: opposite_def)
    ultimately show ?thesis
      using q drop_entered [OF represents_nonempty [OF rep s] known] dropOrder_same [OF represents_nonempty [OF rep s] known]
        opposite_sides(2) [OF sd] by (auto simp: isOrder_def)
  qed
  then have "represents s2 (A\<lparr>nextId := nextId A + 1\<rparr>)" using q by (intro represents_cong [OF s2(2)]) auto
  with s1(1) s2(1) show ?thesis by blast
qed

theorem add_then_cancel_witness:
  "\<exists>b b1 me1 s2. OrderBook_init 1 = Inr b \<and> addOrder strayZero b newQueues 1 1 1 SELL 100 10 = Inr (b1, me1) \<and>
    cancelOrder b1 me1 1 1 1 = Inr s2 \<and> represents s2 (emptyBook\<lparr>nextId := nextId emptyBook + 1\<rparr>)"
proof -
  obtain b where b: "OrderBook_init 1 = Inr b" "represents (b, newQueues) emptyBook" using init_represents [OF newQueues_ok] by blast
  moreover have "acceptable emptyBook (AddRequest 1 1 SELL 100 10)" by (simp add: spec_eval)
  moreover have "takeWhile (crossing SELL 100) (levels emptyBook (opposite SELL)) = []" by (simp add: emptyBook_def)
  ultimately show ?thesis using add_then_cancel [of b newQueues emptyBook 1 1 SELL 100 10 "\<lambda>_ _. 0" 1] by auto
qed

text \<open>C10: cancelling a resting order takes exactly that order out of its level, drops the level if it was the last one there,
  and sends the cancellation with the order's data to the client and to the market.\<close>

theorem cancel_resting_order:
  assumes "represents (b, me) A" "x \<in> set (allOrders A)" "clientId x = c" "clientOrderId x = k"
  shows "\<exists>b' me'. cancelOrder b me c k t = Inr (b', me') \<and> represents (b', me') (specRequest t A (CancelRequest c k)) \<and>
    emits me [cancelledResponse c t k x] [cancelUpdate t x] me'"
proof -
  from assms(1) obtain Lv where r: "me_ok me" "nextMarketOid b = nextId A" "allPositive b" "book_ok b Lv"
    "sideOrders b Lv BUY = levels A BUY" "sideOrders b Lv SELL = levels A SELL" "bookOrders b Lv = allOrders A"
    by (rule representsE)
  have x: "x \<in> set (bookOrders b Lv)" using assms(2) r(7) by simp
  obtain b' me' where run: "cancelOrder b me c k t = Inr (b', me')" "emits me [cancelledResponse c t k x] [cancelUpdate t x] me'"
    using cancelOrder_known [OF r(4,3,1) x assms(3,4), of t] by blast
  have "unat c < MAX_N_CLIENTS \<and> unat k < MAX_ORDER_IDS"
    using x set_bookOrders [OF r(4)] book_okD(3) [OF r(4)] assms(3,4) unfolding clients_ok_def ran_def by blast
  then have "acceptable A (CancelRequest c k)" by simp
  from cancel_simulates [OF assms(1) this, of t] run show ?thesis by auto
qed

theorem cancel_resting_order_witness:
  "\<exists>b b1 me1 b2 me2. OrderBook_init 1 = Inr b \<and> runAll (runRequest strayZero 1) (b, newQueues) [AddRequest 1 1 SELL 100 10] = Inr (b1, me1) \<and>
    cancelOrder b1 me1 1 1 1 = Inr (b2, me2) \<and>
    emits me1 [cancelledResponse 1 1 1 (newOrder 1 1 1 1 SELL 100 10 1)] [cancelUpdate 1 (newOrder 1 1 1 1 SELL 100 10 1)] me2"
proof -
  let ?rs = "[AddRequest 1 1 SELL 100 10]" and ?x = "newOrder 1 1 1 1 SELL 100 10 1"
  have "allowed acceptable (specRequest 1) emptyBook ?rs" by (simp add: spec_eval)
  from init_and_run [OF newQueues_ok this, of "\<lambda>_ _. 0"] obtain b s where b: "OrderBook_init 1 = Inr b"
    "runAll (runRequest strayZero 1) (b, newQueues) ?rs = Inr s" "represents s (foldl (specRequest 1) emptyBook ?rs)" by blast
  obtain b1 me1 where s: "s = (b1, me1)" by (cases s)
  have "?x \<in> set (allOrders (foldl (specRequest 1) emptyBook ?rs))" by (simp add: spec_eval)
  from cancel_resting_order [OF b(3) [unfolded s] this, of 1 1 1] b(1,2) show ?thesis
    unfolding s by (auto simp del: runAll.simps)
qed

text \<open>Cancelling an order that is not in the book is rejected; the book does not change and the market sees nothing.\<close>

theorem cancel_unknown_order:
  assumes "represents (b, me) A" "\<forall>x\<in>set (allOrders A). \<not> isOrder c k x" "unat c < MAX_N_CLIENTS \<longrightarrow> unat k < MAX_ORDER_IDS"
  shows "\<exists>me'. cancelOrder b me c k t = Inr (b\<lparr>clientResponse := rejectedResponse c t k\<rparr>, me') \<and>
    emits me [rejectedResponse c t k] [] me'"
proof -
  from assms(1) obtain Lv where r: "me_ok me" "nextMarketOid b = nextId A" "allPositive b" "book_ok b Lv"
    "sideOrders b Lv BUY = levels A BUY" "sideOrders b Lv SELL = levels A SELL" "bookOrders b Lv = allOrders A"
    by (rule representsE)
  show ?thesis by (rule cancelOrder_unknown [OF r(4,1) _ assms(3)]) (use assms(2) r(7) in \<open>auto simp: unknownTo_def isOrder_def\<close>)
qed

theorem cancel_unknown_order_witness:
  "\<exists>b me'. OrderBook_init 1 = Inr b \<and> cancelOrder b newQueues 1 7 1 = Inr (b\<lparr>clientResponse := rejectedResponse 1 1 7\<rparr>, me') \<and>
    emits newQueues [rejectedResponse 1 1 7] [] me'"
proof -
  obtain b where b: "OrderBook_init 1 = Inr b" "represents (b, newQueues) emptyBook" using init_represents [OF newQueues_ok] by blast
  moreover have "\<forall>x\<in>set (allOrders emptyBook). \<not> isOrder 1 7 x" by (simp add: spec_eval)
  ultimately show ?thesis using cancel_unknown_order [of b newQueues emptyBook 1 7 1] by (auto simp: limits)
qed

text \<open>C15: a cancel request of a known client with an order identifier of at least \<open>MAX_ORDER_IDS\<close> ends the process:
  \<open>.at()\<close> throws in a function declared \<open>noexcept\<close>.\<close>

theorem cancel_out_of_range_terminates:
  assumes "represents (b, me) A" "unat c < MAX_N_CLIENTS" "MAX_ORDER_IDS \<le> unat k"
  shows "cancelOrder b me c k t = Inl (Uncaught ''std::out_of_range'')"
  using assms(1) by (rule representsE) (rule cancelOrder_throws [OF _ assms(2,3)])

theorem cancel_out_of_range_terminates_witness:
  "\<exists>b. OrderBook_init 1 = Inr b \<and> cancelOrder b newQueues 1 1048576 1 = Inl (Uncaught ''std::out_of_range'')"
proof -
  obtain b where b: "OrderBook_init 1 = Inr b" "represents (b, newQueues) emptyBook" using init_represents [OF newQueues_ok] by blast
  then show ?thesis using cancel_out_of_range_terminates [of b newQueues emptyBook 1 1048576 1] by (simp add: limits)
qed

text \<open>C16: every fill of a positive quantity reads through the pointer after it was moved away from the variable: where that
  memory is not readable, the fill faults.\<close>

theorem fill_reads_outside:
  assumes "live (orderPool b) i = Some x" "qty x \<noteq> 0" "q \<noteq> 0"
  shows "matchOrder (\<lambda>_ _. None) b me t c sd k newOid (Some i) q = Inl StrayRead"
  using assms
  by (auto simp: matchOrder_def rdO_def wrO_def readMoved_def Let_def deref_def live_def assign_def min_def split: if_splits)

theorem fill_reads_outside_witness:
  "\<exists>b b1 me1. OrderBook_init 1 = Inr b \<and> addOrder strayZero b newQueues 1 1 1 SELL 100 10 = Inr (b1, me1) \<and>
    matchOrder (\<lambda>_ _. None) b1 me1 1 2 BUY 1 2 (Some 0) 5 = Inl StrayRead"
proof -
  have "\<exists>b b1 me1 x. OrderBook_init 1 = Inr b \<and> addOrder strayZero b newQueues 1 1 1 SELL 100 10 = Inr (b1, me1) \<and>
    live (orderPool b1) 0 = Some x \<and> qty x = 10"
    by (simp add: run_eval live_def cong: bind_res_weak_cong) blast
  then obtain b b1 me1 x where "OrderBook_init 1 = Inr b" "addOrder strayZero b newQueues 1 1 1 SELL 100 10 = Inr (b1, me1)"
    "live (orderPool b1) 0 = Some x" "qty x = 10" by blast
  with fill_reads_outside [of b1 0 x 5] show ?thesis by auto
qed

text \<open>The matching loop when every stray read gives a value.\<close>

lemma findMatch_benign:
  assumes "represents (b, me) A" "sd \<in> sides" "q \<noteq> 0" and st: "noStray stray"
  shows "\<exists>b' me'. findMatch stray b me c k t sd px q m = Inr (q, b', me') \<and>
    represents (b', me') (A\<lparr>levels := (levels A)(opposite sd := dropWhile (crossing sd px) (levels A (opposite sd)))\<rparr>)"
proof -
  from assms(1) obtain Lv where r: "me_ok me" "nextMarketOid b = nextId A" "allPositive b" "book_ok b Lv"
    "sideOrders b Lv BUY = levels A BUY" "sideOrders b Lv SELL = levels A SELL" "bookOrders b Lv = allOrders A"
    and views: "\<forall>sd\<in>sides. sideOrders b Lv sd = levels A sd"
    by (rule representsE)
  note v = bspec [OF views assms(2)] bspec [OF views opposite_sides(1) [of sd]]
  obtain b' me' Lv' where l: "matchLoop stray t c sd k m px q b me = Inr (b', me')" "book_ok b' Lv'" "allPositive b'"
    "sideOrders b' Lv' (opposite sd) = dropWhile (crossing sd px) (levels A (opposite sd))" "sideOrders b' Lv' sd = levels A sd"
    "nextMarketOid b' = nextId A" "me_ok me'"
    using matchLoop_ok [OF r(4,1) st assms(2,3) r(3), of t c k m px] r(2) emits_ok unfolding v by metis
  have "represents (b', me') (A\<lparr>levels := (levels A)(opposite sd := dropWhile (crossing sd px) (levels A (opposite sd)))\<rparr>)"
  proof (rule representsI [OF l(7) _ l(3,2)])
    fix s assume s: "s \<in> sides"
    then have "s = sd \<or> s = opposite sd" using assms(2) by (auto simp: opposite_def)
    then show "sideOrders b' Lv' s = levels (A\<lparr>levels := (levels A)(opposite sd := dropWhile (crossing sd px) (levels A (opposite sd)))\<rparr>) s"
      using l(4,5) opposite_sides(2) [OF assms(2)] by auto
  qed (simp add: l(6))
  with l(1) show ?thesis by (simp add: findMatch_def)
qed

text \<open>Where a stray read faults the loop ends with that fault; otherwise it does what it does when the read gives a value.\<close>

definition readable :: "stray \<Rightarrow> stray" where
  "readable stray b k = Some (case stray b k of None \<Rightarrow> 0 | Some v \<Rightarrow> v)"

definition unlessStray :: "stray \<Rightarrow> 'a res \<Rightarrow> 'a res \<Rightarrow> bool" where
  "unlessStray stray m m' \<longleftrightarrow> m = m' \<or> m = Inl StrayRead \<and> (\<exists>b k. stray b k = None)"

lemma unlessStray_refl [simp]: "unlessStray stray m m"
  by (simp add: unlessStray_def)

lemma unlessStray_bind:
  "unlessStray stray m m' \<Longrightarrow> (\<And>x. m = Inr x \<Longrightarrow> unlessStray stray (f x) (f' x)) \<Longrightarrow> unlessStray stray (bind_res m f) (bind_res m' f')"
  by (cases m) (auto simp: unlessStray_def bind_res_def)

lemma readMoved_readable: "unlessStray stray (readMoved stray b q k) (readMoved (readable stray) b q k)"
  by (auto simp: unlessStray_def readMoved_def readable_def split: option.split)

lemma matchOrder_readable:
  "unlessStray stray (matchOrder stray b me t c sd k m ord q) (matchOrder (readable stray) b me t c sd k m ord q)"
  unfolding matchOrder_def Let_def by (intro unlessStray_bind unlessStray_refl readMoved_readable)

lemma matchLoop_readable:
  "unlessStray stray (matchLoop stray t c sd k m px q b me) (matchLoop (readable stray) t c sd k m px q b me)"
proof (induction stray t c sd k m px q b me rule: matchLoop.induct)
  case (1 stray t c sd k m px q b me)
  show ?case
  proof (cases "q = 0 \<or> oppositeBest b sd = None")
    case True
    then show ?thesis by (simp add: matchLoop.simps)
  next
    case False
    have "unlessStray stray
        (if noCross sd px first then Inr (b, me)
         else bind_res (matchOrder stray b me t c sd k m (order0 lv) q) (\<lambda>bm. matchLoop stray t c sd k m px q (fst bm) (snd bm)))
        (if noCross sd px first then Inr (b, me)
         else bind_res (matchOrder (readable stray) b me t c sd k m (order0 lv) q)
           (\<lambda>bm. matchLoop (readable stray) t c sd k m px q (fst bm) (snd bm)))"
      if "rdL b (oppositeBest b sd) = Inr lv" "rdO b (order0 lv) = Inr first" for lv first
      using "1.IH" [OF False that] by (auto intro!: unlessStray_bind matchOrder_readable)
    then show ?thesis
      using False by (subst (1 2) matchLoop.simps) (auto intro!: unlessStray_bind)
  qed
qed

text \<open>C9: the matching loop always ends, and its only fault is a read outside \<open>qtyRemains\<close> from memory that is not
  readable, which takes a crossing order. Otherwise \<open>findMatch\<close> reports the quantity it was given, never a smaller remainder,
  and what it leaves of the opposite side starts with a level that does not cross.\<close>

theorem findMatch_leaves_quantity:
  assumes "represents (b, me) A" "sd \<in> sides" "q \<noteq> 0"
  shows "(\<exists>b' me'. findMatch stray b me c k t sd px q m = Inr (q, b', me') \<and>
      represents (b', me') (A\<lparr>levels := (levels A)(opposite sd := dropWhile (crossing sd px) (levels A (opposite sd)))\<rparr>)) \<or>
    (findMatch stray b me c k t sd px q m = Inl StrayRead \<and> (\<exists>b k. stray b k = None) \<and>
      (\<exists>os ls. levels A (opposite sd) = os # ls \<and> crossing sd px os))"
proof -
  have "noStray (readable stray)" by (simp add: noStray_def readable_def)
  note benign = findMatch_benign [OF assms this, of c k t px m]
  have "unlessStray stray (findMatch stray b me c k t sd px q m) (findMatch (readable stray) b me c k t sd px q m)"
    unfolding findMatch_def Let_def by (intro unlessStray_bind matchLoop_readable unlessStray_refl)
  then consider "findMatch stray b me c k t sd px q m = findMatch (readable stray) b me c k t sd px q m"
    | "findMatch stray b me c k t sd px q m = Inl StrayRead" "\<exists>b k. stray b k = None" by (auto simp: unlessStray_def)
  then show ?thesis
  proof cases
    case 1
    with benign show ?thesis by simp
  next
    case 2
    obtain Lv where Lv: "book_ok b Lv" "sideOrders b Lv (opposite sd) = levels A (opposite sd)"
      using assms(1) opposite_sides(1) [of sd] unfolding represents_def by auto
    have "\<exists>os ls. levels A (opposite sd) = os # ls \<and> crossing sd px os"
    proof (rule ccontr)
      assume "\<not> ?thesis"
      then have "levels A (opposite sd) = [] \<or> \<not> crossing sd px (hd (levels A (opposite sd)))"
        by (cases "levels A (opposite sd)") auto
      from matchLoop_stops [OF Lv(1) assms(2) this [folded Lv(2)]] 2(1) show False by (simp add: findMatch_def)
    qed
    with 2 show ?thesis by blast
  qed
qed

theorem findMatch_leaves_quantity_witness:
  "\<exists>b b1 me1 b2 me2. OrderBook_init 1 = Inr b \<and>
    runAll (runRequest strayZero 1) (b, newQueues) [AddRequest 1 1 SELL 100 10] = Inr (b1, me1) \<and>
    findMatch strayZero b1 me1 2 1 1 BUY 100 25 2 = Inr (25, b2, me2)"
proof -
  let ?rs = "[AddRequest 1 1 SELL 100 10]"
  have "allowed acceptable (specRequest 1) emptyBook ?rs" by (simp add: spec_eval)
  from init_and_run [OF newQueues_ok this, of "\<lambda>_ _. 0"] obtain b s where b: "OrderBook_init 1 = Inr b"
    "runAll (runRequest strayZero 1) (b, newQueues) ?rs = Inr s" "represents s (foldl (specRequest 1) emptyBook ?rs)" by blast
  obtain b1 me1 where s: "s = (b1, me1)" by (cases s)
  from findMatch_leaves_quantity [OF b(3) [unfolded s], of BUY 25 strayZero 2 1 1 100 2] b(1,2) show ?thesis
    unfolding s by (auto simp del: runAll.simps)
qed

text \<open>The pool of price levels cannot run out: whenever a price has no level, there is a free block for a new one.\<close>

theorem new_level_has_block:
  assumes "represents (b, me) A" "getLevelForPrice b px = Inr None"
  shows "\<exists>i p'. allocate (ordersAtPricePool b) L = Inr (Some i, p')"
proof -
  from assms(1) obtain Lv where ok: "book_ok b Lv" by (rule representsE)
  have "velem (mapPriceToPriceLevel b) (priceToIndex px) = None" using assms(2) by (simp add: getLevelForPrice_def)
  from allocate_level [OF book_okD(5) [OF ok] level_room [OF book_okD(2) [OF ok] finite_dom_ldata this], of L]
  show ?thesis by auto
qed

theorem new_level_has_block_witness:
  "\<exists>b i p'. OrderBook_init 1 = Inr b \<and> allocate (ordersAtPricePool b)
    \<lparr>level_side = BUY, level_price = 100, order0 = Some 0, level_prev = None, level_next = None\<rparr> = Inr (Some i, p')"
proof -
  obtain b where b: "OrderBook_init 1 = Inr b" "represents (b, newQueues) emptyBook" using init_represents [OF newQueues_ok] by blast
  then have "getLevelForPrice b 100 = Inr None" by (auto simp: run_eval)
  from new_level_has_block [OF b(2) this] b(1) show ?thesis by blast
qed

text \<open>The pool of orders can: when every block is in use, \<open>allocate\<close> returns \<open>nullptr\<close>, which
  \<open>addOrderToBook\<close> dereferences.\<close>

theorem full_order_pool_null_deref:
  assumes "freeBlocksCount (orderPool b) = 0" "getNextPriority b px = Inr pr"
  shows "restOrder b me c k t sd px q m = Inl NullDeref"
  using assms by (simp add: restOrder_def allocate_def addOrderToBook_def rdO_def deref_def)

theorem full_order_pool_null_deref_witness:
  "\<exists>b. OrderBook_init 1 = Inr b \<and>
    restOrder (b\<lparr>orderPool := (orderPool b)\<lparr>freeBlocksCount := 0\<rparr>\<rparr>) newQueues 1 1 1 SELL 100 10 1 = Inl NullDeref"
proof -
  have "\<exists>b. OrderBook_init 1 = Inr b \<and> getNextPriority (b\<lparr>orderPool := (orderPool b)\<lparr>freeBlocksCount := 0\<rparr>\<rparr>) 100 = Inr 1"
    by (simp add: run_eval)
  then obtain b where "OrderBook_init 1 = Inr b"
    "getNextPriority (b\<lparr>orderPool := (orderPool b)\<lparr>freeBlocksCount := 0\<rparr>\<rparr>) 100 = Inr 1" by blast
  then show ?thesis using full_order_pool_null_deref [of "b\<lparr>orderPool := (orderPool b)\<lparr>freeBlocksCount := 0\<rparr>\<rparr>" 100 1] by auto
qed

text \<open>Two bids whose prices differ by 256 end up in one level: \<open>priceToIndex\<close> keeps prices apart only modulo
  \<open>MAX_PRICE_LEVELS\<close>. The bid of 356 queues behind the bid of 100.\<close>

theorem prices_share_level:
  "\<exists>b b' me' L x y. OrderBook_init 1 = Inr b \<and>
    runAll (runRequest strayZero 1) (b, newQueues) [AddRequest 1 1 BUY 100 10, AddRequest 1 2 BUY 356 10] = Inr (b', me') \<and>
    live (ordersAtPricePool b') 0 = Some L \<and> bidsByPrice b' = Some 0 \<and> level_next L = Some 0 \<and> level_price L = 100 \<and>
    order0 L = Some 0 \<and> live (orderPool b') 0 = Some x \<and> price x = 100 \<and> nxt x = Some 1 \<and>
    live (orderPool b') 1 = Some y \<and> price y = 356 \<and> nxt y = Some 0"
  by (simp add: run_eval live_def cong: bind_res_weak_cong) blast

text \<open>In the same way an ask joins a level of bids, and the book shows no ask at all.\<close>

theorem ask_joins_bid_level:
  "\<exists>b b' me' L y. OrderBook_init 1 = Inr b \<and>
    runAll (runRequest strayZero 1) (b, newQueues) [AddRequest 1 1 BUY 100 10, AddRequest 1 2 SELL 356 10] = Inr (b', me') \<and>
    asksByPrice b' = None \<and> bidsByPrice b' = Some 0 \<and> live (ordersAtPricePool b') 0 = Some L \<and> level_next L = Some 0 \<and>
    order0 L = Some 0 \<and> live (orderPool b') 1 = Some y \<and> side y = SELL \<and> nxt y = Some 0 \<and> prev y = Some 0"
  by (simp add: run_eval live_def cong: bind_res_weak_cong) blast

text \<open>A client order identifier that is used twice loses the first order: after a cancel it still rests in the book but
  can no longer be found.\<close>

theorem reused_id_orphans_order:
  "\<exists>b b' me' x. OrderBook_init 1 = Inr b \<and>
    runAll (runRequest strayZero 1) (b, newQueues)
      [AddRequest 1 1 BUY 100 10, AddRequest 1 1 BUY 101 10, CancelRequest 1 1] = Inr (b', me') \<and>
    live (orderPool b') 0 = Some x \<and> clientId x = 1 \<and> clientOrderId x = 1 \<and> lookupOrder b' 1 1 = Inr None"
  by (simp add: run_eval live_def cancelUpdate_def cancelledResponse_def cong: bind_res_weak_cong) blast

text \<open>An order whose side is neither \<open>BUY\<close> nor \<open>SELL\<close> is not refused: it rests among the asks.\<close>

theorem other_side_rests_as_ask:
  "\<exists>b b' me' L. OrderBook_init 1 = Inr b \<and>
    runAll (runRequest strayZero 1) (b, newQueues) [AddRequest 1 1 Side_INVALID 100 10] = Inr (b', me') \<and>
    bidsByPrice b' = None \<and> asksByPrice b' = Some 0 \<and> live (ordersAtPricePool b') 0 = Some L \<and> level_side L = Side_INVALID"
  by (simp add: run_eval live_def cong: bind_res_weak_cong)

text \<open>A client identifier of \<open>MAX_N_CLIENTS\<close> or more indexes the array of client orders out of its range.\<close>

theorem client_out_of_range:
  "\<exists>b. OrderBook_init 1 = Inr b \<and> addOrder strayZero b newQueues 256 1 1 BUY 100 10 = Inl OutOfBounds"
  by (simp add: run_eval cong: bind_res_weak_cong)

end
