(* ===== verification/Matching_Engine.thy ===== *)
theory Matching_Engine
  imports Book_Properties
begin

text \<open>
  \<open>MatchingEngine::MatchingEngine\<close> (src/src/core/matching_engine/matching_engine.cpp): one order book
  per ticker, the queue of requests it reads and the two queues it writes. The worker thread and the
  threads that feed and stop it are a step relation.
\<close>

section \<open>State\<close>

text \<open>Where the worker thread is: not created, created, in its loop, at its end.\<close>

datatype phase = NotStarted | Created | Looping | Finished

record Engine =
  orderBookForTicker :: "OrderBook option vec"
  rxRequests :: "OMEClientRequest LFQueue"
  meQueues :: MEQueues
  isRunning :: bool
  workerPhase :: phase
  stopRequested :: bool

section \<open>Operations\<close>

function makeBooks :: "nat \<Rightarrow> OrderBook option vec \<Rightarrow> OrderBook option vec res" where
  "makeBooks i v =
     (if i < vsize v
      then bind_res (OrderBook_init (word_of_nat i)) (\<lambda>b.
           bind_res (vset v i (Some b)) (\<lambda>v'. makeBooks (i + 1) v'))
      else Inr v)"
  by pat_completeness auto
termination
  by (relation "measure (\<lambda>(i, v). vsize v - i)") auto

declare makeBooks.simps [simp del]

definition MatchingEngine_init :: "OMEClientRequest LFQueue \<Rightarrow> MEQueues \<Rightarrow> Engine res" where
  "MatchingEngine_init rx me =
     bind_res (makeBooks 0 (vfill MAX_TICKERS None)) (\<lambda>v.
       Inr \<lparr>orderBookForTicker = v, rxRequests = rx, meQueues = me, isRunning = False,
            workerPhase = NotStarted, stopRequested = False\<rparr>)"

text \<open>\<open>orderBookForTicker_[ticker]->...\<close>: the index is not checked; the book's operation works on the
  shared outgoing queues.\<close>

definition onBook ::
    "Engine \<Rightarrow> TickerID \<Rightarrow> (OrderBook \<Rightarrow> MEQueues \<Rightarrow> (OrderBook \<times> MEQueues) res) \<Rightarrow> Engine res" where
  "onBook E t f =
     bind_res (vget (orderBookForTicker E) (unat t)) (\<lambda>p.
       case p of None \<Rightarrow> Inl NullDeref
       | Some b \<Rightarrow> bind_res (f b (meQueues E)) (\<lambda>(b', me').
           bind_res (vset (orderBookForTicker E) (unat t) (Some b')) (\<lambda>v.
             Inr (E\<lparr>orderBookForTicker := v, meQueues := me'\<rparr>))))"

definition handleClientRequest :: "stray \<Rightarrow> Engine \<Rightarrow> OMEClientRequest \<Rightarrow> Engine res" where
  "handleClientRequest stray E request =
     (case req_type request of
        Req_NEW \<Rightarrow> onBook E (req_tickerId request) (\<lambda>b me.
          addOrder stray b me (req_clientId request) (req_orderId request) (req_tickerId request)
            (req_side request) (req_price request) (req_qty request))
      | Req_CANCEL \<Rightarrow> onBook E (req_tickerId request) (\<lambda>b me.
          cancelOrder b me (req_clientId request) (req_orderId request) (req_tickerId request))
      | _ \<Rightarrow> Inr E)"

text \<open>The body of the loop of \<open>runMatchingEngine\<close>.\<close>

definition pollRequest :: "stray \<Rightarrow> Engine \<Rightarrow> Engine res" where
  "pollRequest stray E =
     bind_res (pop (rxRequests E)) (\<lambda>(request, q).
       case request of None \<Rightarrow> Inr (E\<lparr>rxRequests := q\<rparr>)
       | Some r \<Rightarrow> handleClientRequest stray (E\<lparr>rxRequests := q\<rparr>) r)"

definition startMatchingEngine :: "Engine \<Rightarrow> Engine" where
  "startMatchingEngine E = E\<lparr>workerPhase := Created\<rparr>"

text \<open>\<open>stopMatchingEngine\<close> up to the call of \<open>join\<close>: the request to stop is recorded in the thread
  object, where the loop does not look.\<close>

definition requestStop :: "Engine \<Rightarrow> Engine" where
  "requestStop E = (if workerPhase E = NotStarted then E else E\<lparr>stopRequested := True\<rparr>)"

text \<open>\<open>join\<close> returns once the worker has ended (or if there is none).\<close>

definition joinReturns :: "Engine \<Rightarrow> bool" where
  "joinReturns E \<longleftrightarrow> workerPhase E = NotStarted \<or> workerPhase E = Finished"

definition isMatchingEngineRunning :: "Engine \<Rightarrow> bool" where
  "isMatchingEngineRunning E = isRunning E"

text \<open>The steps of the worker thread and of the threads around it.\<close>

inductive engineStep :: "stray \<Rightarrow> Engine \<Rightarrow> Engine \<Rightarrow> bool" for stray where
  enter: "workerPhase E = Created \<Longrightarrow> engineStep stray E (E\<lparr>isRunning := True, workerPhase := Looping\<rparr>)"
| iterate: "workerPhase E = Looping \<Longrightarrow> isRunning E \<Longrightarrow> pollRequest stray E = Inr E' \<Longrightarrow> engineStep stray E E'"
| leave: "workerPhase E = Looping \<Longrightarrow> \<not> isRunning E \<Longrightarrow>
    engineStep stray E (E\<lparr>isRunning := False, workerPhase := Finished\<rparr>)"
| receive: "push (rxRequests E) r = Inr (ok, q) \<Longrightarrow> engineStep stray E (E\<lparr>rxRequests := q\<rparr>)"
| stop: "engineStep stray E (requestStop E)"

inductive_cases engineStepE: "engineStep stray E E'"

inductive engineReaches :: "stray \<Rightarrow> Engine \<Rightarrow> Engine \<Rightarrow> bool" for stray where
  refl: "engineReaches stray E E"
| step: "engineReaches stray E E' \<Longrightarrow> engineStep stray E' E'' \<Longrightarrow> engineReaches stray E E''"

section \<open>The engine and its books\<close>

lemma makeBooks_ok:
  assumes "vsize v = n" "i \<le> n" "me_ok me"
    and "\<forall>j < i. \<exists>b. velem v j = Some b \<and> represents (b, me) emptyBook"
  shows "\<exists>v'. makeBooks i v = Inr v' \<and> vsize v' = n \<and> (\<forall>j < n. \<exists>b. velem v' j = Some b \<and> represents (b, me) emptyBook)"
  using assms
proof (induction "n - i" arbitrary: i v)
  case 0
  then show ?case by (subst makeBooks.simps) auto
next
  case (Suc m)
  then have i: "i < n" by simp
  obtain b where b: "OrderBook_init (word_of_nat i) = Inr b" "represents (b, me) emptyBook"
    using init_represents [OF Suc.prems(3)] by blast
  let ?v = "v\<lparr>velem := (velem v)(i := Some b)\<rparr>"
  have "\<exists>v'. makeBooks (i + 1) ?v = Inr v' \<and> vsize v' = n \<and> (\<forall>j < n. \<exists>b. velem v' j = Some b \<and> represents (b, me) emptyBook)"
    using Suc i b by (intro Suc.hyps(1)) (auto simp: less_Suc_eq)
  with b(1) i Suc.prems(1) show ?case by (subst makeBooks.simps) simp
qed

text \<open>The abstract engine: one abstract book per ticker.\<close>

definition toRequest :: "OMEClientRequest \<Rightarrow> request option" where
  "toRequest r = (case req_type r of
     Req_NEW \<Rightarrow> Some (AddRequest (req_clientId r) (req_orderId r) (req_side r) (req_price r) (req_qty r))
   | Req_CANCEL \<Rightarrow> Some (CancelRequest (req_clientId r) (req_orderId r))
   | _ \<Rightarrow> None)"

definition specHandle :: "(nat \<Rightarrow> AbstractBook) \<Rightarrow> OMEClientRequest \<Rightarrow> nat \<Rightarrow> AbstractBook" where
  "specHandle A r = (case toRequest r of None \<Rightarrow> A
     | Some q \<Rightarrow> A(unat (req_tickerId r) := specRequest (req_tickerId r) (A (unat (req_tickerId r))) q))"

definition acceptableAt :: "(nat \<Rightarrow> AbstractBook) \<Rightarrow> OMEClientRequest \<Rightarrow> bool" where
  "acceptableAt A r = (case toRequest r of None \<Rightarrow> True
     | Some q \<Rightarrow> unat (req_tickerId r) < MAX_TICKERS \<and> acceptable (A (unat (req_tickerId r))) q)"

definition engineRepresents :: "Engine \<Rightarrow> (nat \<Rightarrow> AbstractBook) \<Rightarrow> bool" where
  "engineRepresents E A \<longleftrightarrow> vsize (orderBookForTicker E) = MAX_TICKERS \<and> me_ok (meQueues E) \<and>
     (\<forall>i < MAX_TICKERS. \<exists>b. velem (orderBookForTicker E) i = Some b \<and> represents (b, meQueues E) (A i))"

lemma represents_queues: "represents (b, me) A \<Longrightarrow> me_ok me' \<Longrightarrow> represents (b, me') A"
  by (simp add: represents_def)

text \<open>What a request sends. The remaining quantity a fill reports is whatever the code finds outside its variable, so
  it is left out of the specification.\<close>

definition eraseRest :: "OMEClientResponse \<Rightarrow> OMEClientResponse" where
  "eraseRest r = (if res_type r = Res_FILLED then r\<lparr>qtyRemain := 0\<rparr> else r)"

definition specReplies :: "(nat \<Rightarrow> AbstractBook) \<Rightarrow> OMEClientRequest \<Rightarrow> OMEClientResponse list" where
  "specReplies A r = (case toRequest r of None \<Rightarrow> []
     | Some q \<Rightarrow> let B = A (unat (req_tickerId r)) in
         map eraseRest (specResponses (req_tickerId r) B (replicate (openRests B q) 0) q))"

definition specMarket :: "(nat \<Rightarrow> AbstractBook) \<Rightarrow> OMEClientRequest \<Rightarrow> OMEMarketUpdate list" where
  "specMarket A r = (case toRequest r of None \<Rightarrow> []
     | Some q \<Rightarrow> specUpdates (req_tickerId r) (A (unat (req_tickerId r))) q)"

text \<open>The kinds of messages, and whom they are about.\<close>

fun requester :: "request \<Rightarrow> ClientID" where
  "requester (AddRequest c k sd px q) = c"
| "requester (CancelRequest c k) = c"

lemma toRequest_requester: "toRequest r = Some q \<Longrightarrow> requester q = req_clientId r"
  by (auto simp: toRequest_def split: RequestType.splits)

lemma sweepFills_client: "y \<in> set (sweepFills q xs) \<Longrightarrow> \<exists>x\<in>set xs. clientId y = clientId x"
proof -
  have "\<forall>y\<in>set (fills q x). clientId y = clientId x" for x
  proof (induction q x rule: fills.induct)
    case (1 q x)
    then show ?case by (subst fills.simps) (auto simp: afterFill_def)
  qed
  then show "y \<in> set (sweepFills q xs) \<Longrightarrow> ?thesis" by (auto simp: sweepFills_def)
qed

lemma crossed_subset: "set (crossed A sd px) \<subseteq> set (allOrders A)"
proof -
  have "set (crossed A sd px) \<subseteq> set (concat (levels A (opposite sd)))" by (auto dest: set_takeWhileD)
  moreover have "set (concat (levels A (opposite sd))) \<subseteq> set (allOrders A)"
    using opposite_sides(1) [of sd] by (auto simp: allOrders_def)
  ultimately show ?thesis by (rule subset_trans)
qed

lemma eraseRest_client [simp]: "res_clientId (eraseRest s) = res_clientId s"
  by (simp add: eraseRest_def)

lemma specResponses_kinds:
  assumes "s \<in> set (specResponses t A rests q)"
  shows "res_type s \<in> {Res_ACCEPTED, Res_FILLED, Res_CANCELLED, Res_CANCEL_REJECTED}" "res_tickerId s = t"
    and "res_clientId s = requester q \<or> (\<exists>x\<in>set (allOrders A). res_clientId s = clientId x)"
proof -
  show "res_type s \<in> {Res_ACCEPTED, Res_FILLED, Res_CANCELLED, Res_CANCEL_REJECTED}" "res_tickerId s = t"
    using assms by (cases q; auto simp: acceptedResponse_def rejectedResponse_def cancelledResponse_def sweepResponses_def fillResponses_def
      fillAggressor_def fillMatched_def split: if_splits option.splits)+
  show "res_clientId s = requester q \<or> (\<exists>x\<in>set (allOrders A). res_clientId s = clientId x)"
  proof (cases q)
    case (AddRequest c k sd px n)
    have "res_clientId s = c \<or> (\<exists>y\<in>set (sweepFills n (crossed A sd px)). res_clientId s = clientId y)"
      using assms AddRequest
      by (auto simp: acceptedResponse_def sweepResponses_def fillResponses_def fillAggressor_def fillMatched_def afterFill_def
        split: if_splits dest!: set_zip_leftD)
    then show ?thesis
    proof
      assume "\<exists>y\<in>set (sweepFills n (crossed A sd px)). res_clientId s = clientId y"
      then obtain x where "x \<in> set (crossed A sd px)" "res_clientId s = clientId x" using sweepFills_client by metis
      with crossed_subset [where A = A and sd = sd and px = px] show ?thesis by auto
    qed (simp add: AddRequest)
  next
    case (CancelRequest c k)
    with assms show ?thesis by (auto simp: rejectedResponse_def cancelledResponse_def split: option.splits)
  qed
qed

lemma specUpdates_kinds:
  assumes "u \<in> set (specUpdates t A q)"
  shows "mu_type u \<in> {MU_ADD, MU_MODIFY, MU_CANCEL, MU_TRADE}" "mu_tickerId u = t"
  using assms by (cases q; auto simp: sweepUpdates_def fillUpdates_def tradeUpdate_def filledUpdate_def modifyUpdate_def
    addedUpdate_def cancelUpdate_def split: if_splits option.splits)+

lemma specResponses_first:
  "\<exists>s rs. specResponses t A rests q = s # rs \<and> res_clientId s = requester q \<and>
    res_clientOrderId s = (case q of AddRequest c k sd px n \<Rightarrow> k | CancelRequest c k \<Rightarrow> k)"
  by (cases q) (auto simp: acceptedResponse_def rejectedResponse_def cancelledResponse_def split: option.splits)

lemma sweepResponses_erased:
  assumes "length rests = length (sweepFills q xs)" "length rests' = length (sweepFills q xs)"
  shows "map eraseRest (sweepResponses c t k m sd q xs rests) = map eraseRest (sweepResponses c t k m sd q xs rests')"
proof -
  have "map eraseRest (concat (map2 (fillResponses c t k m sd q) ys rests)) =
      map eraseRest (concat (map2 (fillResponses c t k m sd q) ys rests'))"
    if "length rests = length ys" "length rests' = length ys" for ys
    using that
  proof (induction ys arbitrary: rests rests')
    case (Cons y ys)
    obtain r rs where r: "rests = r # rs" "length rs = length ys" using Cons.prems(1) by (cases rests) auto
    obtain r' rs' where r': "rests' = r' # rs'" "length rs' = length ys" using Cons.prems(2) by (cases rests') auto
    have "map eraseRest (fillResponses c t k m sd q y r) = map eraseRest (fillResponses c t k m sd q y r')"
      by (simp add: fillResponses_def fillAggressor_def eraseRest_def)
    with Cons.IH [OF r(2) r'(2)] r(1) r'(1) show ?case by simp
  qed simp
  with assms show ?thesis by (simp add: sweepResponses_def)
qed

lemma specResponses_erased:
  assumes "length rests = openRests B q" "length rests' = openRests B q"
  shows "map eraseRest (specResponses t B rests q) = map eraseRest (specResponses t B rests' q)"
  using assms sweepResponses_erased by (cases q) (auto split: option.splits)

lemma onBook_simulates:
  assumes E: "engineRepresents E A" and t: "unat t < MAX_TICKERS"
    and f: "\<And>b. represents (b, meQueues E) (A (unat t)) \<Longrightarrow>
      \<exists>b' me'. f b (meQueues E) = Inr (b', me') \<and> represents (b', me') B \<and> Q me'"
  shows "\<exists>E'. onBook E t f = Inr E' \<and> engineRepresents E' (A(unat t := B)) \<and> Q (meQueues E')"
proof -
  obtain b where b: "velem (orderBookForTicker E) (unat t) = Some b" "represents (b, meQueues E) (A (unat t))"
    using E t by (auto simp: engineRepresents_def)
  obtain b' me' where s: "f b (meQueues E) = Inr (b', me')" "represents (b', me') B" "Q me'" using f [OF b(2)] by auto
  have me': "me_ok me'" using s(2) by (simp add: represents_def)
  let ?v = "(orderBookForTicker E)\<lparr>velem := (velem (orderBookForTicker E))(unat t := Some b')\<rparr>"
  let ?E = "E\<lparr>orderBookForTicker := ?v, meQueues := me'\<rparr>"
  have "onBook E t f = Inr ?E"
    using E t b s by (simp add: onBook_def engineRepresents_def)
  moreover have "engineRepresents ?E (A(unat t := B))"
  proof -
    have "\<exists>b. velem ?v i = Some b \<and> represents (b, me') ((A(unat t := B)) i)" if i: "i < MAX_TICKERS" for i
    proof (cases "i = unat t")
      case True
      then show ?thesis using s(2) by simp
    next
      case False
      obtain bi where "velem (orderBookForTicker E) i = Some bi" "represents (bi, meQueues E) (A i)"
        using E i by (auto simp: engineRepresents_def)
      with False represents_queues [OF _ me'] show ?thesis by auto
    qed
    then show ?thesis using E me' by (simp add: engineRepresents_def)
  qed
  moreover have "Q (meQueues ?E)" using s(3) by simp
  ultimately show ?thesis by blast
qed

text \<open>Every acceptable request completes, changes the books as specified and sends what is specified.\<close>

lemma handle_simulates:
  assumes a: "engineRepresents E A" "acceptableAt A r"
  shows "\<exists>E' rs. handleClientRequest (\<lambda>b k. Some (f b k)) E r = Inr E' \<and> engineRepresents E' (specHandle A r) \<and>
    map eraseRest rs = specReplies A r \<and> emits (meQueues E) rs (specMarket A r) (meQueues E') \<and>
    (\<forall>q. toRequest r = Some q \<longrightarrow> (\<exists>rests. rs = specResponses (req_tickerId r) (A (unat (req_tickerId r))) rests q))"
proof (cases "toRequest r")
  case None
  moreover have "emits (meQueues E) [] [] (meQueues E)" using a(1) emits_refl by (simp add: engineRepresents_def)
  ultimately show ?thesis using a(1)
    by (intro exI [of _ E] exI [of _ "[]"])
      (auto simp: toRequest_def handleClientRequest_def specHandle_def specReplies_def specMarket_def split: RequestType.splits)
next
  case (Some q)
  let ?st = "\<lambda>b k. Some (f b k)" and ?t = "req_tickerId r"
  let ?B = "A (unat ?t)"
  have t: "unat ?t < MAX_TICKERS" and acc: "acceptable ?B q" using a(2) Some by (auto simp: acceptableAt_def)
  have "\<exists>E'. onBook E ?t (\<lambda>b me. runRequest ?st ?t (b, me) q) = Inr E' \<and>
      engineRepresents E' (A(unat ?t := specRequest ?t ?B q)) \<and>
      (\<exists>rests. length rests = openRests ?B q \<and>
        emits (meQueues E) (specResponses ?t ?B rests q) (specUpdates ?t ?B q) (meQueues E'))"
    by (rule onBook_simulates [OF a(1) t]) (use request_simulates [OF _ acc] in blast)
  then obtain E' rests where E': "onBook E ?t (\<lambda>b me. runRequest ?st ?t (b, me) q) = Inr E'"
    "engineRepresents E' (A(unat ?t := specRequest ?t ?B q))" "length rests = openRests ?B q"
    "emits (meQueues E) (specResponses ?t ?B rests q) (specUpdates ?t ?B q) (meQueues E')" by blast
  have "handleClientRequest ?st E r = onBook E ?t (\<lambda>b me. runRequest ?st ?t (b, me) q)"
    using Some by (auto simp: toRequest_def handleClientRequest_def split: RequestType.splits)
  moreover have "map eraseRest (specResponses ?t ?B rests q) = specReplies A r"
    using Some specResponses_erased [OF E'(3), of "replicate (openRests ?B q) 0" ?t] by (simp add: specReplies_def Let_def)
  ultimately show ?thesis using E' Some by (auto simp: specHandle_def specMarket_def)
qed

interpretation engine: simulation engineRepresents "handleClientRequest (\<lambda>b k. Some (f b k))" specHandle acceptableAt for f
  by unfold_locales (use handle_simulates in blast)

lemma MatchingEngine_init_ok:
  assumes "me_ok me"
  shows "\<exists>E. MatchingEngine_init rx me = Inr E \<and> engineRepresents E (\<lambda>_. emptyBook) \<and> rxRequests E = rx \<and>
     workerPhase E = NotStarted \<and> \<not> isRunning E \<and> meQueues E = me"
  using makeBooks_ok [of "vfill MAX_TICKERS None" MAX_TICKERS 0 me] assms
  by (auto simp: MatchingEngine_init_def engineRepresents_def)

section \<open>The loop\<close>

text \<open>A number of iterations of the loop.\<close>

fun polls :: "stray \<Rightarrow> Engine \<Rightarrow> nat \<Rightarrow> Engine res" where
  "polls stray E 0 = Inr E"
| "polls stray E (Suc n) = bind_res (pollRequest stray E) (\<lambda>E'. polls stray E' n)"

lemma handle_keeps_rx:
  "handleClientRequest stray (E\<lparr>rxRequests := q\<rparr>) r = map_sum id (\<lambda>E'. E'\<lparr>rxRequests := q\<rparr>) (handleClientRequest stray E r)"
  unfolding handleClientRequest_def onBook_def bind_res_def
  by (auto split: RequestType.splits option.splits sum.splits)

lemma engineRepresents_rx [simp]: "engineRepresents (E\<lparr>rxRequests := q\<rparr>) A = engineRepresents E A"
  by (simp add: engineRepresents_def)


lemma runAll_rx:
  "runAll (handleClientRequest stray) (E\<lparr>rxRequests := q\<rparr>) rs =
   map_sum id (\<lambda>E'. E'\<lparr>rxRequests := q\<rparr>) (runAll (handleClientRequest stray) E rs)"
proof (induction rs arbitrary: E)
  case (Cons r rs)
  show ?case
  proof (cases "handleClientRequest stray E r")
    case (Inr E1)
    with Cons.IH [of E1] show ?thesis by (simp add: handle_keeps_rx)
  qed (simp add: handle_keeps_rx)
qed simp

text \<open>The loop handles the requests in the order of the queue.\<close>

lemma polls_in_order:
  assumes "queue_wf (rxRequests E)" "contents (rxRequests E) = rs"
  shows "\<exists>q. queue_wf q \<and> contents q = [] \<and>
    polls stray E (length rs) = map_sum id (\<lambda>E'. E'\<lparr>rxRequests := q\<rparr>) (runAll (handleClientRequest stray) E rs)"
  using assms
proof (induction rs arbitrary: E)
  case Nil
  then show ?case by (intro exI [of _ "rxRequests E"]) simp
next
  case (Cons r rs)
  from pop_some [OF Cons.prems] obtain q1 where q1: "pop (rxRequests E) = Inr (Some r, q1)" "queue_wf q1" "contents q1 = rs"
    by blast
  then have poll: "pollRequest stray E = handleClientRequest stray (E\<lparr>rxRequests := q1\<rparr>) r" by (simp add: pollRequest_def)
  show ?case
  proof (cases "handleClientRequest stray E r")
    case (Inl e)
    with poll q1 show ?thesis using LFQueue_init_wf [of 1 r]
      by (intro exI [of _ "LFQueue_init r 1"]) (simp add: handle_keeps_rx)
  next
    case (Inr E1)
    let ?E1 = "E1\<lparr>rxRequests := q1\<rparr>"
    have "queue_wf (rxRequests ?E1)" "contents (rxRequests ?E1) = rs" using q1 by simp_all
    from Cons.IH [OF this] obtain q where q: "queue_wf q" "contents q = []"
      "polls stray ?E1 (length rs) = map_sum id (\<lambda>E'. E'\<lparr>rxRequests := q\<rparr>) (runAll (handleClientRequest stray) ?E1 rs)"
      by blast
    have "map_sum id (\<lambda>E'. E'\<lparr>rxRequests := q\<rparr>) (runAll (handleClientRequest stray) ?E1 rs) =
        map_sum id (\<lambda>E'. E'\<lparr>rxRequests := q\<rparr>) (runAll (handleClientRequest stray) E1 rs)"
      unfolding runAll_rx by (cases "runAll (handleClientRequest stray) E1 rs") simp_all
    with q Inr poll show ?thesis by (intro exI [of _ q]) (simp add: handle_keeps_rx id_def)
  qed
qed

text \<open>One iteration, with what it sends.\<close>

lemma poll_simulates:
  assumes E: "engineRepresents E A" and q: "queue_wf (rxRequests E)" "contents (rxRequests E) = r # rs" and acc: "acceptableAt A r"
  shows "\<exists>E' ss. pollRequest (\<lambda>b k. Some (f b k)) E = Inr E' \<and> engineRepresents E' (specHandle A r) \<and>
    queue_wf (rxRequests E') \<and> contents (rxRequests E') = rs \<and> vsize (queue (rxRequests E')) = vsize (queue (rxRequests E)) \<and>
    map eraseRest ss = specReplies A r \<and> emits (meQueues E) ss (specMarket A r) (meQueues E')"
proof -
  from pop_some [OF q] obtain q1 where q1: "pop (rxRequests E) = Inr (Some r, q1)" "queue_wf q1" "contents q1 = rs"
    "vsize (queue q1) = vsize (queue (rxRequests E))" by blast
  from handle_simulates [OF E acc, of f] obtain E' ss where E': "handleClientRequest (\<lambda>b k. Some (f b k)) E r = Inr E'"
    "engineRepresents E' (specHandle A r)" "map eraseRest ss = specReplies A r" "emits (meQueues E) ss (specMarket A r) (meQueues E')" by blast
  have "pollRequest (\<lambda>b k. Some (f b k)) E = Inr (E'\<lparr>rxRequests := q1\<rparr>)" using q1(1) E'(1) by (simp add: pollRequest_def handle_keeps_rx)
  with q1 E' show ?thesis by (intro exI [of _ "E'\<lparr>rxRequests := q1\<rparr>"] exI [of _ ss]) simp
qed

lemma polls_run:
  assumes "engineRepresents E A" "queue_wf (rxRequests E)" "allowed acceptableAt specHandle A (contents (rxRequests E))"
  shows "\<exists>E'. polls (\<lambda>b k. Some (f b k)) E (length (contents (rxRequests E))) = Inr E' \<and>
    engineRepresents E' (foldl specHandle A (contents (rxRequests E))) \<and> contents (rxRequests E') = []"
proof -
  let ?st = "\<lambda>b k. Some (f b k)"
  from engine.runs [OF assms(1,3), of f] obtain E1 where
    E1: "runAll (handleClientRequest ?st) E (contents (rxRequests E)) = Inr E1"
    "engineRepresents E1 (foldl specHandle A (contents (rxRequests E)))" by blast
  from polls_in_order [OF assms(2) HOL.refl, of ?st] E1(1) obtain q
    where "polls ?st E (length (contents (rxRequests E))) = Inr (E1\<lparr>rxRequests := q\<rparr>)" "contents q = []" by auto
  with E1(2) show ?thesis by auto
qed

text \<open>While the worker is on its way it stays there: nothing clears \<open>isRunning_\<close>.\<close>

definition onItsWay :: "Engine \<Rightarrow> bool" where
  "onItsWay E \<longleftrightarrow> workerPhase E = Created \<or> workerPhase E = Looping \<and> isRunning E"

lemma handle_keeps_worker:
  "handleClientRequest stray E r = Inr E' \<Longrightarrow> workerPhase E' = workerPhase E \<and> isRunning E' = isRunning E"
  by (auto simp: handleClientRequest_def onBook_def split: RequestType.splits option.splits)

lemma poll_keeps_worker:
  "pollRequest stray E = Inr E' \<Longrightarrow> workerPhase E' = workerPhase E \<and> isRunning E' = isRunning E"
  by (auto simp: pollRequest_def split: option.splits dest!: handle_keeps_worker)

lemma engineStep_onItsWay: "engineStep stray E E' \<Longrightarrow> onItsWay E \<Longrightarrow> onItsWay E'"
  by (erule engineStepE) (auto simp: onItsWay_def requestStop_def dest: poll_keeps_worker)

lemma engineReaches_onItsWay: "engineReaches stray E E' \<Longrightarrow> onItsWay E \<Longrightarrow> onItsWay E'"
  by (induction rule: engineReaches.induct) (auto intro: engineStep_onItsWay)

section \<open>Properties\<close>

text \<open>C18: a new engine handles the requests that wait in its queue one after the other, in their order, each on the book of
  its ticker, if every one of them is acceptable for the abstract books when its turn comes: a ticker below 8, valid numbers and
  side, a client order number that is not in use, room for another order, and no price whose slot modulo 256 a level of another
  price or side holds. It does so without a fault if reads outside \<open>qtyRemains\<close> give some value, whichever; every book then
  holds what the specification of that ticker's book says, and the queue is empty.\<close>

theorem engine_runs_requests:
  assumes "me_ok me" "queue_wf rx" "allowed acceptableAt specHandle (\<lambda>_. emptyBook) (contents rx)"
  shows "\<exists>E E'. MatchingEngine_init rx me = Inr E \<and>
    polls (\<lambda>b k. Some (f b k)) (startMatchingEngine E) (length (contents rx)) = Inr E' \<and>
    engineRepresents E' (foldl specHandle (\<lambda>_. emptyBook) (contents rx)) \<and> contents (rxRequests E') = []"
proof -
  from MatchingEngine_init_ok [OF assms(1), of rx] obtain E where E: "MatchingEngine_init rx me = Inr E"
    "engineRepresents E (\<lambda>_. emptyBook)" "rxRequests E = rx" by blast
  then have "engineRepresents (startMatchingEngine E) (\<lambda>_. emptyBook)" "rxRequests (startMatchingEngine E) = rx"
    by (simp_all add: startMatchingEngine_def engineRepresents_def)
  with polls_run [OF this(1), of f] assms(2,3) E(1) show ?thesis by auto
qed

abbreviation sampleRequest :: "RequestType \<Rightarrow> ClientID \<Rightarrow> TickerID \<Rightarrow> OrderID \<Rightarrow> Side \<Rightarrow> Price \<Rightarrow> Qty \<Rightarrow> OMEClientRequest" where
  "sampleRequest ty c t k sd px q \<equiv> \<lparr>req_type = ty, req_clientId = c, req_tickerId = t, req_orderId = k,
     req_side = sd, req_price = px, req_qty = q\<rparr>"

theorem engine_runs_requests_witness:
  "\<exists>rx E E'. offer push (LFQueue_init OMEClientRequest_default 4)
      [sampleRequest Req_NEW 1 0 1 BUY 100 5, sampleRequest Req_NEW 2 7 1 SELL 90 3,
       sampleRequest Req_CANCEL 1 0 1 BUY 0 0] = Inr rx \<and>
    MatchingEngine_init rx newQueues = Inr E \<and> polls strayZero (startMatchingEngine E) 3 = Inr E' \<and>
    engineRepresents E' (foldl specHandle (\<lambda>_. emptyBook)
      [sampleRequest Req_NEW 1 0 1 BUY 100 5, sampleRequest Req_NEW 2 7 1 SELL 90 3,
       sampleRequest Req_CANCEL 1 0 1 BUY 0 0])"
proof -
  let ?rs = "[sampleRequest Req_NEW 1 0 1 BUY 100 5, sampleRequest Req_NEW 2 7 1 SELL 90 3,
    sampleRequest Req_CANCEL 1 0 1 BUY 0 0]"
  obtain rx where rx: "offer push (LFQueue_init OMEClientRequest_default 4) ?rs = Inr rx" "queue_wf rx" "contents rx = ?rs"
    using lfq.offer_total [OF LFQueue_init_wf, of 4 OMEClientRequest_default ?rs] by auto
  have "allowed acceptableAt specHandle (\<lambda>_. emptyBook) ?rs"
    by (simp add: acceptableAt_def specHandle_def toRequest_def spec_eval)
  moreover have "length ?rs = 3" by simp
  ultimately have "\<exists>E E'. MatchingEngine_init rx newQueues = Inr E \<and> polls strayZero (startMatchingEngine E) 3 = Inr E' \<and>
      engineRepresents E' (foldl specHandle (\<lambda>_. emptyBook) ?rs)"
    using engine_runs_requests [OF newQueues_ok rx(2), of "\<lambda>_ _. 0"] unfolding rx(3) by metis
  with rx(1) show ?thesis by blast
qed

text \<open>C19: every acceptable request is answered. The engine sends only accepted, filled, cancelled and cancel-rejected
  responses and only additions, modifications, cancellations and trades to the market, all with the ticker of the request; a response goes
  to the client that made the request or to one with an order in that ticker's book; and the first response to a new order or a
  cancel goes to its client and names its order. Any other request sends nothing.\<close>

theorem engine_messages_typed:
  assumes "engineRepresents E A" "acceptableAt A r"
  shows "\<exists>E' rs us. handleClientRequest (\<lambda>b k. Some (f b k)) E r = Inr E' \<and> emits (meQueues E) rs us (meQueues E') \<and>
    (\<forall>s\<in>set rs. res_type s \<in> {Res_ACCEPTED, Res_FILLED, Res_CANCELLED, Res_CANCEL_REJECTED} \<and> res_tickerId s = req_tickerId r \<and>
      (res_clientId s = req_clientId r \<or> (\<exists>x\<in>set (allOrders (A (unat (req_tickerId r)))). res_clientId s = clientId x))) \<and>
    (\<forall>u\<in>set us. mu_type u \<in> {MU_ADD, MU_MODIFY, MU_CANCEL, MU_TRADE} \<and> mu_tickerId u = req_tickerId r) \<and>
    (if req_type r \<in> {Req_NEW, Req_CANCEL}
     then rs \<noteq> [] \<and> res_clientId (hd rs) = req_clientId r \<and> res_clientOrderId (hd rs) = req_orderId r
     else rs = [] \<and> us = [])"
proof -
  obtain E' rs where E': "handleClientRequest (\<lambda>b k. Some (f b k)) E r = Inr E'" "map eraseRest rs = specReplies A r"
    "emits (meQueues E) rs (specMarket A r) (meQueues E')"
    "\<forall>q. toRequest r = Some q \<longrightarrow> (\<exists>rests. rs = specResponses (req_tickerId r) (A (unat (req_tickerId r))) rests q)"
    using handle_simulates [OF assms, of f] by blast
  show ?thesis
  proof (cases "toRequest r")
    case None
    then have "rs = []" "specMarket A r = []" "req_type r \<notin> {Req_NEW, Req_CANCEL}"
      using E'(2) by (auto simp: specReplies_def specMarket_def toRequest_def split: RequestType.splits)
    with E'(1,3) show ?thesis by (intro exI [of _ E'] exI [of _ "[]"]) simp
  next
    case (Some q)
    with E'(4) obtain rests where rs: "rs = specResponses (req_tickerId r) (A (unat (req_tickerId r))) rests q" by blast
    have us: "specMarket A r = specUpdates (req_tickerId r) (A (unat (req_tickerId r))) q" using Some by (simp add: specMarket_def)
    have ty: "req_type r \<in> {Req_NEW, Req_CANCEL}" "(case q of AddRequest c k sd px n \<Rightarrow> k | CancelRequest c k \<Rightarrow> k) = req_orderId r"
      using Some by (auto simp: toRequest_def split: RequestType.splits)
    note who = toRequest_requester [OF Some]
    have "rs \<noteq> []" "res_clientId (hd rs) = req_clientId r" "res_clientOrderId (hd rs) = req_orderId r"
      using specResponses_first [of "req_tickerId r" "A (unat (req_tickerId r))" rests q] who ty(2) unfolding rs by auto
    moreover have "\<forall>s\<in>set rs. res_type s \<in> {Res_ACCEPTED, Res_FILLED, Res_CANCELLED, Res_CANCEL_REJECTED} \<and> res_tickerId s = req_tickerId r \<and>
      (res_clientId s = req_clientId r \<or> (\<exists>x\<in>set (allOrders (A (unat (req_tickerId r)))). res_clientId s = clientId x))"
      using specResponses_kinds unfolding rs who [symmetric] by blast
    moreover have "\<forall>u\<in>set (specMarket A r). mu_type u \<in> {MU_ADD, MU_MODIFY, MU_CANCEL, MU_TRADE} \<and> mu_tickerId u = req_tickerId r"
      using specUpdates_kinds unfolding us by blast
    ultimately show ?thesis using E'(1,3) ty(1) by (intro exI [of _ E'] exI [of _ rs] exI [of _ "specMarket A r"]) simp
  qed
qed

theorem engine_messages_typed_witness:
  "\<exists>E E' rs us. MatchingEngine_init (LFQueue_init OMEClientRequest_default 4) newQueues = Inr E \<and>
    handleClientRequest strayZero E (sampleRequest Req_NEW 1 0 7 BUY 100 5) = Inr E' \<and>
    emits (meQueues E) rs us (meQueues E') \<and> rs \<noteq> [] \<and> res_clientId (hd rs) = 1 \<and> res_clientOrderId (hd rs) = 7"
proof -
  obtain E where E: "MatchingEngine_init (LFQueue_init OMEClientRequest_default 4) newQueues = Inr E"
    "engineRepresents E (\<lambda>_. emptyBook)" using MatchingEngine_init_ok [OF newQueues_ok] by blast
  have "acceptableAt (\<lambda>_. emptyBook) (sampleRequest Req_NEW 1 0 7 BUY 100 5)"
    by (simp add: acceptableAt_def toRequest_def spec_eval)
  from engine_messages_typed [OF E(2) this, of "\<lambda>_ _. 0"] E(1) show ?thesis by auto
qed

text \<open>A request touches no book but that of its ticker.\<close>

theorem engine_isolates_tickers:
  assumes "handleClientRequest stray E r = Inr E'" "i \<noteq> unat (req_tickerId r)"
  shows "vget (orderBookForTicker E') i = vget (orderBookForTicker E) i"
  using assms by (auto simp: handleClientRequest_def onBook_def vget_def split: RequestType.splits option.splits)

theorem engine_isolates_tickers_witness:
  "\<exists>E E'. MatchingEngine_init (LFQueue_init OMEClientRequest_default 4) newQueues = Inr E \<and>
    handleClientRequest strayZero E (sampleRequest Req_NEW 1 0 1 BUY 100 5) = Inr E' \<and>
    vget (orderBookForTicker E') 7 = vget (orderBookForTicker E) 7"
proof -
  obtain E where E: "MatchingEngine_init (LFQueue_init OMEClientRequest_default 4) newQueues = Inr E"
    "engineRepresents E (\<lambda>_. emptyBook)" using MatchingEngine_init_ok [OF newQueues_ok] by blast
  have "acceptableAt (\<lambda>_. emptyBook) (sampleRequest Req_NEW 1 0 1 BUY 100 5)"
    by (simp add: acceptableAt_def toRequest_def spec_eval)
  from engine.step [OF E(2) this, of "\<lambda>_ _. 0"] obtain E' where
    E': "handleClientRequest strayZero E (sampleRequest Req_NEW 1 0 1 BUY 100 5) = Inr E'" by blast
  from engine_isolates_tickers [OF E', of 7] E(1) E' show ?thesis by auto
qed

text \<open>The ticker of a new order or of a cancel is not checked: at 8 or above the array of books is indexed out of its
  bounds.\<close>

theorem engine_ticker_unchecked:
  assumes "me_ok me" "req_type r \<in> {Req_NEW, Req_CANCEL}" "MAX_TICKERS \<le> unat (req_tickerId r)"
  shows "\<exists>E. MatchingEngine_init rx me = Inr E \<and> handleClientRequest stray E r = Inl OutOfBounds"
proof -
  obtain E where "MatchingEngine_init rx me = Inr E" "vsize (orderBookForTicker E) = MAX_TICKERS"
    using MatchingEngine_init_ok [OF assms(1), of rx] by (auto simp: engineRepresents_def)
  with assms(2,3) show ?thesis by (auto simp: handleClientRequest_def onBook_def vget_def)
qed

theorem engine_ticker_unchecked_witness:
  "\<exists>E. MatchingEngine_init (LFQueue_init OMEClientRequest_default 4) newQueues = Inr E \<and>
    handleClientRequest strayZero E (sampleRequest Req_NEW 1 8 1 BUY 100 5) = Inl OutOfBounds"
  by (rule engine_ticker_unchecked) (simp_all add: limits)

text \<open>C21: once the worker thread has been started, stopping the engine never succeeds: whatever the threads do, in
  any order, the worker does not end, so the \<open>join\<close> of \<open>stopMatchingEngine\<close> does not return.\<close>

theorem engine_never_stops:
  assumes "engineReaches stray (startMatchingEngine E) E'"
  shows "\<not> joinReturns E'"
proof -
  have "onItsWay (startMatchingEngine E)" by (simp add: onItsWay_def startMatchingEngine_def)
  from engineReaches_onItsWay [OF assms this] show ?thesis by (auto simp: onItsWay_def joinReturns_def)
qed

theorem engine_never_stops_witness:
  "\<exists>E E'. MatchingEngine_init (LFQueue_init OMEClientRequest_default 4) newQueues = Inr E \<and>
    engineReaches strayZero (startMatchingEngine E) E' \<and> isMatchingEngineRunning E' \<and> stopRequested E' \<and> \<not> joinReturns E'"
proof -
  obtain E where E: "MatchingEngine_init (LFQueue_init OMEClientRequest_default 4) newQueues = Inr E"
    using MatchingEngine_init_ok [OF newQueues_ok] by blast
  let ?E1 = "(startMatchingEngine E)\<lparr>isRunning := True, workerPhase := Looping\<rparr>"
  have "engineStep strayZero (startMatchingEngine E) ?E1"
    by (rule engineStep.enter) (simp add: startMatchingEngine_def)
  then have reach: "engineReaches strayZero (startMatchingEngine E) (requestStop ?E1)"
    using engineReaches.refl engineReaches.step engineStep.stop by metis
  from engine_never_stops [OF reach] E reach show ?thesis
    by (intro exI [of _ E] exI [of _ "requestStop ?E1"]) (simp add: requestStop_def isMatchingEngineRunning_def)
qed

end
