(* ===== verification/Wire_Format.thy ===== *)
theory Wire_Format
  imports Exchange_Messages
begin

text \<open>
  The messages as bytes. The structures of order_server_request.h and order_server_response.h are
  packed (\<open>#pragma pack(push, 1)\<close>) and travel as they lie in memory, on a little-endian machine;
  the gateway reads them with a \<open>reinterpret_cast\<close>.
\<close>

type_synonym byte = "8 word"

section \<open>Integers\<close>

fun nat_bytes :: "nat \<Rightarrow> nat \<Rightarrow> byte list" where
  "nat_bytes 0 k = []"
| "nat_bytes (Suc n) k = word_of_nat (k mod 256) # nat_bytes n (k div 256)"

fun bytes_nat :: "byte list \<Rightarrow> nat" where
  "bytes_nat [] = 0"
| "bytes_nat (b # bs) = unat b + 256 * bytes_nat bs"

definition le_bytes :: "nat \<Rightarrow> 'a::len word \<Rightarrow> byte list" where
  "le_bytes n w = nat_bytes n (unat w)"

definition le_word :: "byte list \<Rightarrow> 'a::len word" where
  "le_word bs = word_of_nat (bytes_nat bs)"

lemma length_nat_bytes [simp]: "length (nat_bytes n k) = n"
  by (induction n arbitrary: k) auto

lemma length_le_bytes [simp]: "length (le_bytes n w) = n"
  by (simp add: le_bytes_def)

lemma unat_byte_of_nat: "unat (word_of_nat (k mod 256) :: byte) = k mod 256"
  by (simp add: unat_of_nat)

lemma unat_byte_less: "unat (b :: byte) < 256"
  using unsigned_less [where ?'a = nat, of b] by simp

lemma bytes_nat_bytes: "bytes_nat (nat_bytes n k) = k mod 256 ^ n"
proof (induction n arbitrary: k)
  case (Suc n)
  have "k mod 256 + 256 * (k div 256 mod 256 ^ n) = k mod 256 ^ Suc n"
    using mod_mult2_eq [of k 256 "256 ^ n"] by simp
  with Suc [of "k div 256"] unat_byte_of_nat [of k] show ?case by simp
qed simp

lemma bytes_nat_bound: "bytes_nat bs < 256 ^ length bs"
proof (induction bs)
  case (Cons b bs)
  from unat_byte_less [of b] Cons show ?case by simp
qed simp

lemma nat_bytes_nat: "nat_bytes (length bs) (bytes_nat bs) = bs"
proof (induction bs)
  case (Cons b bs)
  from unat_byte_less [of b] Cons show ?case by simp
qed simp

lemma le_word_bytes: "LENGTH('a) = 8 * n \<Longrightarrow> le_word (le_bytes n w) = w" for w :: "'a::len word"
proof -
  assume "LENGTH('a) = 8 * n"
  then have "(256::nat) ^ n = 2 ^ LENGTH('a)" by (simp add: power_mult)
  then show ?thesis by (simp add: le_word_def le_bytes_def bytes_nat_bytes)
qed

lemma le_bytes_word:
  assumes "LENGTH('a::len) = 8 * length bs"
  shows "le_bytes (length bs) (le_word bs :: 'a word) = bs"
proof -
  have "256 ^ length bs = (2::nat) ^ LENGTH('a)" using assms by (simp add: power_mult)
  then have "unat (word_of_nat (bytes_nat bs) :: 'a word) = bytes_nat bs"
    using bytes_nat_bound [of bs] by (simp add: unat_of_nat)
  then show ?thesis by (simp add: le_bytes_def le_word_def nat_bytes_nat)
qed

text \<open>The widths in use.\<close>

lemma le_word_bytes_4 [simp]: "le_word (le_bytes 4 w) = w" for w :: "32 word"
  by (simp add: le_word_bytes)

lemma le_word_bytes_8 [simp]: "le_word (le_bytes 8 w) = w" for w :: "64 word"
  by (simp add: le_word_bytes)

lemma le_bytes_word_4 [simp]: "length bs = 4 \<Longrightarrow> le_bytes 4 (le_word bs :: 32 word) = bs"
  using le_bytes_word [where 'a = 32, of bs] by simp

lemma le_bytes_word_8 [simp]: "length bs = 8 \<Longrightarrow> le_bytes 8 (le_word bs :: 64 word) = bs"
  using le_bytes_word [where 'a = 64, of bs] by simp

section \<open>Enumerations\<close>

fun byte_of_side :: "Side \<Rightarrow> byte" where
  "byte_of_side Side_INVALID = 0"
| "byte_of_side BUY = 1"
| "byte_of_side SELL = - 1"
| "byte_of_side (Side_other b) = b"

fun byte_of_reqType :: "RequestType \<Rightarrow> byte" where
  "byte_of_reqType Req_INVALID = 0"
| "byte_of_reqType Req_NEW = 1"
| "byte_of_reqType Req_CANCEL = 2"
| "byte_of_reqType (Req_other b) = b"

definition reqType_of_byte :: "byte \<Rightarrow> RequestType" where
  "reqType_of_byte b = (if b = 0 then Req_INVALID else if b = 1 then Req_NEW else if b = 2 then Req_CANCEL else Req_other b)"

fun byte_of_resType :: "ResponseType \<Rightarrow> byte" where
  "byte_of_resType Res_INVALID = 0"
| "byte_of_resType Res_ACCEPTED = 1"
| "byte_of_resType Res_CANCELLED = 2"
| "byte_of_resType Res_FILLED = 3"
| "byte_of_resType Res_CANCEL_REJECTED = 4"

text \<open>A byte with a name is not written as \<open>other\<close>.\<close>

definition side_proper :: "Side \<Rightarrow> bool" where
  "side_proper sd \<longleftrightarrow> side_of_byte (byte_of_side sd) = sd"

definition reqType_proper :: "RequestType \<Rightarrow> bool" where
  "reqType_proper ty \<longleftrightarrow> reqType_of_byte (byte_of_reqType ty) = ty"

lemma byte_of_side_of_byte [simp]: "byte_of_side (side_of_byte b) = b"
  by (simp add: side_of_byte_def)

lemma byte_of_reqType_of_byte [simp]: "byte_of_reqType (reqType_of_byte b) = b"
  by (simp add: reqType_of_byte_def)

section \<open>Requests\<close>

definition OGS_REQUEST_SIZE :: nat where
  "OGS_REQUEST_SIZE = 38"

lemma OGS_REQUEST_SIZE_pos [simp]: "0 < OGS_REQUEST_SIZE"
  by (simp add: OGS_REQUEST_SIZE_def)

definition encodeRequest :: "OMEClientRequest \<Rightarrow> byte list" where
  "encodeRequest r =
     byte_of_reqType (req_type r) # le_bytes 4 (req_clientId r) @ le_bytes 4 (req_tickerId r) @
     le_bytes 8 (req_orderId r) @ byte_of_side (req_side r) # le_bytes 8 (req_price r) @ le_bytes 4 (req_qty r)"

definition encodeOGSRequest :: "OGSClientRequest \<Rightarrow> byte list" where
  "encodeOGSRequest r = le_bytes 8 (ogs_nSeq r) @ encodeRequest (omeRequest r)"

text \<open>What the fields of the structure are when its memory holds the given bytes.\<close>

definition bytesAt :: "nat \<Rightarrow> nat \<Rightarrow> byte list \<Rightarrow> byte list" where
  "bytesAt off n bs = take n (drop off bs)"

definition decodeRequest :: "byte list \<Rightarrow> OMEClientRequest" where
  "decodeRequest bs =
     \<lparr>req_type = reqType_of_byte (bs ! 0), req_clientId = le_word (bytesAt 1 4 bs),
      req_tickerId = le_word (bytesAt 5 4 bs), req_orderId = le_word (bytesAt 9 8 bs),
      req_side = side_of_byte (bs ! 17), req_price = le_word (bytesAt 18 8 bs),
      req_qty = le_word (bytesAt 26 4 bs)\<rparr>"

definition decodeOGSRequest :: "byte list \<Rightarrow> OGSClientRequest" where
  "decodeOGSRequest bs = \<lparr>ogs_nSeq = le_word (bytesAt 0 8 bs), omeRequest = decodeRequest (bytesAt 8 30 bs)\<rparr>"

definition request_proper :: "OGSClientRequest \<Rightarrow> bool" where
  "request_proper r \<longleftrightarrow> side_proper (req_side (omeRequest r)) \<and> reqType_proper (req_type (omeRequest r))"

lemma length_encodeRequest [simp]: "length (encodeRequest r) = 30"
  by (simp add: encodeRequest_def)

lemma length_encodeOGSRequest [simp]: "length (encodeOGSRequest r) = OGS_REQUEST_SIZE"
  by (simp add: encodeOGSRequest_def OGS_REQUEST_SIZE_def)

lemma decode_encodeRequest:
  "side_proper (req_side r) \<Longrightarrow> reqType_proper (req_type r) \<Longrightarrow> decodeRequest (encodeRequest r) = r"
  by (cases r) (simp add: decodeRequest_def encodeRequest_def bytesAt_def nth_append side_proper_def reqType_proper_def)

lemma decode_encodeOGSRequest: "request_proper r \<Longrightarrow> decodeOGSRequest (encodeOGSRequest r) = r"
  by (cases r) (simp add: decodeOGSRequest_def encodeOGSRequest_def bytesAt_def request_proper_def decode_encodeRequest)

lemma decodeOGSRequest_proper: "request_proper (decodeOGSRequest bs)"
  by (simp add: request_proper_def decodeOGSRequest_def decodeRequest_def side_proper_def reqType_proper_def)

text \<open>Cutting a list at the offsets of the fields.\<close>

lemma bytesAt_step: "n \<le> m \<Longrightarrow> bytesAt off n bs @ bytesAt (off + n) (m - n) bs = bytesAt off m bs"
  by (simp add: bytesAt_def drop_drop add.commute take_add [symmetric] flip: drop_drop)

lemma bytesAt_one: "off < length bs \<Longrightarrow> 0 < m \<Longrightarrow> bs ! off # bytesAt (Suc off) (m - 1) bs = bytesAt off m bs"
  by (cases m) (simp_all add: bytesAt_def Cons_nth_drop_Suc [symmetric])

lemma encode_decodeRequest:
  assumes "length bs = 30"
  shows "encodeRequest (decodeRequest bs) = bs"
proof -
  have "bytesAt 0 30 bs = bs" using assms by (simp add: bytesAt_def)
  moreover have "bs ! 17 # bytesAt 18 8 bs @ bytesAt 26 4 bs = bytesAt 17 13 bs"
    using bytesAt_step [of 8 12 18 bs] bytesAt_one [of 17 bs 13] assms by simp
  then have "bs ! 0 # bytesAt 1 4 bs @ bytesAt 5 4 bs @ bytesAt 9 8 bs @ bs ! 17 # bytesAt 18 8 bs @ bytesAt 26 4 bs = bytesAt 0 30 bs"
    using bytesAt_step [of 8 21 9 bs] bytesAt_step [of 4 25 5 bs] bytesAt_step [of 4 29 1 bs] bytesAt_one [of 0 bs 30] assms by simp
  ultimately show ?thesis using assms by (simp add: encodeRequest_def decodeRequest_def bytesAt_def)
qed

lemma encode_decodeOGSRequest: "length bs = OGS_REQUEST_SIZE \<Longrightarrow> encodeOGSRequest (decodeOGSRequest bs) = bs"
  by (simp add: encodeOGSRequest_def decodeOGSRequest_def encode_decodeRequest bytesAt_def OGS_REQUEST_SIZE_def)

section \<open>Responses\<close>

definition OME_RESPONSE_SIZE :: nat where
  "OME_RESPONSE_SIZE = 42"

definition encodeResponse :: "OMEClientResponse \<Rightarrow> byte list" where
  "encodeResponse r =
     byte_of_resType (res_type r) # le_bytes 4 (res_clientId r) @ le_bytes 4 (res_tickerId r) @
     le_bytes 8 (res_clientOrderId r) @ le_bytes 8 (res_marketOrderId r) @ byte_of_side (res_side r) #
     le_bytes 8 (res_price r) @ le_bytes 4 (qtyExec r) @ le_bytes 4 (qtyRemain r)"

lemma length_encodeResponse [simp]: "length (encodeResponse r) = OME_RESPONSE_SIZE"
  by (simp add: encodeResponse_def OME_RESPONSE_SIZE_def)

section \<open>Streams of messages of one size\<close>

text \<open>The complete blocks of a byte stream, and what follows the last one.\<close>

function blocks :: "nat \<Rightarrow> 'a list \<Rightarrow> 'a list list" where
  "blocks n bs = (if n = 0 \<or> length bs < n then [] else take n bs # blocks n (drop n bs))"
  by pat_completeness auto
termination
  by (relation "measure (\<lambda>(n, bs). length bs)") auto

function leftover :: "nat \<Rightarrow> 'a list \<Rightarrow> 'a list" where
  "leftover n bs = (if n = 0 \<or> length bs < n then bs else leftover n (drop n bs))"
  by pat_completeness auto
termination
  by (relation "measure (\<lambda>(n, bs). length bs)") auto

declare blocks.simps [simp del] leftover.simps [simp del]

lemma blocks_short [simp]: "length bs < n \<Longrightarrow> blocks n bs = []"
  by (subst blocks.simps) simp

lemma leftover_short [simp]: "length bs < n \<Longrightarrow> leftover n bs = bs"
  by (subst leftover.simps) simp

lemma blocks_Cons: "length b = n \<Longrightarrow> 0 < n \<Longrightarrow> blocks n (b @ bs) = b # blocks n bs"
  by (subst blocks.simps) simp

lemma leftover_Cons: "length b = n \<Longrightarrow> 0 < n \<Longrightarrow> leftover n (b @ bs) = leftover n bs"
  by (subst leftover.simps) simp

lemma length_leftover: "0 < n \<Longrightarrow> length (leftover n bs) < n"
  by (induction n bs rule: leftover.induct) (subst leftover.simps, auto)

lemma length_leftover_mod: "length (leftover n bs) = length bs mod n"
  by (induction n bs rule: leftover.induct) (subst leftover.simps, auto simp: le_mod_geq)

lemma leftover_suffix: "leftover n bs = drop (length bs - length (leftover n bs)) bs"
proof -
  have "\<exists>us. bs = us @ leftover n bs"
  proof (induction n bs rule: leftover.induct)
    case (1 n bs)
    show ?case
    proof (cases "n = 0 \<or> length bs < n")
      case False
      with 1 obtain us where "drop n bs = us @ leftover n (drop n bs)" by blast
      then have "\<exists>us. bs = us @ leftover n (drop n bs)" by (metis append.assoc append_take_drop_id)
      with False show ?thesis by (subst leftover.simps) simp
    qed (subst leftover.simps, auto)
  qed
  then obtain us where "bs = us @ leftover n bs" by blast
  then show ?thesis by (metis append_eq_conv_conj diff_add_inverse2 length_append)
qed

lemma blocks_length: "b \<in> set (blocks n bs) \<Longrightarrow> length b = n"
  by (induction n bs rule: blocks.induct) (subst (asm) (2) blocks.simps, auto split: if_splits)

text \<open>A stream can be cut anywhere: what is left of the first part is continued by the second.\<close>

lemma stream_cut:
  assumes "0 < n"
  shows "blocks n (as @ bs) = blocks n as @ blocks n (leftover n as @ bs) \<and>
    leftover n (as @ bs) = leftover n (leftover n as @ bs)"
  using assms
proof (induction n as rule: blocks.induct)
  case (1 n as)
  show ?case
  proof (cases "length as < n")
    case False
    define a where "a = take n as"
    define r where "r = drop n as"
    have as: "as = a @ r" "length a = n" using False by (simp_all add: a_def r_def)
    from 1 False have "blocks n (r @ bs) = blocks n r @ blocks n (leftover n r @ bs) \<and>
        leftover n (r @ bs) = leftover n (leftover n r @ bs)" by (simp add: r_def)
    with as 1(2) show ?thesis by (simp add: blocks_Cons leftover_Cons)
  qed simp
qed

text \<open>A message format of fixed size.\<close>

locale fixed_codec =
  fixes proper :: "'m \<Rightarrow> bool"
    and enc :: "'m \<Rightarrow> byte list"
    and dec :: "byte list \<Rightarrow> 'm"
    and msize :: nat
  assumes size_pos: "0 < msize"
    and length_enc: "length (enc m) = msize"
    and dec_enc: "proper m \<Longrightarrow> dec (enc m) = m"
    and enc_dec: "length bs = msize \<Longrightarrow> enc (dec bs) = bs"
    and dec_proper: "proper (dec bs)"
begin

lemma stream_parse:
  assumes "list_all proper ms" "length rest < msize"
  shows "map dec (blocks msize (concat (map enc ms) @ rest)) = ms \<and> leftover msize (concat (map enc ms) @ rest) = rest"
  using assms(1)
  by (induction ms) (simp_all add: assms(2) blocks_Cons leftover_Cons length_enc size_pos dec_enc)

lemma stream_print: "concat (map enc (map dec (blocks msize bs))) @ leftover msize bs = bs"
proof (induction bs rule: length_induct)
  case (1 bs)
  show ?case
  proof (cases "length bs < msize")
    case False
    define b where "b = take msize bs"
    define r where "r = drop msize bs"
    have bs: "bs = b @ r" "length b = msize" using False by (simp_all add: b_def r_def)
    then have "concat (map enc (map dec (blocks msize r))) @ leftover msize r = r" using 1 size_pos by auto
    with bs show ?thesis by (simp add: blocks_Cons leftover_Cons size_pos enc_dec)
  qed simp
qed

end

interpretation request_codec: fixed_codec request_proper encodeOGSRequest decodeOGSRequest OGS_REQUEST_SIZE
  by unfold_locales
    (simp_all add: decode_encodeOGSRequest encode_decodeOGSRequest decodeOGSRequest_proper)

section \<open>Properties\<close>

text \<open>C27: the bytes of a sequence of requests, followed by less than one more request, parse back to exactly these requests
  and that rest; and any bytes at all are what their parsed requests and the rest are written as.\<close>

theorem request_stream_roundtrip:
  assumes "list_all request_proper rs" "length rest < OGS_REQUEST_SIZE"
  shows "map decodeOGSRequest (blocks OGS_REQUEST_SIZE (concat (map encodeOGSRequest rs) @ rest)) = rs \<and>
    leftover OGS_REQUEST_SIZE (concat (map encodeOGSRequest rs) @ rest) = rest \<and>
    concat (map encodeOGSRequest (map decodeOGSRequest (blocks OGS_REQUEST_SIZE bs))) @ leftover OGS_REQUEST_SIZE bs = bs"
  using request_codec.stream_parse [OF assms] request_codec.stream_print by blast

theorem request_stream_roundtrip_witness:
  "map decodeOGSRequest (blocks OGS_REQUEST_SIZE (concat (map encodeOGSRequest
      [\<lparr>ogs_nSeq = 1, omeRequest = OMEClientRequest_default\<rparr>, \<lparr>ogs_nSeq = 2, omeRequest = OMEClientRequest_default\<rparr>]) @ [1, 2, 3])) =
    [\<lparr>ogs_nSeq = 1, omeRequest = OMEClientRequest_default\<rparr>, \<lparr>ogs_nSeq = 2, omeRequest = OMEClientRequest_default\<rparr>]"
proof -
  let ?rs = "[\<lparr>ogs_nSeq = 1, omeRequest = OMEClientRequest_default\<rparr>, \<lparr>ogs_nSeq = 2, omeRequest = OMEClientRequest_default\<rparr>]"
  have "list_all request_proper ?rs"
    by (simp add: request_proper_def OMEClientRequest_default_def side_proper_def reqType_proper_def side_of_byte_def reqType_of_byte_def)
  from request_stream_roundtrip [OF this, of "[1, 2, 3]"] show ?thesis by (simp add: OGS_REQUEST_SIZE_def)
qed

end
