(* ===== verification/Socket_Utils.thy ===== *)
theory Socket_Utils
  imports Exchange_Types
begin

unbundle bit_operations_syntax

text \<open>
  src/src/lib/socket_utils.h: the configuration of a socket and the sequence of system calls that makes
  one. What the calls answer is an argument; the checks of the answers are the code's.
\<close>

section \<open>Configuration\<close>

definition MaxTCPServerBacklog :: nat where
  "MaxTCPServerBacklog = 1024"

record SocketConfig =
  ipAddress :: string
  interfaceName :: string
  portNumber :: int
  useUdp :: bool
  isListeningMode :: bool
  enableTimestamp :: bool

definition boolStr :: "bool \<Rightarrow> string" where
  "boolStr b = (if b then ''true'' else ''false'')"

definition SocketConfig_toString :: "SocketConfig \<Rightarrow> string" where
  "SocketConfig_toString c =
     ''ip:'' @ ipAddress c @ '' interface:'' @ interfaceName c @ '' port:'' @ to_string_int (portNumber c) @
     '' udp:'' @ boolStr (useUdp c) @ '' listening:'' @ boolStr (isListeningMode c) @
     '' timestamp:'' @ boolStr (enableTimestamp c)"

text \<open>An entry of the list of interfaces: its name, whether it has an IPv4 address, and the text
  \<open>getnameinfo\<close> writes for it.\<close>

record Interface =
  ifa_name :: string
  ifa_inet :: bool
  ifa_host :: string

definition getIpAddressForInterface :: "Interface list option \<Rightarrow> string \<Rightarrow> string" where
  "getIpAddressForInterface ifaddrs name =
     (case ifaddrs of None \<Rightarrow> []
      | Some ifs \<Rightarrow> (case find (\<lambda>i. ifa_inet i \<and> name = ifa_name i) ifs of None \<Rightarrow> [] | Some i \<Rightarrow> ifa_host i))"

section \<open>Options\<close>

definition O_NONBLOCK :: int where
  "O_NONBLOCK = 2048"

text \<open>The two answers of \<open>fcntl\<close>: the flags, and the result of setting them.\<close>

definition setSocketNonBlocking :: "int \<Rightarrow> (int \<Rightarrow> int) \<Rightarrow> bool" where
  "setSocketNonBlocking flags setFlags =
     (if flags = - 1 then False else setFlags (flags OR O_NONBLOCK) \<noteq> - 1)"

definition disableNagleAlgorithm :: "int \<Rightarrow> bool" where
  "disableNagleAlgorithm answer \<longleftrightarrow> answer \<noteq> - 1"

definition enableSocketTimestamp :: "int \<Rightarrow> bool" where
  "enableSocketTimestamp answer \<longleftrightarrow> answer \<noteq> - 1"

definition joinMulticastGroup :: "int \<Rightarrow> bool" where
  "joinMulticastGroup answer \<longleftrightarrow> answer \<noteq> - 1"

section \<open>Making a socket\<close>

text \<open>What the system answers for one of the addresses found.\<close>

record SocketAnswers =
  ans_socket :: int
  ans_getFlags :: int
  ans_setFlags :: "int \<Rightarrow> int"
  ans_noDelay :: int
  ans_connect :: int
  ans_reuseAddr :: int
  ans_bind :: int
  ans_listen :: int
  ans_timestamp :: int

definition assert_that :: "bool \<Rightarrow> string \<Rightarrow> unit res" where
  "assert_that c msg = (if c then Inr () else Inl (AssertFailed msg))"

text \<open>The body of the loop over the addresses: a chain of assertions. A connection is made only when the
  socket is not listening; it is asserted that \<open>connect\<close> answers \<open>-1\<close>.\<close>

definition setupSocket :: "SocketConfig \<Rightarrow> int \<Rightarrow> SocketAnswers \<Rightarrow> int res" where
  "setupSocket cfg fd a =
     bind_res (assert_that (ans_socket a \<noteq> - 1) ''socket() failed.'') (\<lambda>_.
     bind_res (assert_that (setSocketNonBlocking (ans_getFlags a) (ans_setFlags a)) ''setNonBlocking() failed.'') (\<lambda>_.
     bind_res (assert_that (\<not> useUdp cfg \<longrightarrow> disableNagleAlgorithm (ans_noDelay a)) ''disableNagle() failed.'') (\<lambda>_.
     bind_res (assert_that (\<not> isListeningMode cfg \<longrightarrow> ans_connect a = - 1) ''connect() failed.'') (\<lambda>_.
     bind_res (assert_that (isListeningMode cfg \<longrightarrow> ans_reuseAddr a = 0) ''setsockopt() SO_REUSEADDR failed.'') (\<lambda>_.
     bind_res (assert_that (isListeningMode cfg \<longrightarrow> ans_bind a = 0) ''bind() failed.'') (\<lambda>_.
     bind_res (assert_that (\<not> useUdp cfg \<and> isListeningMode cfg \<longrightarrow> ans_listen a = 0) ''listen() failed.'') (\<lambda>_.
     bind_res (assert_that (enableTimestamp cfg \<longrightarrow> enableSocketTimestamp (ans_timestamp a)) ''setSOTimestamp() failed.'') (\<lambda>_.
       Inr (ans_socket a)))))))))"

text \<open>
  What the system knows of the network: its interfaces (none if \<open>getifaddrs\<close> fails), and what
  \<open>getaddrinfo\<close> answers for a host, a service, the passive flag and the datagram flag, with the answers
  of the later calls for every address it finds.
\<close>

record Network =
  ifaddrs :: "Interface list option"
  getaddrinfo :: "string \<Rightarrow> string \<Rightarrow> bool \<Rightarrow> bool \<Rightarrow> int \<times> SocketAnswers list"

definition socketIp :: "Network \<Rightarrow> SocketConfig \<Rightarrow> string" where
  "socketIp net cfg =
     (if ipAddress cfg = [] then getIpAddressForInterface (ifaddrs net) (interfaceName cfg) else ipAddress cfg)"

text \<open>The descriptor \<open>createSocket\<close> returns is that of the last address.\<close>

definition createSocket :: "Network \<Rightarrow> SocketConfig \<Rightarrow> int res" where
  "createSocket net cfg =
     (case getaddrinfo net (socketIp net cfg) (to_string_int (portNumber cfg)) (isListeningMode cfg) (useUdp cfg) of
       (rc, answers) \<Rightarrow>
         bind_res (assert_that (rc = 0) ''getaddrinfo() failed.'') (\<lambda>_. runAll (setupSocket cfg) (- 1) answers))"

section \<open>Which sockets are made\<close>

definition setupOk :: "SocketConfig \<Rightarrow> SocketAnswers \<Rightarrow> bool" where
  "setupOk cfg a \<longleftrightarrow> ans_socket a \<noteq> - 1 \<and> setSocketNonBlocking (ans_getFlags a) (ans_setFlags a) \<and>
     (\<not> useUdp cfg \<longrightarrow> ans_noDelay a \<noteq> - 1) \<and> (\<not> isListeningMode cfg \<longrightarrow> ans_connect a = - 1) \<and>
     (isListeningMode cfg \<longrightarrow> ans_reuseAddr a = 0 \<and> ans_bind a = 0 \<and> (\<not> useUdp cfg \<longrightarrow> ans_listen a = 0)) \<and>
     (enableTimestamp cfg \<longrightarrow> ans_timestamp a \<noteq> - 1)"

lemma assert_that_Inr [simp]: "assert_that c msg = Inr x \<longleftrightarrow> c"
  by (simp add: assert_that_def)

lemma setupSocket_eq: "setupSocket cfg fd a = Inr fd' \<longleftrightarrow> setupOk cfg a \<and> fd' = ans_socket a"
  by (auto simp: setupSocket_def setupOk_def disableNagleAlgorithm_def enableSocketTimestamp_def)

lemma setupAll_eq:
  "runAll (setupSocket cfg) fd as = Inr fd' \<longleftrightarrow> list_all (setupOk cfg) as \<and> fd' = (if as = [] then fd else ans_socket (last as))"
  by (induction as arbitrary: fd) (auto simp: setupSocket_eq)

lemma assert_chain: "bind_res (assert_that c msg) f = Inl e \<longleftrightarrow> \<not> c \<and> e = AssertFailed msg \<or> c \<and> f () = Inl e"
  by (auto simp: assert_that_def)

lemma setupSocket_fails: "setupSocket cfg fd a = Inl e \<Longrightarrow> \<exists>msg. e = AssertFailed msg"
  by (auto simp: setupSocket_def assert_chain)

lemma setupAll_fails: "runAll (setupSocket cfg) fd as = Inl e \<Longrightarrow> \<exists>msg. e = AssertFailed msg"
proof (induction as arbitrary: fd)
  case (Cons a as)
  then show ?case by (cases "setupSocket cfg fd a") (auto dest: setupSocket_fails)
qed simp

section \<open>Properties\<close>

abbreviation lookup :: "Network \<Rightarrow> SocketConfig \<Rightarrow> int \<times> SocketAnswers list" where
  "lookup net cfg \<equiv>
     getaddrinfo net (socketIp net cfg) (to_string_int (portNumber cfg)) (isListeningMode cfg) (useUdp cfg)"

abbreviation sampleAnswers :: "int \<Rightarrow> int \<Rightarrow> SocketAnswers" where
  "sampleAnswers fd conn \<equiv> \<lparr>ans_socket = fd, ans_getFlags = 2, ans_setFlags = (\<lambda>fl. if fl = 2050 then 0 else - 1), ans_noDelay = 0,
     ans_connect = conn, ans_reuseAddr = 0, ans_bind = 0, ans_listen = 0, ans_timestamp = 0\<rparr>"

text \<open>A network with one interface, where every name but its address is unknown.\<close>

abbreviation sampleNetwork :: "SocketAnswers list \<Rightarrow> Network" where
  "sampleNetwork answers \<equiv> \<lparr>ifaddrs = Some [\<lparr>ifa_name = ''lo'', ifa_inet = True, ifa_host = ''127.0.0.1''\<rparr>],
     getaddrinfo = (\<lambda>host service passive udp. if host = ''127.0.0.1'' then (0, answers) else (- 2, []))\<rparr>"

abbreviation sampleConfig :: "bool \<Rightarrow> SocketConfig" where
  "sampleConfig listening \<equiv> \<lparr>ipAddress = [], interfaceName = ''lo'', portNumber = 12345, useUdp = False,
     isListeningMode = listening, enableTimestamp = True\<rparr>"

text \<open>A client socket whose connection succeeds at once ends the process: the assertion on \<open>connect\<close> asks for the
  answer of a failure.\<close>

theorem connected_socket_asserts:
  assumes "\<not> isListeningMode cfg" "a \<in> set (snd (lookup net cfg))" "ans_connect a = 0"
  shows "\<exists>msg. createSocket net cfg = Inl (AssertFailed msg)"
proof -
  obtain rc answers where l: "lookup net cfg = (rc, answers)" by (cases "lookup net cfg")
  have "\<not> setupOk cfg a" using assms(1,3) by (simp add: setupOk_def)
  then have "runAll (setupSocket cfg) (- 1) answers \<noteq> Inr fd" for fd
    using assms(2) l by (auto simp: setupAll_eq list_all_iff)
  then obtain e where "runAll (setupSocket cfg) (- 1) answers = Inl e" by (metis sumE)
  then show ?thesis using setupAll_fails l by (fastforce simp: createSocket_def assert_that_def)
qed

theorem connected_socket_asserts_witness:
  "\<exists>msg. createSocket (sampleNetwork [sampleAnswers 7 0]) (sampleConfig False) = Inl (AssertFailed msg)"
  by (rule connected_socket_asserts [of _ "sampleAnswers 7 0"])
    (simp_all add: socketIp_def getIpAddressForInterface_def)

end
