(* ===== verification/TCP_Socket.thy ===== *)
theory TCP_Socket
  imports Wire_Format Socket_Utils
begin

unbundle bit_operations_syntax

text \<open>
  \<open>utils::TCPSocket\<close> (src/src/lib/tcp_socket.h, tcp_socket.cpp): two byte buffers with the index of
  their first unused byte. The system calls are arguments: what \<open>recvmsg\<close> delivers, and the bytes
  handed to \<open>::send\<close> are a result. The callback on received data works on the socket and on the
  state of its owner.
\<close>

section \<open>Memory copies\<close>

text \<open>\<open>memcpy\<close> into and out of a buffer.\<close>

definition vwrite :: "'a vec \<Rightarrow> nat \<Rightarrow> 'a list \<Rightarrow> 'a vec res" where
  "vwrite v off bs =
     (if off + length bs \<le> vsize v
      then Inr (v\<lparr>velem := (\<lambda>i. if off \<le> i \<and> i < off + length bs then bs ! (i - off) else velem v i)\<rparr>)
      else Inl OutOfBounds)"

definition vread :: "'a vec \<Rightarrow> nat \<Rightarrow> nat \<Rightarrow> 'a list res" where
  "vread v off n = (if off + n \<le> vsize v then Inr (map (velem v) [off..<off + n]) else Inl OutOfBounds)"

definition vtake :: "nat \<Rightarrow> 'a vec \<Rightarrow> 'a list" where
  "vtake n v = map (velem v) [0..<n]"

lemma length_vtake [simp]: "length (vtake n v) = n"
  by (simp add: vtake_def)

lemma nth_vtake [simp]: "i < n \<Longrightarrow> vtake n v ! i = velem v i"
  by (simp add: vtake_def)

lemma vread_eq [simp]: "off + n \<le> vsize v \<Longrightarrow> vread v off n = Inr (drop off (vtake (off + n) v))"
  by (simp add: vread_def vtake_def drop_map)

lemma vwrite_in:
  assumes "off + length bs \<le> vsize v"
  shows "\<exists>w. vwrite v off bs = Inr w \<and> vsize w = vsize v \<and> vtake (off + length bs) w = vtake off v @ bs"
proof -
  let ?w = "v\<lparr>velem := (\<lambda>i. if off \<le> i \<and> i < off + length bs then bs ! (i - off) else velem v i)\<rparr>"
  have "vtake (off + length bs) ?w = vtake off v @ bs"
    by (rule nth_equalityI) (auto simp: nth_append vtake_def)
  then show ?thesis using assms by (simp add: vwrite_def)
qed

section \<open>State\<close>

definition TCPBufferSize :: nat where
  "TCPBufferSize = 64 * 1024 * 1024"

text \<open>\<open>recvCallback_\<close> is represented by whether one is set; \<open>socketAttrib_\<close> by the port in it, the
  only part that varies.\<close>

record TCPSocket =
  socketFd :: int
  outboundData :: "byte vec"
  inboundData :: "byte vec"
  nextSendValidIndex :: nat
  nextRcvValidIndex :: nat
  socketPort :: "16 word"
  hasRecvCallback :: bool

definition TCPSocket_init :: TCPSocket where
  "TCPSocket_init =
     \<lparr>socketFd = - 1, outboundData = vfill TCPBufferSize 0, inboundData = vfill TCPBufferSize 0,
      nextSendValidIndex = 0, nextRcvValidIndex = 0, socketPort = 0, hasRecvCallback = False\<rparr>"

section \<open>Operations\<close>

definition setSocketFd :: "TCPSocket \<Rightarrow> int \<Rightarrow> TCPSocket" where
  "setSocketFd s fd = s\<lparr>socketFd := fd\<rparr>"

definition setRecvCallback :: "TCPSocket \<Rightarrow> bool \<Rightarrow> TCPSocket" where
  "setRecvCallback s callback = s\<lparr>hasRecvCallback := callback\<rparr>"

definition restNextSendValidIndex :: "TCPSocket \<Rightarrow> TCPSocket" where
  "restNextSendValidIndex s = s\<lparr>nextSendValidIndex := 0\<rparr>"

definition restNextRcvValidIndex :: "TCPSocket \<Rightarrow> TCPSocket" where
  "restNextRcvValidIndex s = s\<lparr>nextRcvValidIndex := 0\<rparr>"

definition setNextRcvValidIndex :: "TCPSocket \<Rightarrow> nat \<Rightarrow> TCPSocket" where
  "setNextRcvValidIndex s i = s\<lparr>nextRcvValidIndex := i\<rparr>"

definition send :: "TCPSocket \<Rightarrow> byte list \<Rightarrow> TCPSocket res" where
  "send s bs =
     bind_res (vwrite (outboundData s) (nextSendValidIndex s) bs) (\<lambda>v.
       Inr (s\<lparr>outboundData := v, nextSendValidIndex := nextSendValidIndex s + length bs\<rparr>))"

text \<open>\<open>htons\<close> swaps the two bytes.\<close>

definition htons :: "int \<Rightarrow> 16 word" where
  "htons port = push_bit 8 (word_of_int port) OR drop_bit 8 (word_of_int port)"

definition connect :: "TCPSocket \<Rightarrow> string \<Rightarrow> string \<Rightarrow> int \<Rightarrow> bool \<Rightarrow> Network \<Rightarrow> (int \<times> TCPSocket) res" where
  "connect s ip ifname port isListening net =
     bind_res (createSocket net \<lparr>ipAddress = ip, interfaceName = ifname, portNumber = port, useUdp = False,
                            isListeningMode = isListening, enableTimestamp = True\<rparr>) (\<lambda>fd.
       Inr (fd, s\<lparr>socketFd := fd, socketPort := htons port\<rparr>))"

text \<open>What one \<open>recvmsg\<close> delivers: the bytes (none when it returns zero or fails), and the seconds
  and microseconds of the timestamp, if the control message has the expected form.\<close>

record Received =
  rcv_bytes :: "byte list"
  rcv_time :: "(64 word \<times> 64 word) option"

definition kernelTime :: "(64 word \<times> 64 word) option \<Rightarrow> Nanos" where
  "kernelTime stamp = (case stamp of None \<Rightarrow> 0
     | Some (sec, usec) \<Rightarrow> sec * NANOS_TO_SECS + usec * NANOS_TO_MICROS)"

type_synonym 'w callback = "TCPSocket \<Rightarrow> Nanos \<Rightarrow> 'w \<Rightarrow> (TCPSocket \<times> 'w) res"

definition fillBuffer :: "byte list \<Rightarrow> TCPSocket \<Rightarrow> TCPSocket res" where
  "fillBuffer bs s =
     bind_res (vwrite (inboundData s) (nextRcvValidIndex s) bs) (\<lambda>v.
       Inr (s\<lparr>inboundData := v, nextRcvValidIndex := nextRcvValidIndex s + length bs\<rparr>))"

definition receive :: "'w callback \<Rightarrow> Received \<Rightarrow> TCPSocket \<Rightarrow> 'w \<Rightarrow> (TCPSocket \<times> 'w) res" where
  "receive cb rx s w =
     (if rcv_bytes rx \<noteq> []
      then bind_res (fillBuffer (rcv_bytes rx) s) (\<lambda>s1.
             if hasRecvCallback s1 then cb s1 (kernelTime (rcv_time rx)) w else Inr (s1, w))
      else Inr (s, w))"

text \<open>The whole step: receive, then hand everything outbound to \<open>::send\<close> and forget it, whatever
  \<open>::send\<close> returns. The result has the bytes handed over, if any.\<close>

definition sendAndRecv ::
    "'w callback \<Rightarrow> Received \<Rightarrow> TCPSocket \<Rightarrow> 'w \<Rightarrow> (bool \<times> TCPSocket \<times> 'w \<times> byte list) res" where
  "sendAndRecv cb rx s w =
     bind_res (receive cb rx s w) (\<lambda>(s1, w1).
       bind_res (if nextSendValidIndex s1 > 0 then vread (outboundData s1) 0 (nextSendValidIndex s1) else Inr []) (\<lambda>sent.
         Inr (rcv_bytes rx \<noteq> [], restNextSendValidIndex s1, w1, sent)))"

section \<open>Buffers as lists of bytes\<close>

definition inBytes :: "TCPSocket \<Rightarrow> byte list" where
  "inBytes s = vtake (nextRcvValidIndex s) (inboundData s)"

definition outBytes :: "TCPSocket \<Rightarrow> byte list" where
  "outBytes s = vtake (nextSendValidIndex s) (outboundData s)"

definition socket_wf :: "TCPSocket \<Rightarrow> bool" where
  "socket_wf s \<longleftrightarrow> vsize (inboundData s) = TCPBufferSize \<and> vsize (outboundData s) = TCPBufferSize \<and>
     nextRcvValidIndex s \<le> TCPBufferSize \<and> nextSendValidIndex s \<le> TCPBufferSize"

lemma length_inBytes [simp]: "length (inBytes s) = nextRcvValidIndex s"
  by (simp add: inBytes_def)

lemma length_outBytes [simp]: "length (outBytes s) = nextSendValidIndex s"
  by (simp add: outBytes_def)

lemma TCPSocket_init_wf [simp]: "socket_wf TCPSocket_init" "inBytes TCPSocket_init = []" "outBytes TCPSocket_init = []"
  by (simp_all add: socket_wf_def TCPSocket_init_def inBytes_def outBytes_def vtake_def)

text \<open>Queued data is appended as long as it fits; then the write leaves the buffer.\<close>

lemma send_fits:
  assumes "socket_wf s" "nextSendValidIndex s + length bs \<le> TCPBufferSize"
  shows "\<exists>s'. send s bs = Inr s' \<and> socket_wf s' \<and> outBytes s' = outBytes s @ bs \<and> inBytes s' = inBytes s \<and>
    socketFd s' = socketFd s \<and> hasRecvCallback s' = hasRecvCallback s"
proof -
  obtain v where "vwrite (outboundData s) (nextSendValidIndex s) bs = Inr v" "vsize v = TCPBufferSize"
    "vtake (nextSendValidIndex s + length bs) v = outBytes s @ bs"
    using vwrite_in [of "nextSendValidIndex s" bs "outboundData s"] assms by (auto simp: socket_wf_def outBytes_def)
  with assms show ?thesis by (simp add: send_def socket_wf_def outBytes_def inBytes_def)
qed

lemma send_overflow:
  "socket_wf s \<Longrightarrow> TCPBufferSize < nextSendValidIndex s + length bs \<Longrightarrow> send s bs = Inl OutOfBounds"
  by (simp add: send_def vwrite_def socket_wf_def)

lemma fillBuffer_fits:
  assumes "socket_wf s" "nextRcvValidIndex s + length bs \<le> TCPBufferSize"
  shows "\<exists>s1. fillBuffer bs s = Inr s1 \<and> socket_wf s1 \<and> inBytes s1 = inBytes s @ bs \<and> outBytes s1 = outBytes s \<and>
    socketFd s1 = socketFd s \<and> hasRecvCallback s1 = hasRecvCallback s"
proof -
  from vwrite_in [of "nextRcvValidIndex s" bs "inboundData s"] assms obtain v where
    "vwrite (inboundData s) (nextRcvValidIndex s) bs = Inr v" "vsize v = TCPBufferSize"
    "vtake (nextRcvValidIndex s + length bs) v = inBytes s @ bs"
    by (auto simp: socket_wf_def inBytes_def)
  with assms show ?thesis by (simp add: fillBuffer_def socket_wf_def inBytes_def outBytes_def)
qed

lemma fillBuffer_keeps: "fillBuffer bs s = Inr s1 \<Longrightarrow> socket_wf s \<Longrightarrow> socket_wf s1"
  by (auto simp: fillBuffer_def vwrite_def socket_wf_def split: if_splits)

lemma sendAndRecv_flushes:
  assumes "receive cb rx s w = Inr (s1, w1)" "socket_wf s1"
  shows "sendAndRecv cb rx s w = Inr (rcv_bytes rx \<noteq> [], restNextSendValidIndex s1, w1, outBytes s1)"
  using assms by (auto simp: sendAndRecv_def socket_wf_def outBytes_def vtake_def)

end
