(* ===== verification/TCP_Server.thy ===== *)
theory TCP_Server
  imports TCP_Socket Memory_Pool
begin

text \<open>
  \<open>utils::TCPServer\<close> (src/src/lib/tcp_server.h, tcp_server.cpp), the Linux build. Sockets of
  connections live in a pool of the server; a socket pointer is the listener or an address of that
  pool. What \<open>epoll_wait\<close>, \<open>accept\<close>, \<open>epoll_ctl\<close> and \<open>recvmsg\<close> answer
  are arguments.
\<close>

section \<open>State\<close>

definition MAX_EVENTS :: nat where
  "MAX_EVENTS = 1024"

datatype sockptr = Listener | Pooled nat

text \<open>The two callbacks are represented by whether they are set.\<close>

record TCPServer =
  eventFd :: int
  listenerSocket :: TCPSocket
  receiveSockets :: "sockptr list"
  sendSockets :: "sockptr list"
  socketPool :: "TCPSocket MemoryPool"
  hasRecvCallbackFn :: bool
  hasRecvFinishedCallback :: bool

definition TCPServer_init :: "TCPServer res" where
  "TCPServer_init =
     bind_res (MemoryPool_init MAX_EVENTS) (\<lambda>pool.
       Inr \<lparr>eventFd = - 1, listenerSocket = TCPSocket_init, receiveSockets = [], sendSockets = [],
            socketPool = pool, hasRecvCallbackFn = False, hasRecvFinishedCallback = False\<rparr>)"

definition rdS :: "TCPServer \<Rightarrow> sockptr \<Rightarrow> TCPSocket res" where
  "rdS srv p = (case p of Listener \<Rightarrow> Inr (listenerSocket srv) | Pooled i \<Rightarrow> deref (socketPool srv) (Some i))"

definition wrS :: "TCPServer \<Rightarrow> sockptr \<Rightarrow> TCPSocket \<Rightarrow> TCPServer res" where
  "wrS srv p s = (case p of Listener \<Rightarrow> Inr (srv\<lparr>listenerSocket := s\<rparr>)
     | Pooled i \<Rightarrow> bind_res (assign (socketPool srv) (Some i) (\<lambda>_. s)) (\<lambda>pool. Inr (srv\<lparr>socketPool := pool\<rparr>)))"

section \<open>Operations\<close>

definition stop_srv :: "TCPServer \<Rightarrow> TCPServer" where
  "stop_srv srv = srv\<lparr>eventFd := - 1, receiveSockets := [], sendSockets := []\<rparr>"

definition TCPServer_destroy :: "TCPServer \<Rightarrow> TCPServer" where
  "TCPServer_destroy srv = stop_srv srv"

definition setServerRecvFinishedCallback :: "TCPServer \<Rightarrow> bool \<Rightarrow> TCPServer" where
  "setServerRecvFinishedCallback srv callback = srv\<lparr>hasRecvFinishedCallback := callback\<rparr>"

definition setServerRecvCallback :: "TCPServer \<Rightarrow> bool \<Rightarrow> TCPServer" where
  "setServerRecvCallback srv callback = srv\<lparr>hasRecvCallbackFn := callback\<rparr>"

text \<open>\<open>listen\<close>, given the descriptor of the event system, what the calls that make the listening socket
  answer, and whether \<open>epoll_ctl\<close> accepts it.\<close>

definition listen_srv :: "TCPServer \<Rightarrow> string \<Rightarrow> int \<Rightarrow> int \<Rightarrow> Network \<Rightarrow> bool \<Rightarrow> TCPServer res" where
  "listen_srv srv ifname port epollFd net addOk =
     bind_res (connect (listenerSocket srv) [] ifname port True net) (\<lambda>(fd, s).
       if fd < 0 then Inl (AssertFailed ''Listener socket failed to connect.'')
       else if \<not> addOk then Inl (AssertFailed ''Unable to add listener socket to event system.'')
       else Inr (srv\<lparr>eventFd := epollFd, listenerSocket := s\<rparr>))"

text \<open>Appending a pointer that is not in the list yet.\<close>

definition pushUnique :: "'a \<Rightarrow> 'a list \<Rightarrow> 'a list" where
  "pushUnique p ps = (if p \<in> set ps then ps else ps @ [p])"

record Event =
  ev_socket :: sockptr
  ev_in :: bool
  ev_out :: bool
  ev_err :: bool

text \<open>One round of the loop over the events; the flag says that the listener has a new connection.\<close>

definition pollEvent :: "bool \<times> TCPServer \<Rightarrow> Event \<Rightarrow> (bool \<times> TCPServer) res" where
  "pollEvent st ev =
     (case st of (haveNew, srv) \<Rightarrow>
       bind_res (rdS srv (ev_socket ev)) (\<lambda>s.
         if ev_in ev \<and> ev_socket ev = Listener then Inr (True, srv)
         else
           (let srv1 = (if ev_in ev then srv\<lparr>receiveSockets := pushUnique (ev_socket ev) (receiveSockets srv)\<rparr> else srv);
                srv2 = (if ev_out ev then srv1\<lparr>sendSockets := pushUnique (ev_socket ev) (sendSockets srv1)\<rparr> else srv1);
                srv3 = (if ev_err ev then srv2\<lparr>receiveSockets := pushUnique (ev_socket ev) (receiveSockets srv2)\<rparr> else srv2)
            in Inr (haveNew, srv3))))"

text \<open>What the system says to one accepted connection: its descriptor, whether both socket options
  could be set, and whether it could be added to the event system.\<close>

record Accepted =
  acc_fd :: int
  acc_optionsOk :: bool
  acc_addOk :: bool

definition acceptOne :: "TCPServer \<Rightarrow> Accepted \<Rightarrow> TCPServer res" where
  "acceptOne srv a =
     (if \<not> acc_optionsOk a then Inl (AssertFailed ''Failed to set non-blocking or no-delay on socket'')
      else bind_res (allocate (socketPool srv) TCPSocket_init) (\<lambda>(socket, pool).
        bind_res (assign pool socket (\<lambda>s. setRecvCallback (setSocketFd s (acc_fd a)) (hasRecvCallbackFn srv))) (\<lambda>pool'.
          if \<not> acc_addOk a then Inl (AssertFailed ''Unable to add socket.'')
          else Inr (srv\<lparr>socketPool := pool', receiveSockets := pushUnique (Pooled (the socket)) (receiveSockets srv)\<rparr>))))"

text \<open>The number of events asked for, and the poll. The answer of \<open>epoll_wait\<close> goes to an array of
  \<open>MAX_EVENTS\<close>; \<open>accept\<close> is called until it has no more connections.\<close>

definition maxEvents :: "TCPServer \<Rightarrow> nat" where
  "maxEvents srv = 1 + length (sendSockets srv) + length (receiveSockets srv)"

definition poll :: "TCPServer \<Rightarrow> Event list \<Rightarrow> Accepted list \<Rightarrow> TCPServer res" where
  "poll srv events accs =
     (if length events > MAX_EVENTS then Inl OutOfBounds
      else bind_res (runAll pollEvent (False, srv) events) (\<lambda>(haveNew, srv1).
        if haveNew then runAll acceptOne srv1 accs else Inr srv1))"

text \<open>\<open>socket->sendAndRecv()\<close> for one socket of a list, with what the network has for it. The state
  carries the server, the state of the callbacks' owner, whether anything was received, and the data
  handed to the network.\<close>

type_synonym 'w pass = "bool \<times> TCPServer \<times> 'w \<times> (int \<times> byte list) list"

definition serveSocket :: "(sockptr \<Rightarrow> 'w callback) \<Rightarrow> 'w pass \<Rightarrow> sockptr \<times> Received \<Rightarrow> 'w pass res" where
  "serveSocket cb st job =
     (case st of (recv, srv, w, wire) \<Rightarrow> case job of (p, rx) \<Rightarrow>
       bind_res (rdS srv p) (\<lambda>s.
       bind_res (sendAndRecv (cb p) rx s w) (\<lambda>(r, s', w', sent).
       bind_res (wrS srv p s') (\<lambda>srv'. Inr (recv \<or> r, srv', w', wire @ [(socketFd s', sent)])))))"

definition sendAndReceive ::
    "(sockptr \<Rightarrow> 'w callback) \<Rightarrow> ('w \<Rightarrow> 'w res) \<Rightarrow> (nat \<Rightarrow> Received) \<Rightarrow> (nat \<Rightarrow> Received) \<Rightarrow>
     TCPServer \<Rightarrow> 'w \<Rightarrow> (TCPServer \<times> 'w \<times> (int \<times> byte list) list) res" where
  "sendAndReceive cb finished netR netS srv w =
     bind_res (runAll (serveSocket cb) (False, srv, w, [])
       (zip (receiveSockets srv) (map netR [0..<length (receiveSockets srv)]))) (\<lambda>(recv, srv1, w1, wire1).
     bind_res (if recv then (if hasRecvFinishedCallback srv1 then finished w1 else Inl (Uncaught ''std::bad_function_call'')) else Inr w1) (\<lambda>w2.
     bind_res (runAll (serveSocket cb) (False, srv1, w2, wire1)
       (zip (sendSockets srv1) (map netS [0..<length (sendSockets srv1)]))) (\<lambda>(_, srv2, w3, wire2).
       Inr (srv2, w3, wire2))))"

section \<open>Invariant\<close>

definition sock :: "TCPServer \<Rightarrow> sockptr \<Rightarrow> TCPSocket option" where
  "sock srv p = (case p of Listener \<Rightarrow> Some (listenerSocket srv) | Pooled i \<Rightarrow> live (socketPool srv) i)"

definition server_wf :: "TCPServer \<Rightarrow> bool" where
  "server_wf srv \<longleftrightarrow> pool_wf (socketPool srv) \<and> vsize (memoryBlocks (socketPool srv)) = MAX_EVENTS \<and>
     (\<forall>p s. sock srv p = Some s \<longrightarrow> socket_wf s) \<and>
     distinct (receiveSockets srv) \<and> distinct (sendSockets srv) \<and>
     (\<forall>p\<in>set (receiveSockets srv) \<union> set (sendSockets srv). p \<in> dom (sock srv))"

lemma rdS_eq_Inr [simp]: "rdS srv p = Inr s \<longleftrightarrow> sock srv p = Some s"
  by (auto simp: rdS_def sock_def split: sockptr.splits)

lemma rdS_sock: "sock srv p = Some s \<Longrightarrow> rdS srv p = Inr s"
  by simp

lemma TCPServer_init_wf:
  "\<exists>srv. TCPServer_init = Inr srv \<and> server_wf srv \<and> receiveSockets srv = [] \<and> sendSockets srv = [] \<and>
     listenerSocket srv = TCPSocket_init \<and> live (socketPool srv) = Map.empty \<and> nextFreeIndex (socketPool srv) = 0"
proof -
  obtain p :: "TCPSocket MemoryPool" where p: "MemoryPool_init MAX_EVENTS = Inr p" "pool_wf p" "live p = Map.empty"
    "vsize (memoryBlocks p) = MAX_EVENTS" using MemoryPool_init_wf [of MAX_EVENTS] by (auto simp: MAX_EVENTS_def)
  then have "nextFreeIndex p = 0" by (auto simp: MemoryPool_init_def split: if_splits)
  with p show ?thesis by (simp add: TCPServer_init_def server_wf_def sock_def split: sockptr.splits)
qed

lemma distinct_pushUnique [simp]: "distinct ps \<Longrightarrow> distinct (pushUnique p ps)"
  by (simp add: pushUnique_def)

lemma set_pushUnique [simp]: "set (pushUnique p ps) = insert p (set ps)"
  by (auto simp: pushUnique_def)

lemma sock_fields [simp]:
  "sock (srv\<lparr>receiveSockets := x\<rparr>) = sock srv" "sock (srv\<lparr>sendSockets := x\<rparr>) = sock srv" "sock (srv\<lparr>eventFd := k\<rparr>) = sock srv"
  "sock (srv\<lparr>hasRecvCallbackFn := f\<rparr>) = sock srv" "sock (srv\<lparr>hasRecvFinishedCallback := f\<rparr>) = sock srv"
  by (simp_all add: sock_def fun_eq_iff split: sockptr.splits)

text \<open>Two states of a server with the same connections and settings.\<close>

definition alike :: "TCPServer \<Rightarrow> TCPServer \<Rightarrow> bool" where
  "alike srv srv' \<longleftrightarrow> dom (sock srv') = dom (sock srv) \<and> hasRecvCallbackFn srv' = hasRecvCallbackFn srv \<and>
     (\<forall>n. packed (socketPool srv) n \<longrightarrow> packed (socketPool srv') n)"

lemma alike_refl [simp]: "alike srv srv"
  by (simp add: alike_def)

lemma alike_trans: "alike srv srv1 \<Longrightarrow> alike srv1 srv2 \<Longrightarrow> alike srv srv2"
  by (simp add: alike_def)

lemma wrS_ok:
  assumes "server_wf srv" "sock srv p = Some s" "socket_wf s'"
  shows "\<exists>srv'. wrS srv p s' = Inr srv' \<and> server_wf srv' \<and> sock srv' = (sock srv)(p \<mapsto> s') \<and>
    receiveSockets srv' = receiveSockets srv \<and> sendSockets srv' = sendSockets srv \<and>
    hasRecvFinishedCallback srv' = hasRecvFinishedCallback srv \<and> alike srv srv'"
proof (cases p)
  case Listener
  have "sock (srv\<lparr>listenerSocket := s'\<rparr>) = (sock srv)(Listener \<mapsto> s')"
    by (rule ext) (simp add: sock_def split: sockptr.splits)
  moreover have "Listener \<in> dom (sock srv)" by (simp add: sock_def domIff)
  ultimately show ?thesis using assms Listener by (auto simp: wrS_def server_wf_def alike_def)
next
  case (Pooled i)
  with assms have "live (socketPool srv) i = Some s" by (simp add: sock_def)
  from assign_ok [OF this, of "\<lambda>_. s'"] assms(1) obtain P where P: "assign (socketPool srv) (Some i) (\<lambda>_. s') = Inr P"
    "live P = (live (socketPool srv))(i \<mapsto> s')" "vsize (memoryBlocks P) = MAX_EVENTS" "pool_wf P"
    "nextFreeIndex P = nextFreeIndex (socketPool srv)" by (auto simp: server_wf_def)
  have sk: "sock (srv\<lparr>socketPool := P\<rparr>) = (sock srv)(Pooled i \<mapsto> s')"
    by (rule ext) (simp add: P(2) sock_def split: sockptr.splits)
  have "dom (live P) = dom (live (socketPool srv))" using P(2) assms(2) Pooled by (auto simp: sock_def)
  then have "alike srv (srv\<lparr>socketPool := P\<rparr>)" using sk assms(1,2) Pooled P(3,5) by (auto simp: alike_def packed_def server_wf_def)
  with P sk assms Pooled show ?thesis by (auto simp: wrS_def server_wf_def)
qed

section \<open>Polling\<close>

lemma pollEvent_ok:
  assumes "server_wf srv" "ev_socket ev \<in> dom (sock srv)"
  shows "\<exists>new' srv'. pollEvent (new, srv) ev = Inr (new', srv') \<and> server_wf srv' \<and> sock srv' = sock srv \<and>
    socketPool srv' = socketPool srv"
proof -
  obtain s where "rdS srv (ev_socket ev) = Inr s" using assms(2) by auto
  with assms show ?thesis by (auto simp: pollEvent_def server_wf_def Let_def)
qed

lemma pollEvents_ok:
  assumes "server_wf srv" "\<forall>ev\<in>set evs. ev_socket ev \<in> dom (sock srv)"
  shows "\<exists>new' srv'. runAll pollEvent (new, srv) evs = Inr (new', srv') \<and> server_wf srv' \<and> sock srv' = sock srv \<and>
    socketPool srv' = socketPool srv"
  using assms
proof (induction evs arbitrary: new srv)
  case (Cons ev evs)
  from pollEvent_ok [OF Cons.prems(1), of ev new] Cons.prems(2) obtain new1 srv1 where
    1: "pollEvent (new, srv) ev = Inr (new1, srv1)" "server_wf srv1" "sock srv1 = sock srv" "socketPool srv1 = socketPool srv"
    by auto
  with Cons.IH [OF 1(2), of new1] Cons.prems(2) show ?case by simp
qed simp

text \<open>An accepted connection gets a new socket as long as the pool has one.\<close>

lemma acceptOne_ok:
  assumes wf: "server_wf srv" and room: "card (dom (live (socketPool srv))) < MAX_EVENTS"
    and a: "acc_optionsOk a" "acc_addOk a"
  shows "\<exists>i srv'. acceptOne srv a = Inr srv' \<and> server_wf srv' \<and> live (socketPool srv) i = None \<and>
    live (socketPool srv') = (live (socketPool srv))(i \<mapsto> TCPSocket_init\<lparr>socketFd := acc_fd a, hasRecvCallback := hasRecvCallbackFn srv\<rparr>) \<and>
    receiveSockets srv' = pushUnique (Pooled i) (receiveSockets srv) \<and> listenerSocket srv' = listenerSocket srv"
proof -
  let ?i = "nextFreeIndex (socketPool srv)"
  let ?s = "TCPSocket_init\<lparr>socketFd := acc_fd a, hasRecvCallback := hasRecvCallbackFn srv\<rparr>"
  have pool: "pool_wf (socketPool srv)" "vsize (memoryBlocks (socketPool srv)) = MAX_EVENTS" using wf by (simp_all add: server_wf_def)
  from allocate_wf [OF pool(1), of TCPSocket_init] room pool(2) obtain P where
    P: "allocate (socketPool srv) TCPSocket_init = Inr (Some ?i, P)" "pool_wf P" "live (socketPool srv) ?i = None"
    "live P = (live (socketPool srv))(?i \<mapsto> TCPSocket_init)" "vsize (memoryBlocks P) = MAX_EVENTS" by auto
  from assign_ok [of P ?i TCPSocket_init "\<lambda>s. setRecvCallback (setSocketFd s (acc_fd a)) (hasRecvCallbackFn srv)"] P
  obtain Q where Q: "assign P (Some ?i) (\<lambda>s. setRecvCallback (setSocketFd s (acc_fd a)) (hasRecvCallbackFn srv)) = Inr Q"
    "live Q = (live (socketPool srv))(?i \<mapsto> ?s)" "vsize (memoryBlocks Q) = MAX_EVENTS" "pool_wf Q"
    by (auto simp: setRecvCallback_def setSocketFd_def)
  let ?srv = "srv\<lparr>socketPool := Q, receiveSockets := pushUnique (Pooled ?i) (receiveSockets srv)\<rparr>"
  have sk: "sock ?srv = (sock srv)(Pooled ?i \<mapsto> ?s)"
    by (rule ext) (simp add: Q(2) sock_def split: sockptr.splits)
  have "socket_wf ?s" using TCPSocket_init_wf(1) by (simp add: socket_wf_def)
  then have "server_wf ?srv" using wf Q(3,4) sk by (auto simp: server_wf_def)
  with P Q a show ?thesis by (auto simp: acceptOne_def)
qed

text \<open>While no socket is released the connections get the addresses 0, 1, 2 and so on.\<close>

lemma acceptOne_packed:
  assumes wf: "server_wf srv" and pk: "packed (socketPool srv) n" "n < MAX_EVENTS" and a: "acc_optionsOk a" "acc_addOk a"
  shows "\<exists>srv'. acceptOne srv a = Inr srv' \<and> server_wf srv' \<and> packed (socketPool srv') (Suc n) \<and>
    sock srv' = (sock srv)(Pooled n \<mapsto> TCPSocket_init\<lparr>socketFd := acc_fd a, hasRecvCallback := hasRecvCallbackFn srv\<rparr>) \<and>
    hasRecvCallbackFn srv' = hasRecvCallbackFn srv"
proof -
  let ?s = "TCPSocket_init\<lparr>socketFd := acc_fd a, hasRecvCallback := hasRecvCallbackFn srv\<rparr>"
  have pool: "pool_wf (socketPool srv)" "n < vsize (memoryBlocks (socketPool srv))" using wf pk(2) by (simp_all add: server_wf_def)
  from allocate_packed [OF pool(1) pk(1) pool(2), of TCPSocket_init] obtain P where
    P: "allocate (socketPool srv) TCPSocket_init = Inr (Some n, P)" "pool_wf P" "packed P (Suc n)"
    "live P = (live (socketPool srv))(n \<mapsto> TCPSocket_init)" by blast
  from assign_ok [of P n TCPSocket_init "\<lambda>s. setRecvCallback (setSocketFd s (acc_fd a)) (hasRecvCallbackFn srv)"] P
  obtain Q where Q: "assign P (Some n) (\<lambda>s. setRecvCallback (setSocketFd s (acc_fd a)) (hasRecvCallbackFn srv)) = Inr Q"
    "live Q = (live (socketPool srv))(n \<mapsto> ?s)" "vsize (memoryBlocks Q) = vsize (memoryBlocks P)" "nextFreeIndex Q = nextFreeIndex P"
    by (auto simp: setRecvCallback_def setSocketFd_def)
  have "packed Q (Suc n)" using P(3,4) Q(2-4) by (simp add: packed_def)
  moreover from acceptOne_ok [OF wf _ a] pk obtain srv' where s: "acceptOne srv a = Inr srv'" "server_wf srv'"
    by (auto simp: packed_def)
  moreover have "srv' = srv\<lparr>socketPool := Q, receiveSockets := pushUnique (Pooled n) (receiveSockets srv)\<rparr>"
    using s(1) a P(1) Q(1) by (simp add: acceptOne_def)
  moreover have "sock (srv\<lparr>socketPool := Q, receiveSockets := pushUnique (Pooled n) (receiveSockets srv)\<rparr>) = (sock srv)(Pooled n \<mapsto> ?s)"
    by (rule ext) (simp add: Q(2) sock_def split: sockptr.splits)
  ultimately show ?thesis by auto
qed

lemma acceptOne_full:
  assumes "server_wf srv" "card (dom (live (socketPool srv))) = MAX_EVENTS" "acc_optionsOk a"
  shows "acceptOne srv a = Inl NullDeref"
proof -
  have "allocate (socketPool srv) TCPSocket_init = Inr (None, socketPool srv)"
    using allocate_full [of "socketPool srv" TCPSocket_init] assms(1,2) by (simp add: server_wf_def)
  then show ?thesis using assms(3) by (simp add: acceptOne_def assign_def)
qed

lemma accepts_ok:
  assumes "server_wf srv" "card (dom (live (socketPool srv))) + length accs \<le> MAX_EVENTS"
    and "\<forall>a\<in>set accs. acc_optionsOk a \<and> acc_addOk a"
  shows "\<exists>srv'. runAll acceptOne srv accs = Inr srv' \<and> server_wf srv' \<and>
    card (dom (live (socketPool srv'))) = card (dom (live (socketPool srv))) + length accs"
  using assms
proof (induction accs arbitrary: srv)
  case (Cons a accs)
  from acceptOne_ok [OF Cons.prems(1), of a] Cons.prems(2,3) obtain i s srv1 where
    1: "acceptOne srv a = Inr srv1" "server_wf srv1" "live (socketPool srv) i = None"
    "live (socketPool srv1) = (live (socketPool srv))(i \<mapsto> s)" by auto
  then have "card (dom (live (socketPool srv1))) = Suc (card (dom (live (socketPool srv))))"
    by (simp add: domIff)
  with Cons.IH [OF 1(2)] Cons.prems(2,3) 1(1) show ?case by auto
qed simp

section \<open>Serving the sockets\<close>

text \<open>What the server relies on in its callbacks: they keep the buffers of the socket in bounds and the
  invariant of their own state.\<close>

locale recv_handler =
  fixes cb :: "sockptr \<Rightarrow> 'w callback"
    and finished :: "'w \<Rightarrow> 'w res"
    and inv :: "'w \<Rightarrow> bool"
  assumes cb_keeps: "inv w \<Longrightarrow> socket_wf s \<Longrightarrow> cb p s t w = Inr (s', w') \<Longrightarrow> inv w' \<and> socket_wf s'"
    and finished_keeps: "inv w \<Longrightarrow> finished w = Inr w' \<Longrightarrow> inv w'"
begin

lemma receive_keeps:
  assumes "inv w" "socket_wf s" "receive (cb p) rx s w = Inr (s', w')"
  shows "inv w' \<and> socket_wf s'"
proof (cases "rcv_bytes rx = []")
  case False
  then obtain s1 where s1: "fillBuffer (rcv_bytes rx) s = Inr s1"
    "(if hasRecvCallback s1 then cb p s1 (kernelTime (rcv_time rx)) w else Inr (s1, w)) = Inr (s', w')"
    using assms(3) by (auto simp: receive_def)
  with fillBuffer_keeps [OF s1(1) assms(2)] cb_keeps [OF assms(1)] assms(1) show ?thesis by (auto split: if_splits)
qed (use assms in \<open>simp add: receive_def\<close>)

lemma serveSocket_keeps:
  assumes "server_wf srv" "inv w" "serveSocket cb (r, srv, w, wire) (p, rx) = Inr (r', srv', w', wire')"
  shows "server_wf srv' \<and> inv w'"
proof -
  from assms(3) obtain s s1 where s: "sock srv p = Some s" "receive (cb p) rx s w = Inr (s1, w')"
    "wrS srv p (restNextSendValidIndex s1) = Inr srv'"
    by (auto simp: serveSocket_def sendAndRecv_def)
  then have "socket_wf s" using assms(1) by (auto simp: server_wf_def)
  from receive_keeps [OF assms(2) this s(2)] have k: "inv w'" "socket_wf s1" by auto
  then have "socket_wf (restNextSendValidIndex s1)" by (simp add: socket_wf_def restNextSendValidIndex_def)
  from wrS_ok [OF assms(1) s(1) this] s(3) k(1) show ?thesis by auto
qed

lemma serveAll_keeps:
  assumes "server_wf srv" "inv w" "runAll (serveSocket cb) (r, srv, w, wire) jobs = Inr (r', srv', w', wire')"
  shows "server_wf srv' \<and> inv w'"
proof -
  let ?I = "\<lambda>(r, srv, w, wire). server_wf srv \<and> inv w"
  have "?I (r', srv', w', wire')"
  proof (rule runAll_invariant [OF assms(3)])
    show "?I st'" if "?I st" "serveSocket cb st job = Inr st'" for st job st'
    proof -
      obtain a b c d a' b' c' d' p rx where "st = (a, b, c, d)" "st' = (a', b', c', d')" "job = (p, rx)"
        by (metis surj_pair)
      with that serveSocket_keeps [of b c a d p rx a' b' c' d'] show ?thesis by simp
    qed
  qed (simp add: assms)
  then show ?thesis by simp
qed

lemma sendAndReceive_keeps:
  assumes "server_wf srv" "inv w" "sendAndReceive cb finished netR netS srv w = Inr (srv', w', wire)"
  shows "server_wf srv' \<and> inv w'"
proof -
  from assms(3) obtain r srv1 w1 wire1 w2 r2 where
    1: "runAll (serveSocket cb) (False, srv, w, []) (zip (receiveSockets srv) (map netR [0..<length (receiveSockets srv)])) = Inr (r, srv1, w1, wire1)"
    and 2: "(if r then (if hasRecvFinishedCallback srv1 then finished w1 else Inl (Uncaught ''std::bad_function_call'')) else Inr w1) = Inr w2"
    and 3: "runAll (serveSocket cb) (False, srv1, w2, wire1) (zip (sendSockets srv1) (map netS [0..<length (sendSockets srv1)])) = Inr (r2, srv', w', wire)"
    by (auto simp: sendAndReceive_def)
  from serveAll_keeps [OF assms(1,2) 1] have "server_wf srv1" "inv w1" by auto
  moreover from this(2) 2 have "inv w2" using finished_keeps by (auto split: if_splits)
  ultimately show ?thesis using serveAll_keeps [OF _ _ 3] by blast
qed

end

section \<open>Properties\<close>

text \<open>C30: the server takes 1024 connections; they are never given back, and the next one after that makes it write
  through the null pointer the exhausted pool returns.\<close>

theorem server_connection_limit:
  assumes "\<forall>a\<in>set accs. acc_optionsOk a \<and> acc_addOk a"
  shows "\<exists>srv. TCPServer_init = Inr srv \<and>
    (if length accs \<le> MAX_EVENTS
     then \<exists>srv'. poll srv [\<lparr>ev_socket = Listener, ev_in = True, ev_out = False, ev_err = False\<rparr>] accs = Inr srv' \<and> server_wf srv' \<and>
       card (dom (live (socketPool srv'))) = length accs
     else poll srv [\<lparr>ev_socket = Listener, ev_in = True, ev_out = False, ev_err = False\<rparr>] accs = Inl NullDeref)"
proof -
  obtain srv where srv: "TCPServer_init = Inr srv" "server_wf srv" "live (socketPool srv) = Map.empty" using TCPServer_init_wf by blast
  let ?evs = "[\<lparr>ev_socket = Listener, ev_in = True, ev_out = False, ev_err = False\<rparr>]"
  have poll: "poll srv ?evs accs = runAll acceptOne srv accs"
    by (simp add: poll_def pollEvent_def rdS_def MAX_EVENTS_def)
  show ?thesis
  proof (cases "length accs \<le> MAX_EVENTS")
    case True
    with accepts_ok [OF srv(2) _ assms] srv poll show ?thesis by auto
  next
    case False
    define as where "as = take MAX_EVENTS accs"
    define a where "a = accs ! MAX_EVENTS"
    have "accs = as @ a # drop (Suc MAX_EVENTS) accs" using False by (simp add: as_def a_def id_take_nth_drop)
    then have parts: "runAll acceptOne srv accs =
        bind_res (runAll acceptOne srv as) (\<lambda>srv'. runAll acceptOne srv' (a # drop (Suc MAX_EVENTS) accs))"
      by (metis runAll_append)
    have len: "length as = MAX_EVENTS" "a \<in> set accs" "set as \<subseteq> set accs" using False by (auto simp: as_def a_def dest: in_set_takeD)
    have "card (dom (live (socketPool srv))) + length as \<le> MAX_EVENTS" by (simp add: srv(3) len(1))
    from accepts_ok [OF srv(2) this] assms len obtain srv1 where
      s1: "runAll acceptOne srv as = Inr srv1" "server_wf srv1" "card (dom (live (socketPool srv1))) = MAX_EVENTS"
      using srv(3) by auto
    from acceptOne_full [OF s1(2,3), of a] assms len(2) have "acceptOne srv1 a = Inl NullDeref" by blast
    with srv(1) poll parts s1(1) False show ?thesis by auto
  qed
qed

theorem server_connection_limit_witness:
  "\<exists>srv. TCPServer_init = Inr srv \<and>
    poll srv [\<lparr>ev_socket = Listener, ev_in = True, ev_out = False, ev_err = False\<rparr>]
      (replicate 1025 \<lparr>acc_fd = 9, acc_optionsOk = True, acc_addOk = True\<rparr>) = Inl NullDeref"
  using server_connection_limit [of "replicate 1025 \<lparr>acc_fd = 9, acc_optionsOk = True, acc_addOk = True\<rparr>"]
  by (simp add: MAX_EVENTS_def)

end
