(* ===== verification/FIFO_Sequencer.thy ===== *)
theory FIFO_Sequencer
  imports LF_Queue Exchange_Messages
begin

text \<open>
  \<open>Exchange::FIFOSequencer\<close> (src/src/core/gateway/fifo_Sequencer.h): requests wait with the time
  of their arrival in an array of fixed size; they are sorted by that time and pushed to the queue of
  the matching engine. \<open>std::sort\<close> is an argument of the model, since the standard leaves open
  where elements with equal keys go; what it promises is the locale \<open>time_sort\<close>.
\<close>

section \<open>State\<close>

record PendingClientRequest =
  pend_tRx :: Nanos
  pend_request :: OMEClientRequest

definition PendingClientRequest_default :: PendingClientRequest where
  "PendingClientRequest_default = \<lparr>pend_tRx = 0, pend_request = OMEClientRequest_default\<rparr>"

record FIFOSequencer =
  seq_rxRequests :: "OMEClientRequest LFQueue"
  pendingRequests :: "PendingClientRequest vec"
  nPendingRequests :: nat

definition FIFOSequencer_init :: "OMEClientRequest LFQueue \<Rightarrow> FIFOSequencer" where
  "FIFOSequencer_init rx =
     \<lparr>seq_rxRequests = rx, pendingRequests = vfill MAX_PENDING_ORDER_REQUESTS PendingClientRequest_default,
      nPendingRequests = 0\<rparr>"

section \<open>Operations\<close>

definition pushClientRequest :: "FIFOSequencer \<Rightarrow> OMEClientRequest \<Rightarrow> Nanos \<Rightarrow> FIFOSequencer res" where
  "pushClientRequest s r t =
     (if nPendingRequests s \<ge> vsize (pendingRequests s)
      then Inl (FatalExit ''<FIFOSequencer> Too many pending requests!'')
      else bind_res (vset (pendingRequests s) (nPendingRequests s) \<lparr>pend_tRx = t, pend_request = r\<rparr>) (\<lambda>v.
             Inr (s\<lparr>pendingRequests := v, nPendingRequests := nPendingRequests s + 1\<rparr>)))"

type_synonym sorter = "PendingClientRequest list \<Rightarrow> PendingClientRequest list"

text \<open>The range that is sorted, and the range after sorting it in place.\<close>

definition pendingList :: "FIFOSequencer \<Rightarrow> PendingClientRequest list" where
  "pendingList s = map (velem (pendingRequests s)) [0..<nPendingRequests s]"

definition sortPending :: "sorter \<Rightarrow> FIFOSequencer \<Rightarrow> FIFOSequencer" where
  "sortPending sorter s =
     (let xs = sorter (pendingList s) in
      s\<lparr>pendingRequests := (pendingRequests s)\<lparr>velem :=
          (\<lambda>i. if i < nPendingRequests s then xs ! i else velem (pendingRequests s) i)\<rparr>\<rparr>)"

text \<open>The loop over the sorted requests. The result of \<open>push\<close> is not looked at.\<close>

function publishLoop :: "nat \<Rightarrow> FIFOSequencer \<Rightarrow> FIFOSequencer res" where
  "publishLoop i s =
     (if i < nPendingRequests s
      then bind_res (vget (pendingRequests s) i) (\<lambda>req.
           bind_res (push (seq_rxRequests s) (pend_request req)) (\<lambda>(ok, q).
           publishLoop (i + 1) (s\<lparr>seq_rxRequests := q\<rparr>)))
      else Inr s)"
  by pat_completeness auto
termination
  by (relation "measure (\<lambda>(i, s). nPendingRequests s - i)") auto

declare publishLoop.simps [simp del]

definition sequenceAndPublish :: "sorter \<Rightarrow> FIFOSequencer \<Rightarrow> FIFOSequencer res" where
  "sequenceAndPublish sorter s =
     (if nPendingRequests s = 0 then Inr s
      else bind_res (publishLoop 0 (sortPending sorter s)) (\<lambda>s'. Inr (s'\<lparr>nPendingRequests := 0\<rparr>)))"

section \<open>The sequencer as a list of pending requests\<close>

definition sequencer_wf :: "FIFOSequencer \<Rightarrow> bool" where
  "sequencer_wf s \<longleftrightarrow> queue_wf (seq_rxRequests s) \<and> vsize (pendingRequests s) = MAX_PENDING_ORDER_REQUESTS \<and>
     nPendingRequests s \<le> MAX_PENDING_ORDER_REQUESTS"

lemma length_pendingList [simp]: "length (pendingList s) = nPendingRequests s"
  by (simp add: pendingList_def)

lemma FIFOSequencer_init_wf: "queue_wf rx \<Longrightarrow> sequencer_wf (FIFOSequencer_init rx)"
  by (simp add: sequencer_wf_def FIFOSequencer_init_def)

lemma FIFOSequencer_init_pending [simp]: "pendingList (FIFOSequencer_init rx) = []"
  by (simp add: pendingList_def FIFOSequencer_init_def)

lemma pushClientRequest_ok:
  assumes "sequencer_wf s" "length (pendingList s) < MAX_PENDING_ORDER_REQUESTS"
  shows "\<exists>s'. pushClientRequest s r t = Inr s' \<and> sequencer_wf s' \<and> seq_rxRequests s' = seq_rxRequests s \<and>
    pendingList s' = pendingList s @ [\<lparr>pend_tRx = t, pend_request = r\<rparr>]"
  using assms by (auto simp: pushClientRequest_def sequencer_wf_def pendingList_def)

lemma pushClientRequest_full:
  assumes "sequencer_wf s" "length (pendingList s) = MAX_PENDING_ORDER_REQUESTS"
  shows "pushClientRequest s r t = Inl (FatalExit ''<FIFOSequencer> Too many pending requests!'')"
  using assms by (simp add: pushClientRequest_def sequencer_wf_def)

lemma publishLoop_offers:
  assumes "nPendingRequests s \<le> vsize (pendingRequests s)" "i \<le> nPendingRequests s"
  shows "publishLoop i s = bind_res (offer push (seq_rxRequests s) (map pend_request (drop i (pendingList s)))) (\<lambda>q.
    Inr (s\<lparr>seq_rxRequests := q\<rparr>))"
  using assms
proof (induction "nPendingRequests s - i" arbitrary: i s)
  case 0
  then show ?case by (subst publishLoop.simps) simp
next
  case (Suc m)
  then have i: "i < nPendingRequests s" by simp
  have pl: "pendingList (s\<lparr>seq_rxRequests := q\<rparr>) = pendingList s" for q by (simp add: pendingList_def)
  have d: "drop i (pendingList s) = velem (pendingRequests s) i # drop (Suc i) (pendingList s)"
    using i by (subst Cons_nth_drop_Suc [symmetric]) (simp_all add: pendingList_def)
  have IH: "publishLoop (Suc i) (s\<lparr>seq_rxRequests := q\<rparr>) =
      bind_res (offer push q (map pend_request (drop (Suc i) (pendingList s)))) (\<lambda>q'. Inr (s\<lparr>seq_rxRequests := q'\<rparr>))" for q
    using Suc i pl by (subst Suc.hyps(1)) auto
  from i Suc.prems(1) show ?case
    by (subst publishLoop.simps) (simp add: d IH bind_res_assoc case_prod_unfold)
qed

lemma offer_pending:
  assumes "queue_wf q"
  shows "\<exists>q'. offer push q rs = Inr q' \<and> queue_wf q' \<and> contents q' = take (vsize (queue q)) (contents q @ rs) \<and>
    vsize (queue q') = vsize (queue q)"
  by (rule lfq.offer_total [OF assms])

section \<open>Sorting by time of arrival\<close>

abbreviation arrival :: "PendingClientRequest \<Rightarrow> int" where
  "arrival p \<equiv> sint (pend_tRx p)"

text \<open>What the standard promises of \<open>std::sort\<close> with this comparison: a permutation in which no
  element comes before one that is less.\<close>

locale time_sort =
  fixes sorter :: sorter
  assumes perm: "mset (sorter xs) = mset xs"
    and ordered: "sorted (map arrival (sorter xs))"
begin

lemma length_sorter [simp]: "length (sorter xs) = length xs"
  using perm by (metis size_mset)

lemma pendingList_sorted: "pendingList (sortPending sorter s) = sorter (pendingList s)"
proof (rule nth_equalityI)
  have n: "nPendingRequests (sortPending sorter s) = nPendingRequests s" by (simp add: sortPending_def Let_def)
  then show "length (pendingList (sortPending sorter s)) = length (sorter (pendingList s))" by simp
  show "pendingList (sortPending sorter s) ! i = sorter (pendingList s) ! i" if "i < length (pendingList (sortPending sorter s))" for i
    using that n unfolding pendingList_def [of "sortPending sorter s"] by (simp add: sortPending_def Let_def)
qed

text \<open>What arrives at the queue: as much of the sorted requests as there is room for.\<close>

lemma sequenceAndPublish_ok:
  assumes "sequencer_wf s"
  shows "\<exists>s'. sequenceAndPublish sorter s = Inr s' \<and> sequencer_wf s' \<and> pendingList s' = [] \<and>
    contents (seq_rxRequests s') =
      take (vsize (queue (seq_rxRequests s))) (contents (seq_rxRequests s) @ map pend_request (sorter (pendingList s))) \<and>
    vsize (queue (seq_rxRequests s')) = vsize (queue (seq_rxRequests s))"
proof (cases "nPendingRequests s = 0")
  case True
  then have p: "pendingList s = []" by (simp add: pendingList_def)
  then have "sorter (pendingList s) = []" using perm [of "[]"] by simp
  moreover have "length (contents (seq_rxRequests s)) \<le> vsize (queue (seq_rxRequests s))"
    using assms queue_wf_le [of "seq_rxRequests s"] by (simp add: sequencer_wf_def)
  ultimately show ?thesis using True p assms by (simp add: sequenceAndPublish_def)
next
  case False
  let ?s = "sortPending sorter s" and ?rs = "map pend_request (sorter (pendingList s))"
  have s: "seq_rxRequests ?s = seq_rxRequests s" "nPendingRequests ?s = nPendingRequests s"
    "vsize (pendingRequests ?s) = vsize (pendingRequests s)" by (simp_all add: sortPending_def Let_def)
  have wf: "queue_wf (seq_rxRequests s)" using assms by (simp add: sequencer_wf_def)
  from offer_pending [OF this, of ?rs] obtain q where q: "offer push (seq_rxRequests s) ?rs = Inr q" "queue_wf q"
    "contents q = take (vsize (queue (seq_rxRequests s))) (contents (seq_rxRequests s) @ ?rs)"
    "vsize (queue q) = vsize (queue (seq_rxRequests s))" by blast
  have "publishLoop 0 ?s = Inr (?s\<lparr>seq_rxRequests := q\<rparr>)"
    using q(1) assms s by (subst publishLoop_offers) (simp_all add: pendingList_sorted sequencer_wf_def)
  with False q s assms show ?thesis
    by (simp add: sequenceAndPublish_def sequencer_wf_def pendingList_def)
qed

text \<open>With different times there is only one way to sort.\<close>

lemma sorter_unique:
  assumes "distinct (map arrival xs)"
  shows "sorter xs = sort_key arrival xs"
proof (rule map_sorted_distinct_set_unique [where f = arrival])
  have same: "set (sorter xs) = set xs" using perm by (metis set_mset_mset)
  show "inj_on arrival (set (sorter xs) \<union> set (sort_key arrival xs))"
    using assms same by (simp add: distinct_map)
  show "sorted (map arrival (sorter xs))" by (rule ordered)
  show "sorted (map arrival (sort_key arrival xs))" by simp
  have "mset (map arrival (sorter xs)) = mset (map arrival xs)" by (simp add: perm)
  with assms show "distinct (map arrival (sorter xs))" by (metis mset_eq_imp_distinct_iff)
  have "mset (map arrival (sort_key arrival xs)) = mset (map arrival xs)" by simp
  with assms show "distinct (map arrival (sort_key arrival xs))" by (metis mset_eq_imp_distinct_iff)
  show "set (sorter xs) = set (sort_key arrival xs)" by (simp add: same)
qed

end

text \<open>Two ways to meet the promise: elements with equal times in the order of the array, or against it.\<close>

interpretation stable: time_sort "sort_key arrival"
  by unfold_locales simp_all

interpretation backward: time_sort "\<lambda>xs. sort_key arrival (rev xs)"
  by unfold_locales simp_all

section \<open>Properties\<close>

text \<open>Handing a list of requests with their times to the sequencer.\<close>

definition pushPending :: "FIFOSequencer \<Rightarrow> PendingClientRequest \<Rightarrow> FIFOSequencer res" where
  "pushPending s p = pushClientRequest s (pend_request p) (pend_tRx p)"

fun pushAll :: "FIFOSequencer \<Rightarrow> PendingClientRequest list \<Rightarrow> FIFOSequencer res" where
  "pushAll s [] = Inr s"
| "pushAll s (p # ps) = bind_res (pushPending s p) (\<lambda>s'. pushAll s' ps)"

lemma pushAll_ok:
  assumes "sequencer_wf s" "length (pendingList s) + length ps \<le> MAX_PENDING_ORDER_REQUESTS"
  shows "\<exists>s'. pushAll s ps = Inr s' \<and> sequencer_wf s' \<and> seq_rxRequests s' = seq_rxRequests s \<and>
    pendingList s' = pendingList s @ ps"
  using assms
proof (induction ps arbitrary: s)
  case (Cons p ps)
  from pushClientRequest_ok [OF Cons.prems(1), of "pend_request p" "pend_tRx p"] Cons.prems(2) obtain s1 where
    s1: "pushPending s p = Inr s1" "sequencer_wf s1" "seq_rxRequests s1 = seq_rxRequests s" "pendingList s1 = pendingList s @ [p]"
    by (auto simp: pushPending_def)
  have "length (pendingList s1) + length ps \<le> MAX_PENDING_ORDER_REQUESTS" using Cons.prems(2) unfolding s1(4) by simp
  from Cons.IH [OF s1(2) this] s1 show ?case by auto
qed simp

lemma pushAll_new:
  assumes "queue_wf rx" "length ps \<le> MAX_PENDING_ORDER_REQUESTS"
  shows "\<exists>s. pushAll (FIFOSequencer_init rx) ps = Inr s \<and> sequencer_wf s \<and> seq_rxRequests s = rx \<and> pendingList s = ps"
proof -
  have "seq_rxRequests (FIFOSequencer_init rx) = rx" by (simp add: FIFOSequencer_init_def)
  with pushAll_ok [OF FIFOSequencer_init_wf [OF assms(1)], of ps] assms(2) show ?thesis by auto
qed

text \<open>C28: at most 1024 requests handed to a new sequencer are put in the order of their arrival times (if the times differ this is
  one definite order), and the first of them, as many as fit, are appended to the queue of the matching engine, each once; the
  rest is lost without a notice. So all of them are published exactly if the queue has room for all.\<close>

theorem sequencer_orders_by_arrival:
  assumes "time_sort sorter" "queue_wf rx" "length ps \<le> MAX_PENDING_ORDER_REQUESTS"
  shows "\<exists>s s' ys. pushAll (FIFOSequencer_init rx) ps = Inr s \<and> sequenceAndPublish sorter s = Inr s' \<and>
    nPendingRequests s' = 0 \<and> mset ys = mset ps \<and> sorted (map arrival ys) \<and>
    (distinct (map arrival ps) \<longrightarrow> ys = sort_key arrival ps) \<and>
    contents (seq_rxRequests s') = take (vsize (queue rx)) (contents rx @ map pend_request ys) \<and>
    (contents (seq_rxRequests s') = contents rx @ map pend_request ys \<longleftrightarrow> length (contents rx) + length ps \<le> vsize (queue rx))"
proof -
  obtain s where s: "pushAll (FIFOSequencer_init rx) ps = Inr s" "sequencer_wf s" "seq_rxRequests s = rx" "pendingList s = ps"
    using pushAll_new [OF assms(2,3)] by blast
  from time_sort.sequenceAndPublish_ok [OF assms(1) s(2)] obtain s' where
    s': "sequenceAndPublish sorter s = Inr s'" "pendingList s' = []"
    "contents (seq_rxRequests s') = take (vsize (queue rx)) (contents rx @ map pend_request (sorter ps))"
    unfolding s(3,4) by blast
  moreover have "nPendingRequests s' = 0" using s'(2) by (metis length_pendingList list.size(3))
  moreover have "take (vsize (queue rx)) (contents rx @ map pend_request (sorter ps)) = contents rx @ map pend_request (sorter ps) \<longleftrightarrow>
      length (contents rx) + length ps \<le> vsize (queue rx)"
  proof -
    have "take n xs = xs \<longleftrightarrow> length xs \<le> n" for n and xs :: "OMEClientRequest list" by (metis length_take min.absorb_iff1 take_all)
    moreover have "length (sorter ps) = length ps" using time_sort.perm [OF assms(1), of ps] by (metis size_mset)
    ultimately show ?thesis by (simp only: length_append length_map)
  qed
  ultimately show ?thesis
    using s(1) time_sort.perm [OF assms(1), of ps] time_sort.ordered [OF assms(1), of ps] time_sort.sorter_unique [OF assms(1)]
    by metis
qed

abbreviation samplePending :: "Nanos \<Rightarrow> OrderID \<Rightarrow> PendingClientRequest" where
  "samplePending t k \<equiv> \<lparr>pend_tRx = t, pend_request = OMEClientRequest_default\<lparr>req_orderId := k\<rparr>\<rparr>"

theorem sequencer_orders_by_arrival_witness:
  "\<exists>s s'. pushAll (FIFOSequencer_init (LFQueue_init OMEClientRequest_default 8))
      [samplePending 30 1, samplePending 10 2, samplePending (- 5) 3] = Inr s \<and>
    sequenceAndPublish (sort_key arrival) s = Inr s' \<and>
    map req_orderId (contents (seq_rxRequests s')) = [3, 2, 1]"
proof -
  let ?ps = "[samplePending 30 1, samplePending 10 2, samplePending (- 5) 3]"
  have key: "sort_key arrival ?ps = rev ?ps" by (simp add: sort_key_def)
  from sequencer_orders_by_arrival [OF stable.time_sort_axioms LFQueue_init_wf, of 8 ?ps OMEClientRequest_default]
  obtain s s' ys where s: "pushAll (FIFOSequencer_init (LFQueue_init OMEClientRequest_default 8)) ?ps = Inr s"
    "sequenceAndPublish (sort_key arrival) s = Inr s'" "distinct (map arrival ?ps) \<longrightarrow> ys = sort_key arrival ?ps"
    "contents (seq_rxRequests s') = take 8 (map pend_request ys)"
    by (simp add: limits) blast
  moreover have "distinct (map arrival ?ps)" by simp
  ultimately show ?thesis unfolding key by auto
qed

text \<open>Requests with the same time of arrival have no definite order: two implementations of \<open>std::sort\<close> that both
  keep its promise publish them in opposite orders.\<close>

theorem sequencer_equal_times_unordered:
  "\<exists>s s1 s2. pushAll (FIFOSequencer_init (LFQueue_init OMEClientRequest_default 8)) [samplePending 10 1, samplePending 10 2] = Inr s \<and>
    sequenceAndPublish (sort_key arrival) s = Inr s1 \<and> map req_orderId (contents (seq_rxRequests s1)) = [1, 2] \<and>
    sequenceAndPublish (\<lambda>xs. sort_key arrival (rev xs)) s = Inr s2 \<and> map req_orderId (contents (seq_rxRequests s2)) = [2, 1]"
proof -
  let ?ps = "[samplePending 10 1, samplePending 10 2]" and ?q = "LFQueue_init OMEClientRequest_default 8"
  have wf: "queue_wf ?q" by (simp add: LFQueue_init_wf)
  obtain s where s: "pushAll (FIFOSequencer_init ?q) ?ps = Inr s" "sequencer_wf s" "seq_rxRequests s = ?q" "pendingList s = ?ps"
    using pushAll_new [OF wf, of ?ps] by (auto simp: limits simp del: pushAll.simps)
  show ?thesis
    using stable.sequenceAndPublish_ok [OF s(2)] backward.sequenceAndPublish_ok [OF s(2)] s(1) unfolding s(3,4)
    by (auto simp: sort_key_def)
qed

text \<open>The sequencer takes 1024 requests between two publications; the next one ends the process.\<close>

theorem sequencer_overflow_exits:
  assumes "queue_wf rx" "length ps = MAX_PENDING_ORDER_REQUESTS"
  shows "\<exists>s. pushAll (FIFOSequencer_init rx) ps = Inr s \<and>
    pushClientRequest s r t = Inl (FatalExit ''<FIFOSequencer> Too many pending requests!'')"
proof -
  obtain s where "pushAll (FIFOSequencer_init rx) ps = Inr s" "sequencer_wf s" "pendingList s = ps"
    using pushAll_new [OF assms(1), of ps] assms(2) by auto
  with pushClientRequest_full assms(2) show ?thesis by blast
qed

theorem sequencer_overflow_exits_witness:
  "\<exists>s. pushAll (FIFOSequencer_init (LFQueue_init OMEClientRequest_default 8)) (replicate 1024 (samplePending 10 1)) = Inr s \<and>
    pushClientRequest s OMEClientRequest_default 11 = Inl (FatalExit ''<FIFOSequencer> Too many pending requests!'')"
  by (rule sequencer_overflow_exits) (simp_all add: LFQueue_init_wf limits)

end
