(* ===== verification/Order_Gateway.thy ===== *)
theory Order_Gateway
  imports TCP_Server FIFO_Sequencer
begin

text \<open>
  \<open>Exchange::OrderGatewayServer\<close> (src/src/core/gateway/order_gateway_server.cpp): reads requests
  from the sockets of the participants, checks their sequence numbers, hands them to the sequencer, and
  sends the responses of the matching engine back, numbered per client.
\<close>

section \<open>State\<close>

text \<open>What the receive callbacks work on, and the whole server. Whether the thread object exists is all
  that is kept of it.\<close>

record Gateway =
  fifo :: FIFOSequencer
  mapClientToTxNSeq :: "64 word vec"
  mapClientToRxNSeq :: "64 word vec"
  mapClientToSocket :: "sockptr option vec"

record OrderGatewayServer =
  iface :: string
  gw_port :: int
  gateway :: Gateway
  server :: TCPServer
  rxResponses :: "OMEClientResponse LFQueue"
  gw_isRunning :: bool
  hasServerThread :: bool

definition OrderGatewayServer_init ::
    "OMEClientRequest LFQueue \<Rightarrow> OMEClientResponse LFQueue \<Rightarrow> string \<Rightarrow> int \<Rightarrow> OrderGatewayServer res" where
  "OrderGatewayServer_init txRequests rxResp ifname port =
     bind_res TCPServer_init (\<lambda>srv.
       Inr \<lparr>iface = ifname, gw_port = port, gateway = \<lparr>fifo = FIFOSequencer_init txRequests, mapClientToTxNSeq = vfill MAX_N_CLIENTS 1,
              mapClientToRxNSeq = vfill MAX_N_CLIENTS 1, mapClientToSocket = vfill MAX_N_CLIENTS None\<rparr>,
            server = setServerRecvFinishedCallback (setServerRecvCallback srv True) True,
            rxResponses = rxResp, gw_isRunning = False, hasServerThread = False\<rparr>)"

section \<open>Requests\<close>

text \<open>The body of the loop over the received requests.\<close>

definition rxRequest :: "sockptr \<Rightarrow> Nanos \<Rightarrow> Gateway \<Rightarrow> OGSClientRequest \<Rightarrow> Gateway res" where
  "rxRequest socket tRx g req =
     (let c = unat (req_clientId (omeRequest req)) in
      bind_res (vget (mapClientToSocket g) c) (\<lambda>m.
      bind_res (if m = None then bind_res (vset (mapClientToSocket g) c (Some socket)) (\<lambda>v. Inr (g\<lparr>mapClientToSocket := v\<rparr>))
                else Inr g) (\<lambda>g1.
      bind_res (vget (mapClientToSocket g1) c) (\<lambda>m1.
      if m1 \<noteq> Some socket then Inr g1
      else bind_res (vget (mapClientToRxNSeq g1) c) (\<lambda>nSeqRxNext.
        if ogs_nSeq req \<noteq> nSeqRxNext then Inr g1
        else bind_res (vset (mapClientToRxNSeq g1) c (nSeqRxNext + 1)) (\<lambda>v.
          bind_res (pushClientRequest (fifo g1) (omeRequest req) tRx) (\<lambda>f.
            Inr (g1\<lparr>mapClientToRxNSeq := v, fifo := f\<rparr>))))))))"

function rxLoop :: "sockptr \<Rightarrow> Nanos \<Rightarrow> TCPSocket \<Rightarrow> nat \<Rightarrow> Gateway \<Rightarrow> (nat \<times> Gateway) res" where
  "rxLoop socket tRx s i g =
     (if i + OGS_REQUEST_SIZE \<le> nextRcvValidIndex s
      then bind_res (vread (inboundData s) i OGS_REQUEST_SIZE) (\<lambda>bs.
           bind_res (rxRequest socket tRx g (decodeOGSRequest bs)) (\<lambda>g'.
           rxLoop socket tRx s (i + OGS_REQUEST_SIZE) g'))
      else Inr (i, g))"
  by pat_completeness auto
termination
  by (relation "measure (\<lambda>(_, _, s, i, _). nextRcvValidIndex s - i)") (auto simp: OGS_REQUEST_SIZE_def)

declare rxLoop.simps [simp del]

text \<open>\<open>memcpy\<close> within one buffer; overlapping ranges are undefined.\<close>

definition memcpyWithin :: "'a vec \<Rightarrow> nat \<Rightarrow> nat \<Rightarrow> nat \<Rightarrow> 'a vec res" where
  "memcpyWithin v dst src n =
     (if dst < src + n \<and> src < dst + n then Inl OverlappingCopy
      else bind_res (vread v src n) (\<lambda>bs. vwrite v dst bs))"

definition rxCallback :: "sockptr \<Rightarrow> Gateway callback" where
  "rxCallback socket s tRx g =
     (if nextRcvValidIndex s \<ge> OGS_REQUEST_SIZE
      then bind_res (rxLoop socket tRx s 0 g) (\<lambda>(i, g').
           bind_res (memcpyWithin (inboundData s) 0 i (nextRcvValidIndex s - i)) (\<lambda>v.
             Inr (setNextRcvValidIndex (s\<lparr>inboundData := v\<rparr>) (nextRcvValidIndex s - i), g')))
      else Inr (s, g))"

definition rxDoneCallback :: "sorter \<Rightarrow> Gateway \<Rightarrow> Gateway res" where
  "rxDoneCallback sorter g = bind_res (sequenceAndPublish sorter (fifo g)) (\<lambda>f. Inr (g\<lparr>fifo := f\<rparr>))"

section \<open>Responses\<close>

text \<open>The loop of \<open>run\<close> over the responses: sequence number and response go to the client's socket.\<close>

function forwardLoop :: "OrderGatewayServer \<Rightarrow> OrderGatewayServer res" where
  "forwardLoop S =
     (case getNextToRead (rxResponses S) of
        None \<Rightarrow> Inr S
      | Some slot \<Rightarrow>
          if size_q (rxResponses S) = 0 then Inr S
          else bind_res (vget (queue (rxResponses S)) slot) (\<lambda>res.
            let c = unat (res_clientId res) in
            bind_res (vget (mapClientToTxNSeq (gateway S)) c) (\<lambda>nSeqTxNext.
            bind_res (vget (mapClientToSocket (gateway S)) c) (\<lambda>m.
            case m of None \<Rightarrow> Inl (AssertFailed ''<OGS> missing socket for client'')
            | Some p \<Rightarrow>
                bind_res (rdS (server S) p) (\<lambda>s.
                bind_res (send s (le_bytes 8 nSeqTxNext)) (\<lambda>s1.
                bind_res (send s1 (encodeResponse res)) (\<lambda>s2.
                bind_res (wrS (server S) p s2) (\<lambda>srv.
                bind_res (updateReadIndex (rxResponses S)) (\<lambda>q.
                bind_res (vset (mapClientToTxNSeq (gateway S)) c (nSeqTxNext + 1)) (\<lambda>v.
                  forwardLoop (S\<lparr>server := srv, rxResponses := q,
                                 gateway := (gateway S)\<lparr>mapClientToTxNSeq := v\<rparr>\<rparr>)))))))))))"
  by pat_completeness auto
termination
  by (relation "measure (\<lambda>S. numElements (rxResponses S))") (auto simp: updateReadIndex_def split: if_splits)

declare forwardLoop.simps [simp del]

text \<open>One iteration of \<open>run\<close>, given what the system has for the poll and for the sockets.\<close>

definition runOnce ::
    "sorter \<Rightarrow> Event list \<Rightarrow> Accepted list \<Rightarrow> (nat \<Rightarrow> Received) \<Rightarrow> (nat \<Rightarrow> Received) \<Rightarrow>
     OrderGatewayServer \<Rightarrow> (OrderGatewayServer \<times> (int \<times> byte list) list) res" where
  "runOnce sorter events accs netR netS S =
     bind_res (poll (server S) events accs) (\<lambda>srv1.
     bind_res (sendAndReceive rxCallback (rxDoneCallback sorter) netR netS srv1 (gateway S)) (\<lambda>(srv2, g, wire).
     bind_res (forwardLoop (S\<lparr>server := srv2, gateway := g\<rparr>)) (\<lambda>S'. Inr (S', wire))))"

text \<open>\<open>start\<close>, up to the point where the new thread enters \<open>run\<close>, and \<open>stop\<close>, which
  reaches through the thread pointer without looking whether there is a thread.\<close>

definition start :: "OrderGatewayServer \<Rightarrow> int \<Rightarrow> Network \<Rightarrow> bool \<Rightarrow> OrderGatewayServer res" where
  "start S epollFd net addOk =
     bind_res (listen_srv (server S) (iface S) (gw_port S) epollFd net addOk) (\<lambda>srv.
       Inr (S\<lparr>gw_isRunning := True, server := srv, hasServerThread := True\<rparr>))"

definition stop_gw :: "OrderGatewayServer \<Rightarrow> OrderGatewayServer res" where
  "stop_gw S =
     (if hasServerThread S then Inr (S\<lparr>gw_isRunning := False\<rparr>) else Inl NullDeref)"

text \<open>The destructor stops the server.\<close>

definition OrderGatewayServer_destroy :: "OrderGatewayServer \<Rightarrow> OrderGatewayServer res" where
  "OrderGatewayServer_destroy S = stop_gw S"

section \<open>Invariant\<close>

definition gateway_wf :: "Gateway \<Rightarrow> bool" where
  "gateway_wf g \<longleftrightarrow> sequencer_wf (fifo g) \<and> vsize (mapClientToTxNSeq g) = MAX_N_CLIENTS \<and>
     vsize (mapClientToRxNSeq g) = MAX_N_CLIENTS \<and> vsize (mapClientToSocket g) = MAX_N_CLIENTS"

lemma pushClientRequest_keeps: "sequencer_wf s \<Longrightarrow> pushClientRequest s r t = Inr s' \<Longrightarrow> sequencer_wf s'"
  by (auto simp: pushClientRequest_def sequencer_wf_def split: if_splits)

lemma rxRequest_keeps: "gateway_wf g \<Longrightarrow> rxRequest p t g r = Inr g' \<Longrightarrow> gateway_wf g'"
  by (auto simp: rxRequest_def gateway_wf_def Let_def dest: pushClientRequest_keeps split: if_splits)

section \<open>What a callback does\<close>

lemma rxLoop_blocks:
  assumes "socket_wf s" "i \<le> nextRcvValidIndex s"
  shows "rxLoop p t s i g =
    bind_res (runAll (rxRequest p t) g (map decodeOGSRequest (blocks OGS_REQUEST_SIZE (drop i (inBytes s))))) (\<lambda>g'.
      Inr (nextRcvValidIndex s - length (leftover OGS_REQUEST_SIZE (drop i (inBytes s))), g'))"
  using assms
proof (induction "nextRcvValidIndex s - i" arbitrary: i g rule: less_induct)
  case less
  show ?case
  proof (cases "i + OGS_REQUEST_SIZE \<le> nextRcvValidIndex s")
    case False
    then show ?thesis using less.prems by (subst rxLoop.simps) simp
  next
    case True
    let ?b = "take OGS_REQUEST_SIZE (drop i (inBytes s))" and ?r = "drop (i + OGS_REQUEST_SIZE) (inBytes s)"
    have split: "drop i (inBytes s) = ?b @ ?r" "length ?b = OGS_REQUEST_SIZE"
      using True by (simp_all add: add.commute flip: drop_drop)
    have rd: "vread (inboundData s) i OGS_REQUEST_SIZE = Inr ?b"
    proof -
      have "drop i (vtake (i + OGS_REQUEST_SIZE) (inboundData s)) = ?b"
        using True by (auto simp: inBytes_def intro: nth_equalityI)
      then show ?thesis using True less.prems by (simp add: socket_wf_def)
    qed
    have IH: "rxLoop p t s (i + OGS_REQUEST_SIZE) = (\<lambda>g'.
        bind_res (runAll (rxRequest p t) g' (map decodeOGSRequest (blocks OGS_REQUEST_SIZE ?r))) (\<lambda>g'.
          Inr (nextRcvValidIndex s - length (leftover OGS_REQUEST_SIZE ?r), g')))"
      using True less.prems by (intro ext less.hyps) (auto simp: OGS_REQUEST_SIZE_def)
    have "blocks OGS_REQUEST_SIZE (drop i (inBytes s)) = ?b # blocks OGS_REQUEST_SIZE ?r"
      "leftover OGS_REQUEST_SIZE (drop i (inBytes s)) = leftover OGS_REQUEST_SIZE ?r"
      using blocks_Cons [OF split(2) OGS_REQUEST_SIZE_pos, of ?r] leftover_Cons [OF split(2) OGS_REQUEST_SIZE_pos, of ?r]
      by (simp_all only: split(1) [symmetric])
    with True rd IH show ?thesis by (subst rxLoop.simps) (simp add: bind_res_assoc)
  qed
qed

text \<open>The callback handles every complete request and keeps the rest for the next one. The copy that
  moves the rest to the front never overlaps.\<close>

lemma rxCallback_socket:
  assumes "socket_wf s"
  shows "\<exists>s'. socket_wf s' \<and> inBytes s' = leftover OGS_REQUEST_SIZE (inBytes s) \<and> outBytes s' = outBytes s \<and>
    socketFd s' = socketFd s \<and> hasRecvCallback s' = hasRecvCallback s \<and>
    (\<forall>t g. rxCallback p s t g =
      bind_res (runAll (rxRequest p t) g (map decodeOGSRequest (blocks OGS_REQUEST_SIZE (inBytes s)))) (\<lambda>g'. Inr (s', g')))"
proof (cases "OGS_REQUEST_SIZE \<le> nextRcvValidIndex s")
  case False
  then show ?thesis using assms by (intro exI [of _ s]) (simp add: rxCallback_def)
next
  case True
  let ?n = "nextRcvValidIndex s" and ?rest = "leftover OGS_REQUEST_SIZE (inBytes s)"
  let ?i = "?n - length ?rest"
  have len: "length ?rest < OGS_REQUEST_SIZE" by (rule length_leftover) simp
  have md: "length ?rest = ?n mod OGS_REQUEST_SIZE" by (simp add: length_leftover_mod)
  have ge: "OGS_REQUEST_SIZE \<le> ?i"
    using True unfolding md by (simp add: minus_mod_eq_div_mult Suc_le_eq div_greater_zero_iff)
  have le: "?n \<le> TCPBufferSize" "vsize (inboundData s) = TCPBufferSize" using assms by (simp_all add: socket_wf_def)
  have lr: "length ?rest \<le> ?n" using True len by linarith
  have "vread (inboundData s) ?i (length ?rest) = Inr ?rest"
    using le lr leftover_suffix [of OGS_REQUEST_SIZE "inBytes s"] by (simp add: inBytes_def)
  moreover obtain v where v: "vwrite (inboundData s) 0 ?rest = Inr v" "vsize v = TCPBufferSize" "vtake (length ?rest) v = ?rest"
    using vwrite_in [of 0 ?rest "inboundData s"] le lr by (auto simp: vtake_def)
  ultimately have copy: "memcpyWithin (inboundData s) 0 ?i (?n - ?i) = Inr v"
    using ge len lr by (simp add: memcpyWithin_def)
  let ?s = "setNextRcvValidIndex (s\<lparr>inboundData := v\<rparr>) (length ?rest)"
  have "rxCallback p s t g =
      bind_res (runAll (rxRequest p t) g (map decodeOGSRequest (blocks OGS_REQUEST_SIZE (inBytes s)))) (\<lambda>g'. Inr (?s, g'))" for t g
    using True copy lr by (simp add: rxCallback_def rxLoop_blocks [OF assms] bind_res_assoc)
  moreover have "socket_wf ?s" "inBytes ?s = ?rest" "outBytes ?s = outBytes s"
    using assms v le lr by (simp_all add: socket_wf_def setNextRcvValidIndex_def inBytes_def outBytes_def)
  ultimately show ?thesis by (intro exI [of _ ?s]) (simp add: setNextRcvValidIndex_def)
qed

lemma rxRequests_keep: "runAll (rxRequest p t) g rs = Inr g' \<Longrightarrow> gateway_wf g \<Longrightarrow> gateway_wf g'"
  by (erule runAll_invariant) (auto dest: rxRequest_keeps)

lemma rxDone_keeps:
  assumes "time_sort sorter" "gateway_wf g"
  shows "\<exists>g'. rxDoneCallback sorter g = Inr g' \<and> gateway_wf g'"
  using time_sort.sequenceAndPublish_ok [OF assms(1), of "fifo g"] assms(2) by (auto simp: rxDoneCallback_def gateway_wf_def)

lemma gateway_handler:
  assumes "time_sort sorter"
  shows "recv_handler rxCallback (rxDoneCallback sorter) gateway_wf"
proof
  fix w :: Gateway and s p t s' w'
  assume a: "gateway_wf w" "socket_wf s" "rxCallback p s t w = Inr (s', w')"
  from rxCallback_socket [OF a(2), of p] obtain s1 where s1: "socket_wf s1" "rxCallback p s t w =
    bind_res (runAll (rxRequest p t) w (map decodeOGSRequest (blocks OGS_REQUEST_SIZE (inBytes s)))) (\<lambda>g'. Inr (s1, g'))" by blast
  have "runAll (rxRequest p t) w (map decodeOGSRequest (blocks OGS_REQUEST_SIZE (inBytes s))) = Inr w'" "s1 = s'"
    using a(3) unfolding s1(2) by auto
  with s1(1) rxRequests_keep a(1) show "gateway_wf w' \<and> socket_wf s'" by blast
next
  show "gateway_wf w'" if "gateway_wf w" "rxDoneCallback sorter w = Inr w'" for w w'
    using rxDone_keeps [OF assms that(1)] that(2) by auto
qed

interpretation gw: recv_handler rxCallback "rxDoneCallback (sort_key arrival)" gateway_wf
  by (rule gateway_handler [OF stable.time_sort_axioms])

section \<open>Which requests are taken\<close>

text \<open>The rule, without arrays and buffers: a client belongs to the socket of its first request; a
  request is taken if it comes from there and carries the next number of its client.\<close>

type_synonym arrivalEvent = "sockptr \<times> Nanos \<times> OGSClientRequest"

abbreviation clientOf :: "OGSClientRequest \<Rightarrow> nat" where
  "clientOf r \<equiv> unat (req_clientId (omeRequest r))"

fun admitted :: "(nat \<Rightarrow> sockptr option) \<Rightarrow> (nat \<Rightarrow> 64 word) \<Rightarrow> arrivalEvent list \<Rightarrow> arrivalEvent list" where
  "admitted own next [] = []"
| "admitted own next ((p, t, r) # es) =
     (let c = clientOf r; own' = (if own c = None then own(c := Some p) else own) in
      if own' c = Some p \<and> ogs_nSeq r = next c
      then (p, t, r) # admitted own' (next(c := next c + 1)) es
      else admitted own' next es)"

text \<open>The two tables after the requests: the sockets of the clients and their next numbers.\<close>

fun tables :: "(nat \<Rightarrow> sockptr option) \<Rightarrow> (nat \<Rightarrow> 64 word) \<Rightarrow> arrivalEvent list \<Rightarrow>
    (nat \<Rightarrow> sockptr option) \<times> (nat \<Rightarrow> 64 word)" where
  "tables own next [] = (own, next)"
| "tables own next ((p, t, r) # es) =
     (let c = clientOf r; own' = (if own c = None then own(c := Some p) else own) in
      if own' c = Some p \<and> ogs_nSeq r = next c
      then tables own' (next(c := next c + 1)) es
      else tables own' next es)"

definition rxEvent :: "Gateway \<Rightarrow> arrivalEvent \<Rightarrow> Gateway res" where
  "rxEvent g e = (case e of (p, t, r) \<Rightarrow> rxRequest p t g r)"

definition toPending :: "arrivalEvent \<Rightarrow> PendingClientRequest" where
  "toPending e = (case e of (p, t, r) \<Rightarrow> \<lparr>pend_tRx = t, pend_request = omeRequest r\<rparr>)"

abbreviation admits :: "Gateway \<Rightarrow> arrivalEvent list \<Rightarrow> arrivalEvent list" where
  "admits g es \<equiv> admitted (velem (mapClientToSocket g)) (velem (mapClientToRxNSeq g)) es"

abbreviation tablesOf :: "Gateway \<Rightarrow> arrivalEvent list \<Rightarrow> (nat \<Rightarrow> sockptr option) \<times> (nat \<Rightarrow> 64 word)" where
  "tablesOf g es \<equiv> tables (velem (mapClientToSocket g)) (velem (mapClientToRxNSeq g)) es"

lemma rxEvent_cases:
  assumes "gateway_wf g" "clientOf r < MAX_N_CLIENTS"
  shows "\<exists>g1. gateway_wf g1 \<and> fifo g1 = fifo g \<and> mapClientToTxNSeq g1 = mapClientToTxNSeq g \<and>
    (\<forall>es. tablesOf g ((p, t, r) # es) = tablesOf g1 es) \<and>
    (if admits g [(p, t, r)] = []
     then rxEvent g (p, t, r) = Inr g1 \<and> (\<forall>es. admits g ((p, t, r) # es) = admits g1 es)
     else rxEvent g (p, t, r) = bind_res (pushClientRequest (fifo g) (omeRequest r) t) (\<lambda>f. Inr (g1\<lparr>fifo := f\<rparr>)) \<and>
       admits g [(p, t, r)] = [(p, t, r)] \<and> (\<forall>es. admits g ((p, t, r) # es) = (p, t, r) # admits g1 es))"
proof -
  let ?c = "clientOf r" and ?own = "velem (mapClientToSocket g)" and ?next = "velem (mapClientToRxNSeq g)"
  let ?own' = "if ?own ?c = None then ?own(?c := Some p) else ?own"
  define g1 where "g1 = (if ?own ?c = None then g\<lparr>mapClientToSocket := (mapClientToSocket g)\<lparr>velem := ?own'\<rparr>\<rparr> else g)"
  have g1: "gateway_wf g1" "velem (mapClientToSocket g1) = ?own'" "fifo g1 = fifo g" "mapClientToRxNSeq g1 = mapClientToRxNSeq g"
    "mapClientToTxNSeq g1 = mapClientToTxNSeq g" using assms(1) by (simp_all add: g1_def gateway_wf_def)
  let ?g2 = "g1\<lparr>mapClientToRxNSeq := (mapClientToRxNSeq g)\<lparr>velem := ?next(?c := ?next ?c + 1)\<rparr>\<rparr>"
  have c: "?c < vsize (mapClientToSocket g)" "?c < vsize (mapClientToRxNSeq g)"
    using assms(1,2) by (simp_all add: gateway_wf_def)
  have ev: "rxEvent g (p, t, r) = (if ?own' ?c = Some p \<and> ogs_nSeq r = ?next ?c
      then bind_res (pushClientRequest (fifo g) (omeRequest r) t) (\<lambda>f. Inr (?g2\<lparr>fifo := f\<rparr>)) else Inr g1)"
    by (cases "?own ?c") (simp_all add: rxEvent_def rxRequest_def Let_def g1_def c del: bind_res_eq_Inr)
  have g2: "velem (mapClientToSocket ?g2) = ?own'" "velem (mapClientToRxNSeq ?g2) = ?next(?c := ?next ?c + 1)"
    by (simp_all add: g1(2))
  have adm: "admits g ((p, t, r) # es) = (if ?own' ?c = Some p \<and> ogs_nSeq r = ?next ?c
      then (p, t, r) # admits ?g2 es else admits g1 es)" for es
    by (simp only: admitted.simps Let_def g1 g2)
  have tab: "tablesOf g ((p, t, r) # es) = (if ?own' ?c = Some p \<and> ogs_nSeq r = ?next ?c
      then tablesOf ?g2 es else tablesOf g1 es)" for es
    by (simp only: tables.simps Let_def g1 g2)
  show ?thesis
  proof (cases "?own' ?c = Some p \<and> ogs_nSeq r = ?next ?c")
    case True
    have "gateway_wf ?g2" using g1(1) by (simp add: gateway_wf_def g1(4))
    with True ev adm tab g1(3,5) show ?thesis by (intro exI [of _ ?g2]) (simp del: admitted.simps(2) tables.simps(2))
  next
    case False
    have "rxEvent g (p, t, r) = Inr g1" "\<forall>es. admits g ((p, t, r) # es) = admits g1 es"
      "\<forall>es. tablesOf g ((p, t, r) # es) = tablesOf g1 es"
      using ev adm tab unfolding if_not_P [OF False] by blast+
    with g1(1,3,5) show ?thesis by (intro exI [of _ g1]) (simp del: admitted.simps(2) tables.simps(2))
  qed
qed

lemma rxRequests_events: "runAll (rxRequest p t) g rs = runAll rxEvent g (map (\<lambda>r. (p, t, r)) rs)"
  by (induction rs arbitrary: g) (simp_all add: rxEvent_def)

text \<open>What becomes of a sequence of requests: they are all handled if the sequencer has room for those
  that are taken; otherwise the process exits.\<close>

lemma rxEvents_admit:
  assumes "gateway_wf g" "\<forall>(p, t, r)\<in>set es. clientOf r < MAX_N_CLIENTS"
  shows "if length (pendingList (fifo g)) + length (admits g es) \<le> MAX_PENDING_ORDER_REQUESTS
    then \<exists>g'. runAll rxEvent g es = Inr g' \<and> gateway_wf g' \<and> seq_rxRequests (fifo g') = seq_rxRequests (fifo g) \<and>
      pendingList (fifo g') = pendingList (fifo g) @ map toPending (admits g es) \<and>
      mapClientToTxNSeq g' = mapClientToTxNSeq g \<and> (velem (mapClientToSocket g'), velem (mapClientToRxNSeq g')) = tablesOf g es
    else runAll rxEvent g es = Inl (FatalExit ''<FIFOSequencer> Too many pending requests!'')"
  using assms
proof (induction es arbitrary: g)
  case Nil
  then show ?case by (simp add: gateway_wf_def sequencer_wf_def)
next
  case (Cons e es)
  obtain p t r where e: "e = (p, t, r)" by (cases e)
  have c: "clientOf r < MAX_N_CLIENTS" using Cons.prems(2) by (simp add: e)
  have es: "\<forall>(p, t, r)\<in>set es. clientOf r < MAX_N_CLIENTS" using Cons.prems(2) by simp
  have wf: "sequencer_wf (fifo g)" using Cons.prems(1) by (simp add: gateway_wf_def)
  obtain g1 where g1: "gateway_wf g1" "fifo g1 = fifo g" "mapClientToTxNSeq g1 = mapClientToTxNSeq g"
    "\<forall>es. tablesOf g (e # es) = tablesOf g1 es"
    "if admits g [e] = [] then rxEvent g e = Inr g1 \<and> (\<forall>es. admits g (e # es) = admits g1 es)
     else rxEvent g e = bind_res (pushClientRequest (fifo g) (omeRequest r) t) (\<lambda>f. Inr (g1\<lparr>fifo := f\<rparr>)) \<and>
       admits g [e] = [e] \<and> (\<forall>es. admits g (e # es) = e # admits g1 es)"
    using rxEvent_cases [OF Cons.prems(1) c, of p t] unfolding e by blast
  show ?case
  proof (cases "admits g [e] = []")
    case True
    have "rxEvent g e = Inr g1" "admits g (e # es) = admits g1 es" using g1(5) unfolding if_P [OF True] by blast+
    with Cons.IH [OF g1(1) es] g1(2-4) show ?thesis by (simp cong del: if_weak_cong)
  next
    case False
    have f: "rxEvent g e = bind_res (pushClientRequest (fifo g) (omeRequest r) t) (\<lambda>f. Inr (g1\<lparr>fifo := f\<rparr>))"
      "admits g (e # es) = e # admits g1 es" using g1(5) unfolding if_not_P [OF False] by blast+
    show ?thesis
    proof (cases "length (pendingList (fifo g)) < MAX_PENDING_ORDER_REQUESTS")
      case True
      from pushClientRequest_ok [OF wf True, of "omeRequest r" t] obtain q where
        q: "pushClientRequest (fifo g) (omeRequest r) t = Inr q" "sequencer_wf q" "seq_rxRequests q = seq_rxRequests (fifo g)"
        "pendingList q = pendingList (fifo g) @ [toPending e]" by (auto simp: toPending_def e)
      have "gateway_wf (g1\<lparr>fifo := q\<rparr>)" using g1(1) q(2) by (simp add: gateway_wf_def)
      from Cons.IH [OF this es] f q g1(3,4) show ?thesis by (simp flip: length_pendingList cong del: if_weak_cong)
    next
      case False
      then have "length (pendingList (fifo g)) = MAX_PENDING_ORDER_REQUESTS" using wf by (simp add: sequencer_wf_def)
      with pushClientRequest_full [OF wf this] f show ?thesis by simp
    qed
  qed
qed

text \<open>Of each client the requests taken carry consecutive numbers and come from one socket.\<close>

definition ofClient :: "nat \<Rightarrow> arrivalEvent list \<Rightarrow> arrivalEvent list" where
  "ofClient c es = filter (\<lambda>(p, t, r). clientOf r = c) es"

lemma ofClient_simps [simp]:
  "ofClient c [] = []" "ofClient c ((p, t, r) # es) = (if clientOf r = c then (p, t, r) # ofClient c es else ofClient c es)"
  by (simp_all add: ofClient_def)

lemma count_from:
  "map (\<lambda>k. w + word_of_nat k) [0..<Suc n] = w # map (\<lambda>k. w + 1 + word_of_nat k) [0..<n]" for w :: "64 word"
proof -
  have "map (\<lambda>k. w + word_of_nat k) [Suc 0..<Suc n] = map (\<lambda>k. w + 1 + word_of_nat k) [0..<n]"
    unfolding map_Suc_upt [symmetric] by (simp add: add.assoc)
  then show ?thesis by (simp add: upt_conv_Cons del: upt_Suc)
qed

lemma admitted_numbers:
  "map (\<lambda>(p, t, r). ogs_nSeq r) (ofClient c (admitted own next es)) =
   map (\<lambda>k. next c + word_of_nat k) [0..<length (ofClient c (admitted own next es))]"
proof (induction es arbitrary: own "next")
  case (Cons e es)
  obtain p t r where e: "e = (p, t, r)" by (cases e)
  define own1 where "own1 = (if own (clientOf r) = None then own(clientOf r := Some p) else own)"
  define next1 where "next1 = next(clientOf r := next (clientOf r) + 1)"
  have step: "admitted own next (e # es) = (if own1 (clientOf r) = Some p \<and> ogs_nSeq r = next (clientOf r)
      then e # admitted own1 next1 es else admitted own1 next es)"
    by (simp only: e admitted.simps Let_def own1_def next1_def)
  show ?case
  proof (cases "own1 (clientOf r) = Some p \<and> ogs_nSeq r = next (clientOf r)")
    case True
    with step have adm: "admitted own next (e # es) = e # admitted own1 next1 es" by presburger
    show ?thesis
    proof (cases "clientOf r = c")
      case here: True
      then have "next1 c = next c + 1" by (simp add: next1_def)
      with Cons [of own1 next1] here True show ?thesis unfolding adm by (simp add: e count_from del: upt_Suc)
    next
      case False
      then have "next1 c = next c" by (simp add: next1_def)
      with Cons [of own1 next1] False show ?thesis unfolding adm by (simp add: e)
    qed
  next
    case False
    with step have "admitted own next (e # es) = admitted own1 next es" by presburger
    with Cons [of own1 "next"] show ?thesis by simp
  qed
qed simp

lemma admitted_owner:
  "\<exists>q. (own c = None \<or> own c = Some q) \<and> (\<forall>(p, t, r)\<in>set (ofClient c (admitted own next es)). p = q)"
proof (induction es arbitrary: own "next")
  case Nil
  show ?case by (cases "own c") auto
next
  case (Cons e es)
  obtain p t r where e: "e = (p, t, r)" by (cases e)
  let ?d = "clientOf r"
  let ?own = "if own ?d = None then own(?d := Some p) else own"
  let ?next = "if ?own ?d = Some p \<and> ogs_nSeq r = next ?d then next(?d := next ?d + 1) else next"
  from Cons [of ?own ?next] obtain q where q: "?own c = None \<or> ?own c = Some q"
    "\<forall>(p, t, r)\<in>set (ofClient c (admitted ?own ?next es)). p = q" by blast
  have "own c = None \<or> own c = Some q" using q(1) by (auto split: if_splits)
  moreover have "\<forall>(p, t, r)\<in>set (ofClient c (admitted own next (e # es))). p = q"
    using q by (auto simp: e Let_def split: if_splits)
  ultimately show ?case by blast
qed

end
