(* ===== verification/Gateway_Properties.thy ===== *)
theory Gateway_Properties
  imports Order_Gateway
begin

text \<open>
  The properties of the gateway: how the byte streams of the participants become requests, which of
  them are passed on, how the responses go back, and that its data structures stay in order.
\<close>

section \<open>The invariant of the whole server\<close>

definition server_ok :: "OrderGatewayServer \<Rightarrow> bool" where
  "server_ok S \<longleftrightarrow> gateway_wf (gateway S) \<and> server_wf (server S) \<and> queue_wf (rxResponses S)"

lemma OrderGatewayServer_init_ok:
  assumes "queue_wf tx" "queue_wf rx"
  shows "\<exists>S. OrderGatewayServer_init tx rx ifname port = Inr S \<and> server_ok S \<and> fifo (gateway S) = FIFOSequencer_init tx \<and>
    velem (mapClientToSocket (gateway S)) = (\<lambda>_. None) \<and> velem (mapClientToRxNSeq (gateway S)) = (\<lambda>_. 1) \<and>
    velem (mapClientToTxNSeq (gateway S)) = (\<lambda>_. 1) \<and> rxResponses S = rx \<and> receiveSockets (server S) = [] \<and> sendSockets (server S) = [] \<and>
    listenerSocket (server S) = TCPSocket_init \<and> live (socketPool (server S)) = Map.empty \<and> hasRecvCallbackFn (server S) \<and>
    nextFreeIndex (socketPool (server S)) = 0"
proof -
  obtain srv where srv: "TCPServer_init = Inr srv" "server_wf srv" "receiveSockets srv = []" "sendSockets srv = []" "listenerSocket srv = TCPSocket_init"
    "live (socketPool srv) = Map.empty" "nextFreeIndex (socketPool srv) = 0" using TCPServer_init_wf by blast
  let ?g = "\<lparr>fifo = FIFOSequencer_init tx, mapClientToTxNSeq = vfill MAX_N_CLIENTS 1,
    mapClientToRxNSeq = vfill MAX_N_CLIENTS 1, mapClientToSocket = vfill MAX_N_CLIENTS None\<rparr>"
  define S where "S = \<lparr>iface = ifname, gw_port = port, gateway = ?g, server = srv\<lparr>hasRecvCallbackFn := True, hasRecvFinishedCallback := True\<rparr>,
    rxResponses = rx, gw_isRunning = False, hasServerThread = False\<rparr>"
  have S: "OrderGatewayServer_init tx rx ifname port = Inr S" "rxResponses S = rx" "gateway S = ?g"
    "server S = srv\<lparr>hasRecvCallbackFn := True, hasRecvFinishedCallback := True\<rparr>"
    unfolding OrderGatewayServer_init_def srv(1) by (simp_all add: setServerRecvFinishedCallback_def setServerRecvCallback_def S_def)
  have "server_wf (server S)" using srv(2) by (simp add: S(4) server_wf_def)
  with S srv assms show ?thesis by (simp add: server_ok_def gateway_wf_def FIFOSequencer_init_wf)
qed

lemma pollEvent_keeps: "server_wf srv \<Longrightarrow> pollEvent (b, srv) ev = Inr (b', srv') \<Longrightarrow> server_wf srv'"
  using pollEvent_ok [of srv ev b] by (fastforce simp: pollEvent_def)

lemma acceptOne_keeps:
  assumes "server_wf srv" "acceptOne srv a = Inr srv'"
  shows "server_wf srv'"
proof -
  have a: "acc_optionsOk a" "acc_addOk a"
    using assms(2) by (auto simp: acceptOne_def split: if_splits)
  have "card (dom (live (socketPool srv))) \<noteq> MAX_EVENTS" using acceptOne_full [OF assms(1) _ a(1)] assms(2) by auto
  then have "card (dom (live (socketPool srv))) < MAX_EVENTS"
    using card_dom_live_le [of "socketPool srv"] assms(1) by (simp add: server_wf_def)
  from acceptOne_ok [OF assms(1) this a] assms(2) show ?thesis by auto
qed

lemma poll_keeps:
  assumes "server_wf srv" "poll srv evs accs = Inr srv'"
  shows "server_wf srv'"
proof -
  from assms(2) obtain b srv1 where 1: "runAll pollEvent (False, srv) evs = Inr (b, srv1)"
    "(if b then runAll acceptOne srv1 accs else Inr srv1) = Inr srv'"
    by (auto simp: poll_def split: if_splits)
  have "server_wf (snd (b, srv1))"
    by (rule runAll_invariant [OF 1(1), where I = "\<lambda>x. server_wf (snd x)"]) (use assms(1) pollEvent_keeps in auto)
  with 1(2) show ?thesis using runAll_invariant [of acceptOne srv1 accs srv' server_wf] acceptOne_keeps by (auto split: if_splits)
qed

lemma send_keeps: "socket_wf s \<Longrightarrow> send s bs = Inr s' \<Longrightarrow> socket_wf s'"
  by (auto simp: send_def vwrite_def socket_wf_def split: if_splits)

lemma forwardLoop_keeps: "forwardLoop S = Inr S' \<Longrightarrow> server_ok S \<Longrightarrow> server_ok S'"
proof (induction S rule: forwardLoop.induct)
  case (1 S)
  show ?case
  proof (cases "getNextToRead (rxResponses S) = None \<or> size_q (rxResponses S) = 0")
    case True
    then show ?thesis using 1(2,3) by (subst (asm) forwardLoop.simps) (auto split: option.splits)
  next
    case False
    with 1(2) obtain slot res n p s s1 s2 srv q v where
      steps: "getNextToRead (rxResponses S) = Some slot" "size_q (rxResponses S) \<noteq> 0" "vget (queue (rxResponses S)) slot = Inr res"
      "vget (mapClientToTxNSeq (gateway S)) (unat (res_clientId res)) = Inr n"
      "vget (mapClientToSocket (gateway S)) (unat (res_clientId res)) = Inr (Some p)"
      "rdS (server S) p = Inr s" "send s (le_bytes 8 n) = Inr s1" "send s1 (encodeResponse res) = Inr s2"
      "wrS (server S) p s2 = Inr srv" "updateReadIndex (rxResponses S) = Inr q"
      "vset (mapClientToTxNSeq (gateway S)) (unat (res_clientId res)) (n + 1) = Inr v"
      "forwardLoop (S\<lparr>server := srv, rxResponses := q, gateway := (gateway S)\<lparr>mapClientToTxNSeq := v\<rparr>\<rparr>) = Inr S'"
      by (subst (asm) forwardLoop.simps) (auto simp: Let_def split: option.splits if_splits)
    have "socket_wf s" using 1(3) steps(6) by (auto simp: server_ok_def server_wf_def)
    then have "socket_wf s2" using steps(7,8) send_keeps by blast
    from wrS_ok [OF _ _ this, of "server S" p s] steps(6,9) 1(3) have "server_wf srv" by (auto simp: server_ok_def)
    moreover have "queue_wf q" using 1(3) steps(10) updateReadIndex_keeps by (auto simp: server_ok_def)
    moreover have "gateway_wf ((gateway S)\<lparr>mapClientToTxNSeq := v\<rparr>)" using 1(3) steps(11) by (auto simp: server_ok_def gateway_wf_def)
    ultimately have "server_ok (S\<lparr>server := srv, rxResponses := q, gateway := (gateway S)\<lparr>mapClientToTxNSeq := v\<rparr>\<rparr>)"
      by (simp add: server_ok_def)
    with steps show ?thesis by (intro 1(1) [of slot res _ n "Some p" p s s1 s2 srv q v]) auto
  qed
qed

section \<open>Responses\<close>

text \<open>Responses with the numbers they get, the next numbers after them, and the bytes of one of them.\<close>

fun numbered :: "(nat \<Rightarrow> 64 word) \<Rightarrow> OMEClientResponse list \<Rightarrow> (64 word \<times> OMEClientResponse) list" where
  "numbered next [] = []"
| "numbered next (r # rs) =
     (next (unat (res_clientId r)), r) # numbered (next(unat (res_clientId r) := next (unat (res_clientId r)) + 1)) rs"

fun advanced :: "(nat \<Rightarrow> 64 word) \<Rightarrow> OMEClientResponse list \<Rightarrow> nat \<Rightarrow> 64 word" where
  "advanced next [] = next"
| "advanced next (r # rs) = advanced (next(unat (res_clientId r) := next (unat (res_clientId r)) + 1)) rs"

definition responseFrame :: "64 word \<times> OMEClientResponse \<Rightarrow> byte list" where
  "responseFrame nr = le_bytes 8 (fst nr) @ encodeResponse (snd nr)"

definition framesTo :: "(nat \<Rightarrow> sockptr option) \<Rightarrow> sockptr \<Rightarrow> (64 word \<times> OMEClientResponse) list \<Rightarrow> byte list" where
  "framesTo own p nrs = concat (map responseFrame (filter (\<lambda>nr. own (unat (res_clientId (snd nr))) = Some p) nrs))"

lemma sendFrame_ok:
  assumes "socket_wf s" "nextSendValidIndex s + 50 \<le> TCPBufferSize"
  shows "\<exists>s1 s2. send s (le_bytes 8 n) = Inr s1 \<and> send s1 (encodeResponse r) = Inr s2 \<and> socket_wf s2 \<and>
    outBytes s2 = outBytes s @ responseFrame (n, r) \<and> inBytes s2 = inBytes s \<and> hasRecvCallback s2 = hasRecvCallback s"
proof -
  from send_fits [OF assms(1), of "le_bytes 8 n"] assms(2) obtain s1 where
    s1: "send s (le_bytes 8 n) = Inr s1" "socket_wf s1" "outBytes s1 = outBytes s @ le_bytes 8 n"
    "inBytes s1 = inBytes s" "hasRecvCallback s1 = hasRecvCallback s" by auto
  have "nextSendValidIndex s1 = nextSendValidIndex s + 8" using arg_cong [OF s1(3), of length] by simp
  with send_fits [OF s1(2), of "encodeResponse r"] assms(2) s1 show ?thesis
    by (auto simp: responseFrame_def OME_RESPONSE_SIZE_def)
qed

lemma forwardLoop_ok:
  assumes "server_ok S" "contents (rxResponses S) = rs"
    and "\<forall>r\<in>set rs. unat (res_clientId r) < MAX_N_CLIENTS \<and>
      (\<exists>p. velem (mapClientToSocket (gateway S)) (unat (res_clientId r)) = Some p \<and> p \<in> dom (sock (server S)))"
    and "\<forall>p s. sock (server S) p = Some s \<longrightarrow> nextSendValidIndex s + 50 * length rs \<le> TCPBufferSize"
  shows "\<exists>S'. forwardLoop S = Inr S' \<and> server_ok S' \<and> contents (rxResponses S') = [] \<and>
    (\<forall>p s. sock (server S) p = Some s \<longrightarrow> (\<exists>s'. sock (server S') p = Some s' \<and>
      outBytes s' = outBytes s @
        framesTo (velem (mapClientToSocket (gateway S))) p (numbered (velem (mapClientToTxNSeq (gateway S))) rs) \<and>
      inBytes s' = inBytes s \<and> hasRecvCallback s' = hasRecvCallback s)) \<and>
    alike (server S) (server S') \<and> vsize (queue (rxResponses S')) = vsize (queue (rxResponses S)) \<and>
    gateway S' = (gateway S)\<lparr>mapClientToTxNSeq := (mapClientToTxNSeq (gateway S))
      \<lparr>velem := advanced (velem (mapClientToTxNSeq (gateway S))) rs\<rparr>\<rparr>"
  using assms
proof (induction rs arbitrary: S)
  case Nil
  then have "numElements (rxResponses S) = 0" by (metis length_contents list.size(3))
  then have "forwardLoop S = Inr S" by (subst forwardLoop.simps) (simp add: getNextToRead_def)
  with Nil show ?case by (simp add: framesTo_def)
next
  case (Cons r rs)
  let ?c = "unat (res_clientId r)" and ?own = "velem (mapClientToSocket (gateway S))" and ?next = "velem (mapClientToTxNSeq (gateway S))"
  let ?next1 = "?next(?c := ?next ?c + 1)"
  have wf: "gateway_wf (gateway S)" "server_wf (server S)" "queue_wf (rxResponses S)" using Cons.prems(1) by (simp_all add: server_ok_def)
  obtain p where c: "?c < MAX_N_CLIENTS" "?own ?c = Some p" "p \<in> dom (sock (server S))" using Cons.prems(3) by auto
  then obtain s where s: "sock (server S) p = Some s" by blast
  then have sw: "socket_wf s" "nextSendValidIndex s + 50 \<le> TCPBufferSize"
    using wf(2) Cons.prems(4) [rule_format, OF s] by (auto simp: server_wf_def)
  obtain slot q where q: "getNextToRead (rxResponses S) = Some slot" "size_q (rxResponses S) \<noteq> 0"
    "vget (queue (rxResponses S)) slot = Inr r" "updateReadIndex (rxResponses S) = Inr q" "queue_wf q" "contents q = rs"
    "vsize (queue q) = vsize (queue (rxResponses S))"
    using read_in_place [OF wf(3) Cons.prems(2)] by blast
  obtain s1 s2 where s2: "send s (le_bytes 8 (?next ?c)) = Inr s1" "send s1 (encodeResponse r) = Inr s2" "socket_wf s2"
    "outBytes s2 = outBytes s @ responseFrame (?next ?c, r)" "inBytes s2 = inBytes s" "hasRecvCallback s2 = hasRecvCallback s"
    using sendFrame_ok [OF sw] by blast
  obtain srv where srv: "wrS (server S) p s2 = Inr srv" "server_wf srv" "sock srv = (sock (server S))(p \<mapsto> s2)" "alike (server S) srv"
    using wrS_ok [OF wf(2) s s2(3)] by blast
  let ?S = "S\<lparr>server := srv, rxResponses := q,
    gateway := (gateway S)\<lparr>mapClientToTxNSeq := (mapClientToTxNSeq (gateway S))\<lparr>velem := ?next1\<rparr>\<rparr>\<rparr>"
  have run: "forwardLoop S = forwardLoop ?S"
    using q(1-4) c(1,2) s s2(1,2) srv(1) wf(1)
    by (subst forwardLoop.simps) (simp add: gateway_wf_def Let_def rdS_sock del: bind_res_eq_Inr rdS_eq_Inr vget_eq_Inr)
  have ok: "server_ok ?S" "contents (rxResponses ?S) = rs" using wf srv(2) q(5,6) by (simp_all add: server_ok_def gateway_wf_def)
  have out: "nextSendValidIndex s2 = nextSendValidIndex s + 50"
    using arg_cong [OF s2(4), of length] by (simp add: responseFrame_def OME_RESPONSE_SIZE_def)
  have known: "\<forall>r\<in>set rs. unat (res_clientId r) < MAX_N_CLIENTS \<and>
      (\<exists>p. velem (mapClientToSocket (gateway ?S)) (unat (res_clientId r)) = Some p \<and> p \<in> dom (sock (server ?S)))"
    using Cons.prems(3) srv(3) by auto
  have room: "\<forall>p' t. sock (server ?S) p' = Some t \<longrightarrow> nextSendValidIndex t + 50 * length rs \<le> TCPBufferSize"
  proof (intro allI impI)
    show "nextSendValidIndex t + 50 * length rs \<le> TCPBufferSize" if "sock (server ?S) p' = Some t" for p' t
      using that Cons.prems(4) [rule_format, of p' "if p' = p then s else t"] s out srv(3) by (auto split: if_splits)
  qed
  from Cons.IH [OF ok known room] obtain S' where S': "forwardLoop ?S = Inr S'" "server_ok S'" "contents (rxResponses S') = []"
    "\<forall>p' s. sock srv p' = Some s \<longrightarrow> (\<exists>s'. sock (server S') p' = Some s' \<and>
      outBytes s' = outBytes s @ framesTo ?own p' (numbered ?next1 rs) \<and> inBytes s' = inBytes s \<and> hasRecvCallback s' = hasRecvCallback s)"
    "alike srv (server S')" "vsize (queue (rxResponses S')) = vsize (queue q)"
    "gateway S' = (gateway S)\<lparr>mapClientToTxNSeq := (mapClientToTxNSeq (gateway S))\<lparr>velem := advanced ?next1 rs\<rparr>\<rparr>"
    by (auto simp: fun_upd_def)
  have "\<exists>s'. sock (server S') p' = Some s' \<and> outBytes s' = outBytes t @ framesTo ?own p' (numbered ?next (r # rs)) \<and>
      inBytes s' = inBytes t \<and> hasRecvCallback s' = hasRecvCallback t" if "sock (server S) p' = Some t" for p' t
    using S'(4) [rule_format, of p' "if p' = p then s2 else t"] that srv(3) s s2(4-6) c(2) by (auto simp: framesTo_def)
  with run S'(1-3,6,7) q(7) alike_trans [OF srv(4) S'(5)] show ?case by (auto simp del: numbered.simps)
qed

section \<open>A read\<close>

lemma gateway_receives:
  assumes v: "socket_wf v" "hasRecvCallback v" "rcv_bytes rx \<noteq> []" "nextRcvValidIndex v + length (rcv_bytes rx) \<le> TCPBufferSize"
  shows "\<exists>u. socket_wf u \<and> inBytes u = leftover OGS_REQUEST_SIZE (inBytes v @ rcv_bytes rx) \<and> outBytes u = outBytes v \<and>
    hasRecvCallback u \<and> (\<forall>g. receive (rxCallback p) rx v g =
      bind_res (runAll (rxRequest p (kernelTime (rcv_time rx))) g
        (map decodeOGSRequest (blocks OGS_REQUEST_SIZE (inBytes v @ rcv_bytes rx)))) (\<lambda>g'. Inr (u, g')))"
proof -
  obtain w where w: "fillBuffer (rcv_bytes rx) v = Inr w" "socket_wf w" "inBytes w = inBytes v @ rcv_bytes rx"
    "outBytes w = outBytes v" "hasRecvCallback w" using fillBuffer_fits [OF v(1,4)] v(2) by blast
  have "receive (rxCallback p) rx v g = rxCallback p w (kernelTime (rcv_time rx)) g" for g
    using v(3) w(1,5) by (simp add: receive_def)
  with rxCallback_socket [OF w(2), of p] w show ?thesis by auto
qed

section \<open>Properties\<close>

text \<open>Two reads one after the other, and one read, at one socket: what they leave of the bytes received, the bytes to send and the
  gateway.\<close>

abbreviation twoReads ::
    "sockptr \<Rightarrow> Received \<Rightarrow> Received \<Rightarrow> TCPSocket \<Rightarrow> Gateway \<Rightarrow> (byte list \<times> byte list \<times> Gateway) res" where
  "twoReads p r r' s g \<equiv> bind_res (receive (rxCallback p) r s g) (\<lambda>(s1, g1).
     bind_res (receive (rxCallback p) r' s1 g1) (\<lambda>(s2, g2). Inr (inBytes s2, outBytes s2, g2)))"

abbreviation oneRead :: "sockptr \<Rightarrow> Received \<Rightarrow> TCPSocket \<Rightarrow> Gateway \<Rightarrow> (byte list \<times> byte list \<times> Gateway) res" where
  "oneRead p r s g \<equiv> bind_res (receive (rxCallback p) r s g) (\<lambda>(s2, g2). Inr (inBytes s2, outBytes s2, g2))"

abbreviation read_of :: "byte list \<Rightarrow> (64 word \<times> 64 word) option \<Rightarrow> Received" where
  "read_of bs tm \<equiv> \<lparr>rcv_bytes = bs, rcv_time = tm\<rparr>"

text \<open>The gateway without the times of its pending requests. No request is taken or refused because of a time.\<close>

definition untimed :: "Gateway \<Rightarrow> Gateway" where
  "untimed g = g\<lparr>fifo := (fifo g)\<lparr>pendingRequests := (pendingRequests (fifo g))
     \<lparr>velem := (\<lambda>i. (velem (pendingRequests (fifo g)) i)\<lparr>pend_tRx := 0\<rparr>)\<rparr>\<rparr>\<rparr>"

lemma rxRequest_untimed: "bind_res (rxRequest p t g r) (\<lambda>g'. Inr (untimed g')) = rxRequest p 0 (untimed g) r"
proof -
  have push: "bind_res (pushClientRequest f q t) (\<lambda>f'. Inr (untimed (h\<lparr>fifo := f'\<rparr>))) =
      bind_res (pushClientRequest (fifo (untimed (h\<lparr>fifo := f\<rparr>))) q 0) (\<lambda>f'. Inr ((untimed h)\<lparr>fifo := f'\<rparr>))" for f q h
    by (auto simp: pushClientRequest_def untimed_def fun_eq_iff)
  have sel: "mapClientToSocket (untimed h) = mapClientToSocket h" "mapClientToRxNSeq (untimed h) = mapClientToRxNSeq h"
    "(untimed h)\<lparr>mapClientToSocket := v\<rparr> = untimed (h\<lparr>mapClientToSocket := v\<rparr>)"
    "(untimed h)\<lparr>mapClientToRxNSeq := w, fifo := f\<rparr> = (untimed (h\<lparr>mapClientToRxNSeq := w\<rparr>))\<lparr>fifo := f\<rparr>" for h v w f
    by (simp_all add: untimed_def)
  have step: "bind_res (pushClientRequest f q t) (\<lambda>f'. Inr (untimed (h\<lparr>mapClientToRxNSeq := w, fifo := f'\<rparr>))) =
      bind_res (pushClientRequest (fifo (untimed h)) q 0) (\<lambda>f'. Inr ((untimed h)\<lparr>mapClientToRxNSeq := w, fifo := f'\<rparr>))"
    if "f = fifo h" for f h q w
    using that push [of "fifo h" q "h\<lparr>mapClientToRxNSeq := w\<rparr>"] by (simp add: sel) (simp add: untimed_def)
  let ?c = "clientOf r"
  show ?thesis
  proof (cases "?c < vsize (mapClientToSocket g)")
    case True
    then show ?thesis
      by (cases "velem (mapClientToSocket g) ?c"; cases "?c < vsize (mapClientToRxNSeq g)")
        (simp_all add: rxRequest_def Let_def sel step bind_res_assoc vget_def del: bind_res_eq_Inr vget_eq_Inr)
  qed (simp add: rxRequest_def Let_def sel vget_def del: bind_res_eq_Inr vget_eq_Inr)
qed

lemma rxRequests_untimed: "bind_res (runAll (rxRequest p t) g rs) (\<lambda>g'. Inr (untimed g')) = runAll (rxRequest p 0) (untimed g) rs"
proof (induction rs arbitrary: g)
  case (Cons r rs)
  have "bind_res (runAll (rxRequest p t) g (r # rs)) (\<lambda>g'. Inr (untimed g')) =
      bind_res (bind_res (rxRequest p t g r) (\<lambda>g1. Inr (untimed g1))) (\<lambda>g1. runAll (rxRequest p 0) g1 rs)"
    by (simp add: bind_res_assoc Cons)
  then show ?case by (simp add: rxRequest_untimed)
qed simp

lemma rxRequests_untimed_both:
  "bind_res (runAll (rxRequest p t) g xs) (\<lambda>g1. bind_res (runAll (rxRequest p t') g1 ys) (\<lambda>g2. Inr (untimed g2))) =
   runAll (rxRequest p 0) (untimed g) (xs @ ys)"
proof -
  have "bind_res (runAll (rxRequest p t) g xs) (\<lambda>g1. runAll (rxRequest p 0) (untimed g1) ys) =
      bind_res (bind_res (runAll (rxRequest p t) g xs) (\<lambda>g1. Inr (untimed g1))) (\<lambda>g1. runAll (rxRequest p 0) g1 ys)"
    by (simp only: bind_res_assoc bind_res_Inr)
  then show ?thesis by (simp add: rxRequests_untimed runAll_append)
qed

text \<open>C22: how a participant's bytes are cut into reads matters only for the times. While the buffer has room, two reads, one after
  the other, leave the same bytes received, the same bytes to send and the same gateway as one read of all of them, or fail like
  it, except that a pending request carries the time of the read that completed it; with equal times they agree in
  everything.\<close>

theorem gateway_segmentation:
  assumes s: "socket_wf s" "hasRecvCallback s" and ne: "bs \<noteq> []" "bs' \<noteq> []"
    and room: "nextRcvValidIndex s + length bs + length bs' \<le> TCPBufferSize"
  shows "bind_res (twoReads p (read_of bs tm) (read_of bs' tm') s g) (\<lambda>(i, out, g'). Inr (i, out, untimed g')) =
      bind_res (oneRead p (read_of (bs @ bs') tm'') s g) (\<lambda>(i, out, g'). Inr (i, out, untimed g')) \<and>
    (tm = tm' \<longrightarrow> twoReads p (read_of bs tm) (read_of bs' tm') s g = oneRead p (read_of (bs @ bs') tm) s g)"
proof -
  let ?N = OGS_REQUEST_SIZE
  let ?run = "\<lambda>tm g xs. runAll (rxRequest p (kernelTime tm)) g (map decodeOGSRequest (blocks ?N xs))"
  obtain u1 where u1: "socket_wf u1" "inBytes u1 = leftover ?N (inBytes s @ bs)" "outBytes u1 = outBytes s" "hasRecvCallback u1"
    "\<forall>g. receive (rxCallback p) (read_of bs tm) s g = bind_res (?run tm g (inBytes s @ bs)) (\<lambda>g'. Inr (u1, g'))"
    using gateway_receives [of s "read_of bs tm" p] s ne(1) room by auto
  have "length (inBytes u1) \<le> length (inBytes s @ bs)" unfolding u1(2) length_leftover_mod by (rule mod_less_eq_dividend)
  then have "nextRcvValidIndex u1 + length bs' \<le> TCPBufferSize" using room by simp
  then obtain u2 where u2: "inBytes u2 = leftover ?N (inBytes u1 @ bs')" "outBytes u2 = outBytes s"
    "\<forall>g. receive (rxCallback p) (read_of bs' tm') u1 g = bind_res (?run tm' g (inBytes u1 @ bs')) (\<lambda>g'. Inr (u2, g'))"
    using gateway_receives [OF u1(1,4), of "read_of bs' tm'" p] ne(2) u1(3) by auto
  have cut: "blocks ?N (inBytes s @ bs @ bs') = blocks ?N (inBytes s @ bs) @ blocks ?N (inBytes u1 @ bs')"
    "leftover ?N (inBytes s @ bs @ bs') = inBytes u2"
    using stream_cut [OF OGS_REQUEST_SIZE_pos, of "inBytes s @ bs" bs'] unfolding u2(1) u1(2) by simp_all
  have one: "oneRead p (read_of (bs @ bs') t) s g =
      bind_res (?run t g (inBytes s @ bs)) (\<lambda>g1. bind_res (?run t g1 (inBytes u1 @ bs')) (\<lambda>g2. Inr (inBytes u2, outBytes s, g2)))" for t
  proof -
    obtain u where u: "inBytes u = leftover ?N (inBytes s @ bs @ bs')" "outBytes u = outBytes s"
      "\<forall>g. receive (rxCallback p) (read_of (bs @ bs') t) s g = bind_res (?run t g (inBytes s @ bs @ bs')) (\<lambda>g'. Inr (u, g'))"
      using gateway_receives [of s "read_of (bs @ bs') t" p] s ne(1) room by auto
    then show ?thesis by (simp add: cut runAll_append bind_res_assoc)
  qed
  have two: "twoReads p (read_of bs tm) (read_of bs' tm') s g =
      bind_res (?run tm g (inBytes s @ bs)) (\<lambda>g1. bind_res (?run tm' g1 (inBytes u1 @ bs')) (\<lambda>g2. Inr (inBytes u2, outBytes s, g2)))"
    by (simp add: u1(5) u2(3) bind_res_assoc u2(2))
  let ?rs = "\<lambda>xs. map decodeOGSRequest (blocks ?N xs)"
  have "bind_res (bind_res (?run t g (inBytes s @ bs)) (\<lambda>g1. bind_res (?run t' g1 (inBytes u1 @ bs')) (\<lambda>g2. Inr (inBytes u2, outBytes s, g2))))
        (\<lambda>(i, out, g'). Inr (i, out, untimed g')) =
      bind_res (runAll (rxRequest p 0) (untimed g) (?rs (inBytes s @ bs) @ ?rs (inBytes u1 @ bs'))) (\<lambda>g2. Inr (inBytes u2, outBytes s, g2))" for t t'
  proof -
    have "bind_res (bind_res (?run t g0 xs) (\<lambda>g1. bind_res (?run t' g1 ys) (\<lambda>g2. Inr (is, os, g2)))) (\<lambda>(i, out, g'). Inr (i, out, untimed g')) =
        bind_res (bind_res (?run t g0 xs) (\<lambda>g1. bind_res (?run t' g1 ys) (\<lambda>g2. Inr (untimed g2)))) (\<lambda>g2. Inr (is, os, g2))"
      for g0 xs ys "is" os by (simp add: bind_res_assoc)
    then show ?thesis by (simp add: rxRequests_untimed_both)
  qed
  then show ?thesis unfolding one two by simp
qed

text \<open>A request in two pieces that arrive at different times.\<close>

theorem gateway_segmentation_witness:
  "\<exists>S. OrderGatewayServer_init (LFQueue_init OMEClientRequest_default 8) (LFQueue_init OMEClientResponse_default 8) ''lo'' 12345 = Inr S \<and>
    bind_res (twoReads (Pooled 0) (read_of [1, 2, 3] None) (read_of [4, 5] (Some (1, 2))) (setRecvCallback TCPSocket_init True) (gateway S))
        (\<lambda>(i, out, g'). Inr (i, out, untimed g')) =
      bind_res (oneRead (Pooled 0) (read_of ([1, 2, 3] @ [4, 5]) None) (setRecvCallback TCPSocket_init True) (gateway S))
        (\<lambda>(i, out, g'). Inr (i, out, untimed g'))"
proof -
  obtain S where S: "OrderGatewayServer_init (LFQueue_init OMEClientRequest_default 8) (LFQueue_init OMEClientResponse_default 8) ''lo'' 12345 = Inr S"
    using OrderGatewayServer_init_ok [OF LFQueue_init_wf LFQueue_init_wf, of 8 8] by force
  have "socket_wf (setRecvCallback TCPSocket_init True)" "hasRecvCallback (setRecvCallback TCPSocket_init True)"
    "nextRcvValidIndex (setRecvCallback TCPSocket_init True) = 0"
    by (simp_all add: setRecvCallback_def socket_wf_def TCPSocket_init_def)
  with gateway_segmentation [of "setRecvCallback TCPSocket_init True" "[1, 2, 3]" "[4, 5]" "Pooled 0" None "gateway S" "Some (1, 2)" None] S
  show ?thesis by (intro exI [of _ S]) (simp add: TCPBufferSize_def)
qed

text \<open>C23: a new gateway passes on exactly the requests that carry the next number of their client and come from the socket
  of the client's first request, in the order of their arrival; of every client these are the numbers 1, 2, 3 and so on
  without a gap, all from one socket.\<close>

theorem gateway_takes_in_sequence:
  assumes "queue_wf tx" "queue_wf rx" "\<forall>(p, t, r)\<in>set es. clientOf r < MAX_N_CLIENTS"
    and "length (admitted (\<lambda>_. None) (\<lambda>_. 1) es) \<le> MAX_PENDING_ORDER_REQUESTS"
  shows "\<exists>S g. OrderGatewayServer_init tx rx ifname port = Inr S \<and> runAll rxEvent (gateway S) es = Inr g \<and>
    pendingList (fifo g) = map toPending (admitted (\<lambda>_. None) (\<lambda>_. 1) es) \<and>
    (\<forall>c. let taken = ofClient c (admitted (\<lambda>_. None) (\<lambda>_. 1) es) in
      map (\<lambda>(p, t, r). ogs_nSeq r) taken = map (\<lambda>k. 1 + word_of_nat k) [0..<length taken] \<and>
      (\<exists>q. \<forall>(p, t, r)\<in>set taken. p = q))"
proof -
  obtain S where S: "OrderGatewayServer_init tx rx ifname port = Inr S" "server_ok S" "fifo (gateway S) = FIFOSequencer_init tx"
    "velem (mapClientToSocket (gateway S)) = (\<lambda>_. None)" "velem (mapClientToRxNSeq (gateway S)) = (\<lambda>_. 1)"
    using OrderGatewayServer_init_ok [OF assms(1,2)] by blast
  have "gateway_wf (gateway S)" using S(2) by (simp add: server_ok_def)
  from rxEvents_admit [OF this assms(3)] assms(4) obtain g where "runAll rxEvent (gateway S) es = Inr g"
    "pendingList (fifo g) = map toPending (admitted (\<lambda>_. None) (\<lambda>_. 1) es)"
    unfolding S(3-5) FIFOSequencer_init_pending by auto
  moreover have "\<exists>q. \<forall>(p, t, r)\<in>set (ofClient c (admitted (\<lambda>_. None) (\<lambda>_. 1) es)). p = q" for c
    using admitted_owner [of "\<lambda>_. None" c "\<lambda>_. 1" es] by blast
  ultimately show ?thesis using S(1) by (simp add: Let_def admitted_numbers)
qed

abbreviation sampleArrival :: "nat \<Rightarrow> ClientID \<Rightarrow> 64 word \<Rightarrow> arrivalEvent" where
  "sampleArrival p c n \<equiv> (Pooled p, 10, \<lparr>ogs_nSeq = n, omeRequest = OMEClientRequest_default\<lparr>req_clientId := c\<rparr>\<rparr>)"

theorem gateway_takes_in_sequence_witness:
  "\<exists>S g. OrderGatewayServer_init (LFQueue_init OMEClientRequest_default 8) (LFQueue_init OMEClientResponse_default 8) ''lo'' 12345 = Inr S \<and>
    runAll rxEvent (gateway S) [sampleArrival 0 7 1, sampleArrival 0 7 3, sampleArrival 1 7 2, sampleArrival 0 7 2, sampleArrival 1 9 1] = Inr g \<and>
    map (req_clientId \<circ> pend_request) (pendingList (fifo g)) = [7, 7, 9]"
proof -
  let ?es = "[sampleArrival 0 7 1, sampleArrival 0 7 3, sampleArrival 1 7 2, sampleArrival 0 7 2, sampleArrival 1 9 1]"
  have adm: "admitted (\<lambda>_. None) (\<lambda>_. 1) ?es = [sampleArrival 0 7 1, sampleArrival 0 7 2, sampleArrival 1 9 1]" by simp
  have "\<forall>(p, t, r)\<in>set ?es. clientOf r < MAX_N_CLIENTS" "length (admitted (\<lambda>_. None) (\<lambda>_. 1) ?es) \<le> MAX_PENDING_ORDER_REQUESTS"
    unfolding adm by (simp_all add: limits)
  from gateway_takes_in_sequence [OF LFQueue_init_wf LFQueue_init_wf this, of 8 8 OMEClientRequest_default OMEClientResponse_default] show ?thesis
    unfolding adm by (force simp: toPending_def)
qed

text \<open>C24: the responses waiting for the gateway are appended to the output of the sockets of their clients, each behind its
  number; per client the numbers go up by one. All of them are taken from the queue, and every socket gets nothing else.\<close>

theorem gateway_sends_responses:
  assumes "server_ok S"
    and "\<forall>r\<in>set (contents (rxResponses S)). unat (res_clientId r) < MAX_N_CLIENTS \<and>
      (\<exists>p. velem (mapClientToSocket (gateway S)) (unat (res_clientId r)) = Some p \<and> p \<in> dom (sock (server S)))"
    and "\<forall>p s. sock (server S) p = Some s \<longrightarrow> nextSendValidIndex s + 50 * length (contents (rxResponses S)) \<le> TCPBufferSize"
  shows "\<exists>S'. forwardLoop S = Inr S' \<and> server_ok S' \<and> contents (rxResponses S') = [] \<and>
    (\<forall>p s. sock (server S) p = Some s \<longrightarrow> (\<exists>s'. sock (server S') p = Some s' \<and>
      outBytes s' = outBytes s @ framesTo (velem (mapClientToSocket (gateway S))) p
        (numbered (velem (mapClientToTxNSeq (gateway S))) (contents (rxResponses S)))))"
  using forwardLoop_ok [OF assms(1) refl assms(2,3)] by blast

abbreviation sampleResponse :: "ClientID \<Rightarrow> OMEClientResponse" where
  "sampleResponse c \<equiv> OMEClientResponse_default\<lparr>res_type := Res_ACCEPTED, res_clientId := c\<rparr>"

abbreviation newServer :: "OMEClientResponse LFQueue \<Rightarrow> OrderGatewayServer res" where
  "newServer rx \<equiv> OrderGatewayServer_init (LFQueue_init OMEClientRequest_default 8) rx ''lo'' 12345"

theorem gateway_sends_responses_witness:
  "\<exists>rx S srv i S' s'. offer push (LFQueue_init OMEClientResponse_default 8) [sampleResponse 3, sampleResponse 3] = Inr rx \<and>
    newServer rx = Inr S \<and> acceptOne (server S) \<lparr>acc_fd = 9, acc_optionsOk = True, acc_addOk = True\<rparr> = Inr srv \<and>
    forwardLoop (S\<lparr>server := srv, gateway := (gateway S)\<lparr>mapClientToSocket := vfill MAX_N_CLIENTS (Some (Pooled i))\<rparr>\<rparr>) = Inr S' \<and>
    sock (server S') (Pooled i) = Some s' \<and>
    outBytes s' = responseFrame (1, sampleResponse 3) @ responseFrame (2, sampleResponse 3)"
proof -
  let ?a = "\<lparr>acc_fd = 9, acc_optionsOk = True, acc_addOk = True\<rparr>" and ?rs = "[sampleResponse 3, sampleResponse 3]"
  obtain rx where rx: "offer push (LFQueue_init OMEClientResponse_default 8) ?rs = Inr rx" "queue_wf rx" "contents rx = ?rs"
    using lfq.offer_total [OF LFQueue_init_wf, of 8 OMEClientResponse_default ?rs] by auto
  obtain S where S: "newServer rx = Inr S" "server_ok S" "velem (mapClientToTxNSeq (gateway S)) = (\<lambda>_. 1)"
    "rxResponses S = rx" "live (socketPool (server S)) = Map.empty" "listenerSocket (server S) = TCPSocket_init"
    using OrderGatewayServer_init_ok [OF LFQueue_init_wf rx(2), of 8 OMEClientRequest_default] by auto
  have wf: "server_wf (server S)" using S(2) by (simp add: server_ok_def)
  let ?s = "TCPSocket_init\<lparr>socketFd := 9, hasRecvCallback := hasRecvCallbackFn (server S)\<rparr>"
  from acceptOne_ok [OF wf, of ?a] S(5) obtain i srv where srv: "acceptOne (server S) ?a = Inr srv" "server_wf srv"
    "live (socketPool srv) = [i \<mapsto> ?s]" "listenerSocket srv = TCPSocket_init" using S(6) by (auto simp: MAX_EVENTS_def)
  let ?S = "S\<lparr>server := srv, gateway := (gateway S)\<lparr>mapClientToSocket := vfill MAX_N_CLIENTS (Some (Pooled i))\<rparr>\<rparr>"
  have si: "sock srv (Pooled i) = Some ?s" by (simp add: sock_def srv(3))
  have "server_ok ?S" using S(2) srv(2) by (simp add: server_ok_def gateway_wf_def)
  moreover have "\<forall>r\<in>set (contents (rxResponses ?S)). unat (res_clientId r) < MAX_N_CLIENTS \<and>
      (\<exists>p. velem (mapClientToSocket (gateway ?S)) (unat (res_clientId r)) = Some p \<and> p \<in> dom (sock (server ?S)))"
    using S(4) rx(3) si by (auto simp: limits)
  moreover have "nextSendValidIndex s + 50 * length (contents (rxResponses ?S)) \<le> TCPBufferSize"
    if "sock (server ?S) p = Some s" for p s
  proof -
    have "s = TCPSocket_init \<or> s = ?s" using that srv(3,4) by (auto simp: sock_def split: sockptr.splits if_splits)
    then have "nextSendValidIndex s = 0" by (auto simp: TCPSocket_init_def)
    then show ?thesis using S(4) rx(3) by (simp add: TCPBufferSize_def)
  qed
  ultimately obtain S' where "forwardLoop ?S = Inr S'" and "\<forall>p s. sock (server ?S) p = Some s \<longrightarrow>
      (\<exists>s'. sock (server S') p = Some s' \<and> outBytes s' = outBytes s @ framesTo (velem (mapClientToSocket (gateway ?S))) p
        (numbered (velem (mapClientToTxNSeq (gateway ?S))) (contents (rxResponses ?S))))"
    using gateway_sends_responses [of ?S] by blast
  moreover from this(2) si obtain s' where "sock (server S') (Pooled i) = Some s'"
    "outBytes s' = responseFrame (1, sampleResponse 3) @ responseFrame (2, sampleResponse 3)"
    using S(3,4) rx(3) by (force simp: framesTo_def outBytes_def vtake_def TCPSocket_init_def)
  ultimately show ?thesis using rx(1) S(1) srv(1) by blast
qed

text \<open>C25: whatever the network and the operating system deliver, an iteration of the gateway's loop that does not fail keeps
  its data structures in order: buffers and indices within bounds, no socket twice in a list, no pointer to a socket that
  does not exist, queues and counters consistent.\<close>

theorem gateway_loop_invariant:
  assumes "time_sort sorter" "server_ok S" "runOnce sorter events accs netR netS S = Inr (S', wire)"
  shows "server_ok S'"
proof -
  from assms(3) obtain srv1 srv2 g where 1: "poll (server S) events accs = Inr srv1"
    "sendAndReceive rxCallback (rxDoneCallback sorter) netR netS srv1 (gateway S) = Inr (srv2, g, wire)"
    "forwardLoop (S\<lparr>server := srv2, gateway := g\<rparr>) = Inr S'" by (auto simp: runOnce_def)
  have "server_wf srv1" using poll_keeps [OF _ 1(1)] assms(2) by (simp add: server_ok_def)
  from recv_handler.sendAndReceive_keeps [OF gateway_handler [OF assms(1)] this _ 1(2)] assms(2)
  have "server_wf srv2" "gateway_wf g" by (simp_all add: server_ok_def)
  with assms(2) have "server_ok (S\<lparr>server := srv2, gateway := g\<rparr>)" by (simp add: server_ok_def)
  from forwardLoop_keeps [OF 1(3) this] show ?thesis .
qed

theorem gateway_loop_invariant_witness:
  "\<exists>S S'. newServer (LFQueue_init OMEClientResponse_default 8) = Inr S \<and>
    runOnce (sort_key arrival) [] [] (\<lambda>_. \<lparr>rcv_bytes = [], rcv_time = None\<rparr>) (\<lambda>_. \<lparr>rcv_bytes = [], rcv_time = None\<rparr>) S = Inr (S', []) \<and>
    server_ok S'"
proof -
  let ?net = "\<lambda>_. \<lparr>rcv_bytes = [], rcv_time = None\<rparr>"
  obtain S where S: "newServer (LFQueue_init OMEClientResponse_default 8) = Inr S" "server_ok S"
    "rxResponses S = LFQueue_init OMEClientResponse_default 8" "receiveSockets (server S) = []" "sendSockets (server S) = []"
    using OrderGatewayServer_init_ok [OF LFQueue_init_wf LFQueue_init_wf, of 8 8 OMEClientRequest_default OMEClientResponse_default] by auto
  have run: "runOnce (sort_key arrival) [] [] ?net ?net S = Inr (S, [])"
    using S(3-5) by (simp add: runOnce_def poll_def sendAndReceive_def, subst forwardLoop.simps) (simp add: getNextToRead_def LFQueue_init_def)
  from gateway_loop_invariant [OF stable.time_sort_axioms S(2) run] S(1) run show ?thesis by blast
qed

text \<open>A gateway that was never started cannot be destroyed: the destructor reaches through the null pointer of the thread. Once
  it is started, the destructor completes.\<close>

theorem gateway_destroyed_iff_started:
  assumes "queue_wf tx" "queue_wf rx"
  shows "\<exists>S. OrderGatewayServer_init tx rx ifname port = Inr S \<and> OrderGatewayServer_destroy S = Inl NullDeref \<and>
    (\<forall>S' fd net ok. start S fd net ok = Inr S' \<longrightarrow> (\<exists>S''. OrderGatewayServer_destroy S' = Inr S'' \<and> \<not> gw_isRunning S''))"
proof -
  obtain S where S: "OrderGatewayServer_init tx rx ifname port = Inr S" using OrderGatewayServer_init_ok [OF assms, of ifname port] by blast
  then have "\<not> hasServerThread S" by (auto simp: OrderGatewayServer_init_def)
  with S show ?thesis by (intro exI [of _ S]) (auto simp: OrderGatewayServer_destroy_def stop_gw_def start_def)
qed

theorem gateway_destroyed_iff_started_witness:
  "\<exists>S. newServer (LFQueue_init OMEClientResponse_default 8) = Inr S \<and> OrderGatewayServer_destroy S = Inl NullDeref"
  using gateway_destroyed_iff_started [OF LFQueue_init_wf LFQueue_init_wf, of 8 8 OMEClientRequest_default OMEClientResponse_default "''lo''" 12345]
  by auto

text \<open>The client identifier of a request is not checked: at 256 or above the gateway indexes its tables out of their
  bounds.\<close>

theorem gateway_client_unchecked:
  assumes "gateway_wf g" "MAX_N_CLIENTS \<le> clientOf r"
  shows "rxRequest p t g r = Inl OutOfBounds"
  using assms by (simp add: rxRequest_def gateway_wf_def vget_def Let_def)

theorem gateway_client_unchecked_witness:
  "\<exists>S. newServer (LFQueue_init OMEClientResponse_default 8) = Inr S \<and>
    rxRequest (Pooled 0) 10 (gateway S) \<lparr>ogs_nSeq = 1, omeRequest = OMEClientRequest_default\<lparr>req_clientId := 256\<rparr>\<rparr> = Inl OutOfBounds"
proof -
  obtain S where "newServer (LFQueue_init OMEClientResponse_default 8) = Inr S" "gateway_wf (gateway S)"
    using OrderGatewayServer_init_ok [OF LFQueue_init_wf LFQueue_init_wf, of 8 8 OMEClientRequest_default OMEClientResponse_default]
    by (auto simp: server_ok_def)
  with gateway_client_unchecked [of "gateway S" "\<lparr>ogs_nSeq = 1, omeRequest = OMEClientRequest_default\<lparr>req_clientId := 256\<rparr>\<rparr>"] show ?thesis
    by (auto simp: limits)
qed




end
