(* ===== verification/Exchange.thy ===== *)
theory Exchange
  imports Matching_Engine Gateway_Properties
begin

text \<open>
  The exchange as a whole: the gateway and the matching engine, which share the queue of requests and the
  queue of responses. The threads' work is cut into the actions below; a schedule is any list of them.
  The specification has no pools, buffers, rings or arrays: it keeps bytes, requests, books and numbered
  responses as lists. Any schedule that meets its conditions runs without a fault and stays in step with it.
\<close>

section \<open>The two components and their shared queues\<close>

text \<open>\<open>main\<close> (src/src/core/main.cpp) up to its sleeping loop: the three queues and the started engine.\<close>

definition main_start :: "Engine res" where
  "main_start =
     bind_res (MatchingEngine_init (LFQueue_init OMEClientRequest_default MAX_CLIENT_UPDATES) newQueues) (\<lambda>E.
       Inr (startMatchingEngine E))"

text \<open>The wire has the bytes handed to the network so far, per socket.\<close>

record Exchange =
  gws :: OrderGatewayServer
  eng :: Engine
  wire :: "sockptr \<Rightarrow> byte list"

definition exchange_start :: "string \<Rightarrow> int \<Rightarrow> Exchange res" where
  "exchange_start ifname port =
     bind_res main_start (\<lambda>E.
     bind_res (OrderGatewayServer_init (rxRequests E) (txResponses (meQueues E)) ifname port) (\<lambda>S.
       Inr \<lparr>gws = S, eng = E, wire = (\<lambda>_. [])\<rparr>))"

text \<open>An event of the poll, an accepted connection, the service of one socket with what the network has for it,
  the end of a round of reads, the loop over the responses; and an iteration of the engine.\<close>

datatype exchangeAction =
    Poll Event
  | Connect Accepted
  | Serve sockptr Received
  | Publish
  | Forward
  | Handle

text \<open>Both components hold references to the two queues: what one does to a queue the other sees.\<close>

fun exchangeStep :: "sorter \<Rightarrow> stray \<Rightarrow> Exchange \<Rightarrow> exchangeAction \<Rightarrow> Exchange res" where
  "exchangeStep sorter stray X (Poll ev) =
     bind_res (pollEvent (False, server (gws X)) ev) (\<lambda>(_, srv). Inr (X\<lparr>gws := (gws X)\<lparr>server := srv\<rparr>\<rparr>))"
| "exchangeStep sorter stray X (Connect a) =
     bind_res (acceptOne (server (gws X)) a) (\<lambda>srv. Inr (X\<lparr>gws := (gws X)\<lparr>server := srv\<rparr>\<rparr>))"
| "exchangeStep sorter stray X (Serve p rx) =
     bind_res (serveSocket rxCallback (False, server (gws X), gateway (gws X), []) (p, rx)) (\<lambda>(_, srv, g, sent).
       Inr (X\<lparr>gws := (gws X)\<lparr>server := srv, gateway := g\<rparr>, wire := (wire X)(p := wire X p @ concat (map snd sent))\<rparr>))"
| "exchangeStep sorter stray X Publish =
     bind_res (rxDoneCallback sorter (gateway (gws X))) (\<lambda>g.
       Inr (X\<lparr>gws := (gws X)\<lparr>gateway := g\<rparr>, eng := (eng X)\<lparr>rxRequests := seq_rxRequests (fifo g)\<rparr>\<rparr>))"
| "exchangeStep sorter stray X Forward =
     bind_res (forwardLoop (gws X)) (\<lambda>S.
       Inr (X\<lparr>gws := S, eng := (eng X)\<lparr>meQueues := (meQueues (eng X))\<lparr>txResponses := rxResponses S\<rparr>\<rparr>\<rparr>))"
| "exchangeStep sorter stray X Handle =
     bind_res (pollRequest stray (eng X)) (\<lambda>E.
       Inr (X\<lparr>eng := E, gws := (gws X)\<lparr>gateway := (gateway (gws X))\<lparr>fifo := (fifo (gateway (gws X)))\<lparr>seq_rxRequests := rxRequests E\<rparr>\<rparr>,
         rxResponses := txResponses (meQueues E)\<rparr>\<rparr>))"

section \<open>The specification\<close>

record AbstractExchange =
  connections :: nat
  partials :: "sockptr \<Rightarrow> byte list"
  owners :: "nat \<Rightarrow> sockptr option"
  nextIn :: "nat \<Rightarrow> 64 word"
  nextOut :: "nat \<Rightarrow> 64 word"
  arrived :: "PendingClientRequest list"
  waiting :: "OMEClientRequest list"
  books :: "nat \<Rightarrow> AbstractBook"
  replies :: "OMEClientResponse list"
  market :: "OMEMarketUpdate list"
  outgoing :: "sockptr \<Rightarrow> (64 word \<times> OMEClientResponse) list"
  delivered :: "sockptr \<Rightarrow> (64 word \<times> OMEClientResponse) list"

definition newExchange :: AbstractExchange where
  "newExchange = \<lparr>connections = 0, partials = (\<lambda>_. []), owners = (\<lambda>_. None), nextIn = (\<lambda>_. 1), nextOut = (\<lambda>_. 1),
     arrived = [], waiting = [], books = (\<lambda>_. emptyBook), replies = [], market = [],
     outgoing = (\<lambda>_. []), delivered = (\<lambda>_. [])\<rparr>"

abbreviation replyClient :: "OMEClientResponse \<Rightarrow> nat" where
  "replyClient r \<equiv> unat (res_clientId r)"

abbreviation requestClient :: "OMEClientRequest \<Rightarrow> nat" where
  "requestClient r \<equiv> unat (req_clientId r)"

definition isConnected :: "AbstractExchange \<Rightarrow> sockptr \<Rightarrow> bool" where
  "isConnected A p = (case p of Listener \<Rightarrow> False | Pooled i \<Rightarrow> i < connections A)"

text \<open>The requests a read completes.\<close>

definition arrivals :: "AbstractExchange \<Rightarrow> sockptr \<Rightarrow> Received \<Rightarrow> arrivalEvent list" where
  "arrivals A p rx = (if rcv_bytes rx = [] then []
     else map (\<lambda>bs. (p, kernelTime (rcv_time rx), decodeOGSRequest bs)) (blocks OGS_REQUEST_SIZE (partials A p @ rcv_bytes rx)))"

fun specStep :: "sorter \<Rightarrow> AbstractExchange \<Rightarrow> exchangeAction \<Rightarrow> AbstractExchange" where
  "specStep sorter A (Poll ev) = A"
| "specStep sorter A (Connect a) = A\<lparr>connections := connections A + 1\<rparr>"
| "specStep sorter A (Serve p rx) =
     A\<lparr>partials := (if rcv_bytes rx = [] then partials A
                    else (partials A)(p := leftover OGS_REQUEST_SIZE (partials A p @ rcv_bytes rx))),
       owners := fst (tables (owners A) (nextIn A) (arrivals A p rx)),
       nextIn := snd (tables (owners A) (nextIn A) (arrivals A p rx)),
       arrived := arrived A @ map toPending (admitted (owners A) (nextIn A) (arrivals A p rx)),
       outgoing := (outgoing A)(p := []),
       delivered := (delivered A)(p := delivered A p @ outgoing A p)\<rparr>"
| "specStep sorter A Publish =
     A\<lparr>arrived := [], waiting := take MAX_CLIENT_UPDATES (waiting A @ map pend_request (sorter (arrived A)))\<rparr>"
| "specStep sorter A Forward =
     A\<lparr>replies := [], nextOut := advanced (nextOut A) (replies A),
       outgoing := (\<lambda>p. outgoing A p @ filter (\<lambda>nr. owners A (replyClient (snd nr)) = Some p) (numbered (nextOut A) (replies A)))\<rparr>"
| "specStep sorter A Handle =
     (case waiting A of [] \<Rightarrow> A
      | r # rs \<Rightarrow> A\<lparr>waiting := rs, books := specHandle (books A) r,
          replies := take MAX_CLIENT_UPDATES (replies A @ specReplies (books A) r),
          market := take MAX_MARKET_UPDATES (market A @ specMarket (books A) r)\<rparr>)"

text \<open>The conditions: a socket that is there, room in the buffers and the sequencer, clients within the tables, and
  requests the books accept.\<close>

fun ready :: "AbstractExchange \<Rightarrow> exchangeAction \<Rightarrow> bool" where
  "ready A (Poll ev) \<longleftrightarrow> ev_socket ev = Listener \<or> isConnected A (ev_socket ev)"
| "ready A (Connect a) \<longleftrightarrow> acc_optionsOk a \<and> acc_addOk a \<and> connections A < MAX_EVENTS"
| "ready A (Serve p rx) \<longleftrightarrow> isConnected A p \<and> length (partials A p) + length (rcv_bytes rx) \<le> TCPBufferSize \<and>
     (\<forall>(p, t, r)\<in>set (arrivals A p rx). clientOf r < MAX_N_CLIENTS) \<and>
     length (arrived A) + length (admitted (owners A) (nextIn A) (arrivals A p rx)) \<le> MAX_PENDING_ORDER_REQUESTS"
| "ready A Publish \<longleftrightarrow> True"
| "ready A Forward \<longleftrightarrow> (\<forall>i < connections A. 50 * (length (outgoing A (Pooled i)) + length (replies A)) \<le> TCPBufferSize)"
| "ready A Handle \<longleftrightarrow> (case waiting A of [] \<Rightarrow> True | r # rs \<Rightarrow> acceptableAt (books A) r)"

section \<open>An iteration of the gateway as a schedule\<close>

lemma pollEvent_flag: "pollEvent (b, srv) ev = Inr (b', srv') \<Longrightarrow> \<exists>b1. pollEvent (False, srv) ev = Inr (b1, srv')"
  by (auto simp: pollEvent_def Let_def split: if_splits)

lemma polls_schedule:
  assumes "runAll pollEvent (b, server (gws X)) evs = Inr (b', srv)"
  shows "runAll (exchangeStep sorter stray) X (map Poll evs) = Inr (X\<lparr>gws := (gws X)\<lparr>server := srv\<rparr>\<rparr>)"
  using assms
proof (induction evs arbitrary: X b)
  case (Cons ev evs)
  then obtain b1 srv1 where 1: "pollEvent (b, server (gws X)) ev = Inr (b1, srv1)" "runAll pollEvent (b1, srv1) evs = Inr (b', srv)" by auto
  obtain b2 where "pollEvent (False, server (gws X)) ev = Inr (b2, srv1)" using pollEvent_flag [OF 1(1)] by blast
  with Cons.IH [of b1 "X\<lparr>gws := (gws X)\<lparr>server := srv1\<rparr>\<rparr>"] 1(2) show ?case by simp
qed simp

lemma connects_schedule:
  assumes "runAll acceptOne (server (gws X)) accs = Inr srv"
  shows "runAll (exchangeStep sorter stray) X (map Connect accs) = Inr (X\<lparr>gws := (gws X)\<lparr>server := srv\<rparr>\<rparr>)"
  using assms
proof (induction accs arbitrary: X)
  case (Cons a accs)
  then obtain srv1 where 1: "acceptOne (server (gws X)) a = Inr srv1" "runAll acceptOne srv1 accs = Inr srv" by auto
  with Cons.IH [of "X\<lparr>gws := (gws X)\<lparr>server := srv1\<rparr>\<rparr>"] show ?case by simp
qed simp

lemma serveSocket_local:
  assumes "serveSocket cb (b, srv, w, ws) job = Inr (b', srv', w', ws')"
  shows "\<exists>b1 ws1. serveSocket cb (False, srv, w, []) job = Inr (b1, srv', w', ws1)"
  using assms by (cases job) (auto simp: serveSocket_def)

lemma serves_schedule:
  assumes "runAll (serveSocket rxCallback) (b, server (gws X), gateway (gws X), ws) jobs = Inr (b', srv, g, ws')"
  shows "\<exists>w. runAll (exchangeStep sorter stray) X (map (\<lambda>(p, rx). Serve p rx) jobs) =
    Inr (X\<lparr>gws := (gws X)\<lparr>server := srv, gateway := g\<rparr>, wire := w\<rparr>)"
  using assms
proof (induction jobs arbitrary: X b ws)
  case Nil
  then show ?case by (intro exI [of _ "wire X"]) simp
next
  case (Cons job jobs)
  obtain p rx where job: "job = (p, rx)" by (cases job)
  from Cons.prems obtain b1 srv1 g1 ws1 where
    1: "serveSocket rxCallback (b, server (gws X), gateway (gws X), ws) job = Inr (b1, srv1, g1, ws1)"
    "runAll (serveSocket rxCallback) (b1, srv1, g1, ws1) jobs = Inr (b', srv, g, ws')" by auto
  obtain b2 ws2 where 2: "serveSocket rxCallback (False, server (gws X), gateway (gws X), []) (p, rx) = Inr (b2, srv1, g1, ws2)"
    using serveSocket_local [OF 1(1)] unfolding job by blast
  let ?X = "X\<lparr>gws := (gws X)\<lparr>server := srv1, gateway := g1\<rparr>, wire := (wire X)(p := wire X p @ concat (map snd ws2))\<rparr>"
  from Cons.IH [of b1 ?X ws1] 1(2) obtain w where
    w: "runAll (exchangeStep sorter stray) ?X (map (\<lambda>(p, rx). Serve p rx) jobs) =
      Inr (?X\<lparr>gws := (gws ?X)\<lparr>server := srv, gateway := g\<rparr>, wire := w\<rparr>)" by auto
  have "exchangeStep sorter stray X (Serve p rx) = Inr ?X" using 2 by simp
  with w show ?case by (intro exI [of _ w]) (simp add: job del: exchangeStep.simps)
qed

end
