(* ===== verification/Exchange_Refine.thy ===== *)
theory Exchange_Refine
  imports Exchange
begin

text \<open>
  The refinement of the specification of the exchange. First what the specification keeps: every client
  that has a request, an order or a response anywhere in the exchange has a connected socket. Then the
  relation between the two states, and one lemma per action.
\<close>

section \<open>Who a message is about\<close>

lemma tables_step:
  "\<exists>next1. tables own next ((p, t, r) # es) = tables (if own (clientOf r) = None then own(clientOf r := Some p) else own) next1 es"
  by (auto simp: Let_def)

lemma tables_grow: "own c = Some p \<Longrightarrow> fst (tables own next es) c = Some p"
proof (induction es arbitrary: own "next")
  case (Cons e es)
  obtain q t r where e: "e = (q, t, r)" by (cases e)
  obtain next1 where n: "tables own next (e # es) = tables (if own (clientOf r) = None then own(clientOf r := Some q) else own) next1 es"
    unfolding e using tables_step by blast
  show ?case unfolding n by (rule Cons.IH) (use Cons.prems in auto)
qed simp

lemma tables_new: "fst (tables own next es) c = Some p \<Longrightarrow> own c = Some p \<or> (\<exists>t r. (p, t, r) \<in> set es \<and> clientOf r = c)"
proof (induction es arbitrary: own "next")
  case (Cons e es)
  obtain q t r where e: "e = (q, t, r)" by (cases e)
  define own1 where "own1 = (if own (clientOf r) = None then own(clientOf r := Some q) else own)"
  have "\<exists>next1. tables own next (e # es) = tables own1 next1 es" unfolding e own1_def by (rule tables_step)
  with Cons have "own1 c = Some p \<or> (\<exists>t r. (p, t, r) \<in> set es \<and> clientOf r = c)" by metis
  then show ?case by (auto simp: own1_def e split: if_splits)
qed simp

lemma admitted_known: "(p, t, r) \<in> set (admitted own next es) \<Longrightarrow> fst (tables own next es) (clientOf r) = Some p"
proof (induction es arbitrary: own "next")
  case (Cons e es)
  obtain q t' r' where e: "e = (q, t', r')" by (cases e)
  from Cons show ?case by (auto simp: e Let_def tables_grow split: if_splits)
qed simp

lemma specReplies_client:
  assumes "s \<in> set (specReplies B r)"
  shows "res_clientId s = req_clientId r \<or> (\<exists>x\<in>set (allOrders (B (unat (req_tickerId r)))). res_clientId s = clientId x)"
proof -
  let ?A = "B (unat (req_tickerId r))"
  have "toRequest r \<noteq> None" using assms unfolding specReplies_def by (cases "toRequest r") simp_all
  then obtain q s' where q: "toRequest r = Some q" "s' \<in> set (specResponses (req_tickerId r) ?A (replicate (openRests ?A q) 0) q)"
    "res_clientId s = res_clientId s'"
    using assms by (auto simp: specReplies_def Let_def)
  with specResponses_kinds(3) [OF q(2)] toRequest_requester [OF q(1)] show ?thesis by simp
qed

lemma specRequest_orders:
  assumes "x \<in> set (allOrders (specRequest t A q))"
  shows "x \<in> set (allOrders A) \<or> (case q of AddRequest c k sd px n \<Rightarrow> clientId x = c | CancelRequest c k \<Rightarrow> False)"
proof (cases q)
  case (AddRequest c k sd px n)
  let ?new = "newOrder t c k (nextId A) sd px n (nextPriority px (levels A sd))"
  have "set (concat (enterOrder ?new ls)) \<subseteq> insert ?new (set (concat ls))" for ls
    using enterOrder_levels by fastforce
  moreover have "set (concat (dropWhile (crossing sd px) ls)) \<subseteq> set (concat ls)" for ls by (auto dest: set_dropWhileD)
  moreover have "clientId ?new = c" by (simp add: newOrder_def)
  ultimately show ?thesis using assms AddRequest by (fastforce simp: allOrders_def split: if_splits)
next
  case (CancelRequest c k)
  have "set (concat (dropOrder c k ls)) \<subseteq> set (concat ls)" for ls by (auto simp: dropOrder_def)
  then show ?thesis using assms CancelRequest by (fastforce simp: allOrders_def)
qed

lemma specHandle_orders:
  assumes "x \<in> set (allOrders (specHandle B r i))"
  shows "x \<in> set (allOrders (B i)) \<or> clientId x = req_clientId r"
proof -
  consider "specHandle B r i = B i" | q where "toRequest r = Some q" "specHandle B r i = specRequest (req_tickerId r) (B i) q"
    by (cases "toRequest r"; cases "i = unat (req_tickerId r)") (auto simp: specHandle_def)
  then show ?thesis
  proof cases
    case 2
    have "(case q of AddRequest c k sd px n \<Rightarrow> c = req_clientId r | CancelRequest c k \<Rightarrow> True)"
      using 2(1) by (auto simp: toRequest_def split: RequestType.splits)
    then show ?thesis using specRequest_orders [OF assms [unfolded 2(2)]] by (auto split: request.splits)
  qed (use assms in simp)
qed

section \<open>What the specification keeps\<close>

lemma isConnected_cong: "connections A' = connections A \<Longrightarrow> isConnected A' = isConnected A"
  by (simp add: isConnected_def fun_eq_iff split: sockptr.splits)

lemma connections_step:
  "connections (specStep sorter A a) = (case a of Connect x \<Rightarrow> connections A + 1 | _ \<Rightarrow> connections A)"
  by (cases a) (simp_all split: list.splits)

text \<open>Owners are connected; everybody with a request, an order or a response has a socket; nothing is kept for sockets
  that do not exist; and on a socket are only responses to clients that own it.\<close>

definition sound :: "AbstractExchange \<Rightarrow> bool" where
  "sound A \<longleftrightarrow> (\<forall>c p. owners A c = Some p \<longrightarrow> c < MAX_N_CLIENTS \<and> isConnected A p) \<and>
     (\<forall>x\<in>set (arrived A). owners A (requestClient (pend_request x)) \<noteq> None) \<and>
     (\<forall>r\<in>set (waiting A). owners A (requestClient r) \<noteq> None) \<and>
     (\<forall>i. \<forall>x\<in>set (allOrders (books A i)). owners A (unat (clientId x)) \<noteq> None) \<and>
     (\<forall>r\<in>set (replies A). owners A (replyClient r) \<noteq> None) \<and>
     (\<forall>p. \<not> isConnected A p \<longrightarrow> partials A p = [] \<and> outgoing A p = []) \<and>
     (\<forall>p. \<forall>nr\<in>set (delivered A p @ outgoing A p). owners A (replyClient (snd nr)) = Some p) \<and>
     length (replies A) \<le> MAX_CLIENT_UPDATES"

lemma soundD:
  assumes "sound A"
  shows "owners A c = Some p \<Longrightarrow> c < MAX_N_CLIENTS" "owners A c = Some p \<Longrightarrow> isConnected A p"
    and "x \<in> set (arrived A) \<Longrightarrow> owners A (requestClient (pend_request x)) \<noteq> None"
    and "r \<in> set (waiting A) \<Longrightarrow> owners A (requestClient r) \<noteq> None"
    and "y \<in> set (allOrders (books A i)) \<Longrightarrow> owners A (unat (clientId y)) \<noteq> None"
    and "s \<in> set (replies A) \<Longrightarrow> owners A (replyClient s) \<noteq> None"
    and "\<not> isConnected A p \<Longrightarrow> partials A p = []" "\<not> isConnected A p \<Longrightarrow> outgoing A p = []"
    and "nr \<in> set (delivered A p) \<Longrightarrow> owners A (replyClient (snd nr)) = Some p"
    and "nr \<in> set (outgoing A p) \<Longrightarrow> owners A (replyClient (snd nr)) = Some p"
    and "length (replies A) \<le> MAX_CLIENT_UPDATES"
  using assms by (auto simp: sound_def)

lemma sound_new: "sound newExchange"
  by (simp add: sound_def newExchange_def emptyBook_def allOrders_def)

lemma sound_serve:
  assumes s: "sound A" and r: "ready A (Serve p rx)"
  shows "sound (specStep sorter A (Serve p rx))"
proof -
  let ?es = "arrivals A p rx" and ?A = "specStep sorter A (Serve p rx)"
  let ?own = "fst (tables (owners A) (nextIn A) ?es)"
  have conn: "isConnected ?A = isConnected A" by (rule isConnected_cong) simp
  have grow: "?own c = Some q" if "owners A c = Some q" for c q using tables_grow that by metis
  have keep: "?own c \<noteq> None" if "owners A c \<noteq> None" for c using grow that by auto
  have new: "c < MAX_N_CLIENTS \<and> isConnected A q" if "?own c = Some q" for c q
  proof -
    have "owners A c = Some q \<or> (\<exists>t r. (q, t, r) \<in> set ?es \<and> clientOf r = c)" using tables_new that by metis
    moreover have "q = p \<and> clientOf r < MAX_N_CLIENTS" if "(q, t, r) \<in> set ?es" for t r
      using that assms(2) by (auto simp: arrivals_def split: if_splits)
    ultimately show ?thesis using soundD(1,2) [OF s] r by auto
  qed
  have "?own (requestClient (pend_request x)) \<noteq> None" if "x \<in> set (arrived ?A)" for x
    using that soundD(3) [OF s, of x] keep admitted_known by (fastforce simp: toPending_def)
  then show ?thesis using s r new keep grow unfolding sound_def conn by auto
qed

lemma sound_forward:
  assumes s: "sound A"
  shows "sound (specStep sorter A Forward)"
proof -
  let ?A = "specStep sorter A Forward"
  have conn: "isConnected ?A = isConnected A" by (rule isConnected_cong) simp
  have "filter (\<lambda>nr. owners A (replyClient (snd nr)) = Some p) nrs = []" if "\<not> isConnected A p" for p and nrs :: "(64 word \<times> OMEClientResponse) list"
    using soundD(2) [OF s] that by (auto simp: filter_empty_conv)
  then show ?thesis using s unfolding sound_def conn by auto
qed

lemma sound_handle:
  assumes s: "sound A" and r: "ready A Handle"
  shows "sound (specStep sorter A Handle)"
proof (cases "waiting A")
  case (Cons r rs)
  let ?A = "specStep sorter A Handle"
  have conn: "isConnected ?A = isConnected A" by (rule isConnected_cong) (simp add: Cons)
  have own: "owners A (requestClient r) \<noteq> None" using soundD(4) [OF s, of r] Cons by simp
  have "owners A (unat (clientId x)) \<noteq> None" if "x \<in> set (allOrders (specHandle (books A) r i))" for x i
    using specHandle_orders [OF that] own soundD(5) [OF s] by metis
  moreover have "owners A (replyClient x) \<noteq> None" if "x \<in> set (specReplies (books A) r)" for x
    using specReplies_client [OF that] own soundD(5) [OF s] by metis
  ultimately show ?thesis using s Cons unfolding sound_def conn by (auto dest: in_set_takeD)
qed (use s in simp)

lemma sound_connect:
  assumes "sound A"
  shows "sound (specStep sorter A (Connect a))"
proof -
  have "isConnected A p \<Longrightarrow> isConnected (specStep sorter A (Connect a)) p"
    and "\<not> isConnected (specStep sorter A (Connect a)) p \<Longrightarrow> \<not> isConnected A p" for p
    by (simp_all add: isConnected_def split: sockptr.splits)
  with assms show ?thesis unfolding sound_def by auto
qed

lemma sound_publish:
  assumes "time_sort sorter" "sound A"
  shows "sound (specStep sorter A Publish)"
proof -
  let ?A = "specStep sorter A Publish"
  have conn: "isConnected ?A = isConnected A" by (rule isConnected_cong) simp
  have same: "set (sorter (arrived A)) = set (arrived A)" using mset_eq_setD [OF time_sort.perm [OF assms(1)]] .
  have "owners A (requestClient r) \<noteq> None" if "r \<in> set (waiting ?A)" for r
  proof -
    have "waiting ?A = take MAX_CLIENT_UPDATES (waiting A @ map pend_request (sorter (arrived A)))" by simp
    then have "r \<in> set (waiting A @ map pend_request (sorter (arrived A)))" using that by (metis in_set_takeD)
    then have "r \<in> set (waiting A) \<union> pend_request ` set (arrived A)" by (simp add: same)
    then show ?thesis using soundD(3,4) [OF assms(2)] by blast
  qed
  with assms(2) show ?thesis unfolding sound_def conn by simp
qed

lemma sound_step:
  assumes "time_sort sorter" "sound A" "ready A a"
  shows "sound (specStep sorter A a)"
  using assms sound_connect sound_serve sound_publish sound_forward sound_handle by (cases a) simp_all

section \<open>The relation\<close>

text \<open>Bytes that are frames of numbered responses; the specification leaves the remaining quantity of fills open.\<close>

definition framed :: "byte list \<Rightarrow> (64 word \<times> OMEClientResponse) list \<Rightarrow> bool" where
  "framed bs nrs \<longleftrightarrow> (\<exists>xs. bs = concat (map responseFrame xs) \<and> map (apsnd eraseRest) xs = nrs)"

lemma framed_Nil [simp]: "framed [] []"
  by (simp add: framed_def)

lemma framed_append: "framed bs nrs \<Longrightarrow> framed bs' nrs' \<Longrightarrow> framed (bs @ bs') (nrs @ nrs')"
  unfolding framed_def by (metis concat_append map_append)

lemma framed_length: "framed bs nrs \<Longrightarrow> length bs = 50 * length nrs"
proof -
  have "length (concat (map responseFrame xs)) = 50 * length xs" for xs
    by (induction xs) (simp_all add: responseFrame_def OME_RESPONSE_SIZE_def)
  then show "framed bs nrs \<Longrightarrow> ?thesis" by (auto simp: framed_def)
qed

lemma numbered_erased: "numbered next (map eraseRest rs) = map (apsnd eraseRest) (numbered next rs)"
  by (induction rs arbitrary: "next") simp_all

lemma advanced_erased: "advanced next (map eraseRest rs) = advanced next rs"
  by (induction rs arbitrary: "next") simp_all

lemma framed_framesTo:
  "framed (framesTo own p (numbered next rs)) (filter (\<lambda>nr. own (replyClient (snd nr)) = Some p) (numbered next (map eraseRest rs)))"
proof -
  have "map (apsnd eraseRest) (filter (\<lambda>nr. own (replyClient (snd nr)) = Some p) nrs) =
      filter (\<lambda>nr. own (replyClient (snd nr)) = Some p) (map (apsnd eraseRest) nrs)" for nrs :: "(64 word \<times> OMEClientResponse) list"
    by (induction nrs) auto
  then show ?thesis by (auto simp: framed_def framesTo_def numbered_erased)
qed

text \<open>Tables and sequencer, sockets, engine; and the whole.\<close>

definition gatewayRelated :: "Gateway \<Rightarrow> AbstractExchange \<Rightarrow> bool" where
  "gatewayRelated g A \<longleftrightarrow> gateway_wf g \<and> pendingList (fifo g) = arrived A \<and> velem (mapClientToSocket g) = owners A \<and>
     velem (mapClientToRxNSeq g) = nextIn A \<and> velem (mapClientToTxNSeq g) = nextOut A"

definition socketsRelated :: "TCPServer \<Rightarrow> AbstractExchange \<Rightarrow> bool" where
  "socketsRelated srv A \<longleftrightarrow> server_wf srv \<and> packed (socketPool srv) (connections A) \<and> hasRecvCallbackFn srv \<and>
     (\<forall>p s. sock srv p = Some s \<longrightarrow> framed (outBytes s) (outgoing A p) \<and>
       (isConnected A p \<longrightarrow> hasRecvCallback s \<and> inBytes s = partials A p))"

definition engineRelated :: "Engine \<Rightarrow> AbstractExchange \<Rightarrow> bool" where
  "engineRelated E A \<longleftrightarrow> engineRepresents E (books A) \<and> queue_wf (rxRequests E) \<and> contents (rxRequests E) = waiting A \<and>
     vsize (queue (rxRequests E)) = MAX_CLIENT_UPDATES \<and>
     map eraseRest (contents (txResponses (meQueues E))) = replies A \<and> vsize (queue (txResponses (meQueues E))) = MAX_CLIENT_UPDATES \<and>
     contents (txMarketUpdates (meQueues E)) = market A \<and> vsize (queue (txMarketUpdates (meQueues E))) = MAX_MARKET_UPDATES"

definition exchangeRelated :: "Exchange \<Rightarrow> AbstractExchange \<Rightarrow> bool" where
  "exchangeRelated X A \<longleftrightarrow> sound A \<and> gatewayRelated (gateway (gws X)) A \<and> socketsRelated (server (gws X)) A \<and> engineRelated (eng X) A \<and>
     seq_rxRequests (fifo (gateway (gws X))) = rxRequests (eng X) \<and> rxResponses (gws X) = txResponses (meQueues (eng X)) \<and>
     (\<forall>p. framed (wire X p) (delivered A p))"

lemma engineRepresents_queues: "engineRepresents E B \<Longrightarrow> me_ok me \<Longrightarrow> engineRepresents (E\<lparr>meQueues := me\<rparr>) B"
  unfolding engineRepresents_def using represents_queues by fastforce

lemma connected_sock: "socketsRelated srv A \<Longrightarrow> isConnected A p \<Longrightarrow> \<exists>s. sock srv p = Some s"
  by (auto simp: socketsRelated_def packed_def isConnected_def sock_def set_eq_iff domIff split: sockptr.splits)

lemma sock_connected: "socketsRelated srv A \<Longrightarrow> p \<in> dom (sock srv) \<Longrightarrow> p = Listener \<or> isConnected A p"
  by (auto simp: socketsRelated_def packed_def isConnected_def sock_def set_eq_iff domIff split: sockptr.splits)

section \<open>The actions\<close>

lemma poll_step:
  assumes R: "exchangeRelated X A" and r: "ready A (Poll ev)"
  shows "\<exists>X'. exchangeStep sorter stray X (Poll ev) = Inr X' \<and> exchangeRelated X' A"
proof -
  let ?srv = "server (gws X)"
  have s: "socketsRelated ?srv A" using R by (simp add: exchangeRelated_def)
  have "ev_socket ev \<in> dom (sock ?srv)" using r connected_sock [OF s] by (auto simp: sock_def)
  moreover have "server_wf ?srv" using s by (simp add: socketsRelated_def)
  ultimately obtain b srv where srv: "pollEvent (False, ?srv) ev = Inr (b, srv)" "server_wf srv" "sock srv = sock ?srv"
    "socketPool srv = socketPool ?srv" using pollEvent_ok by blast
  have "hasRecvCallbackFn srv = hasRecvCallbackFn ?srv" using srv(1) by (auto simp: pollEvent_def Let_def split: if_splits)
  with srv s have "socketsRelated srv A" by (simp add: socketsRelated_def)
  with R srv(1) show ?thesis by (simp add: exchangeRelated_def)
qed

lemma connect_step:
  assumes R: "exchangeRelated X A" and r: "ready A (Connect a)"
  shows "\<exists>X'. exchangeStep sorter stray X (Connect a) = Inr X' \<and> exchangeRelated X' (specStep sorter A (Connect a))"
proof -
  let ?srv = "server (gws X)" and ?n = "connections A" and ?A = "specStep sorter A (Connect a)"
  have s: "socketsRelated ?srv A" and snd: "sound A" using R by (simp_all add: exchangeRelated_def)
  let ?s = "TCPSocket_init\<lparr>socketFd := acc_fd a, hasRecvCallback := hasRecvCallbackFn ?srv\<rparr>"
  obtain srv where srv: "acceptOne ?srv a = Inr srv" "server_wf srv" "packed (socketPool srv) (Suc ?n)"
    "sock srv = (sock ?srv)(Pooled ?n \<mapsto> ?s)" "hasRecvCallbackFn srv = hasRecvCallbackFn ?srv"
    using acceptOne_packed [of ?srv ?n a] s r by (auto simp: socketsRelated_def)
  have fresh: "\<not> isConnected A (Pooled ?n)" by (simp add: isConnected_def)
  have "inBytes ?s = []" "outBytes ?s = []" using TCPSocket_init_wf(2,3) by (simp_all add: inBytes_def outBytes_def)
  then have "socketsRelated srv ?A"
    using s srv soundD(7,8) [OF snd fresh] unfolding socketsRelated_def
    by (auto simp: isConnected_def less_Suc_eq split: sockptr.splits if_splits)
  with R srv(1) sound_connect [OF snd] show ?thesis
    by (auto simp: exchangeRelated_def gatewayRelated_def engineRelated_def)
qed

text \<open>A socket is read, its requests go through the gateway, and its output is handed to the network.\<close>

lemma receive_step:
  assumes g: "gatewayRelated g A" and s: "socket_wf s" "hasRecvCallback s" "inBytes s = partials A p" and r: "ready A (Serve p rx)"
  shows "\<exists>s1 g1. receive (rxCallback p) rx s g = Inr (s1, g1) \<and> socket_wf s1 \<and> hasRecvCallback s1 \<and> outBytes s1 = outBytes s \<and>
    inBytes s1 = partials (specStep sorter A (Serve p rx)) p \<and> gatewayRelated g1 (specStep sorter A (Serve p rx)) \<and>
    seq_rxRequests (fifo g1) = seq_rxRequests (fifo g)"
proof (cases "rcv_bytes rx = []")
  case True
  then show ?thesis using g s by (simp add: receive_def arrivals_def gatewayRelated_def)
next
  case False
  let ?es = "arrivals A p rx" and ?bs = "partials A p @ rcv_bytes rx"
  have "nextRcvValidIndex s + length (rcv_bytes rx) \<le> TCPBufferSize" using r s(3) by (metis length_inBytes ready.simps(3))
  from gateway_receives [OF s(1,2) False this, of p] obtain s1 where s1: "socket_wf s1" "inBytes s1 = leftover OGS_REQUEST_SIZE ?bs"
    "outBytes s1 = outBytes s" "hasRecvCallback s1" "receive (rxCallback p) rx s g = bind_res (runAll rxEvent g ?es) (\<lambda>g'. Inr (s1, g'))"
    using False by (auto simp: s(3) rxRequests_events arrivals_def comp_def)
  have wf: "gateway_wf g" "\<forall>(p, t, r)\<in>set ?es. clientOf r < MAX_N_CLIENTS"
    "length (pendingList (fifo g)) + length (admits g ?es) \<le> MAX_PENDING_ORDER_REQUESTS"
    using g r by (auto simp: gatewayRelated_def simp flip: length_pendingList)
  from rxEvents_admit [OF wf(1,2)] wf(3) obtain g1 where "runAll rxEvent g ?es = Inr g1" "gateway_wf g1"
    "seq_rxRequests (fifo g1) = seq_rxRequests (fifo g)" "pendingList (fifo g1) = pendingList (fifo g) @ map toPending (admits g ?es)"
    "mapClientToTxNSeq g1 = mapClientToTxNSeq g" "(velem (mapClientToSocket g1), velem (mapClientToRxNSeq g1)) = tablesOf g ?es"
    by auto
  with s1 g False show ?thesis by (auto simp: gatewayRelated_def dest: sym)
qed

lemma serve_step:
  assumes R: "exchangeRelated X A" and r: "ready A (Serve p rx)"
  shows "\<exists>X'. exchangeStep sorter stray X (Serve p rx) = Inr X' \<and> exchangeRelated X' (specStep sorter A (Serve p rx))"
proof -
  let ?srv = "server (gws X)" and ?g = "gateway (gws X)" and ?A = "specStep sorter A (Serve p rx)"
  have S: "socketsRelated ?srv A" and snd: "sound A" and g: "gatewayRelated ?g A" using R by (simp_all add: exchangeRelated_def)
  have conn: "isConnected ?A = isConnected A" by (rule isConnected_cong) simp
  have p: "isConnected A p" using r by simp
  with connected_sock [OF S] obtain s where s: "sock ?srv p = Some s" by blast
  with S p have sw: "socket_wf s" "hasRecvCallback s" "inBytes s = partials A p" "framed (outBytes s) (outgoing A p)" "server_wf ?srv"
    by (auto simp: socketsRelated_def server_wf_def)
  from receive_step [OF g sw(1-3) r] obtain s1 g1 where 1: "receive (rxCallback p) rx s ?g = Inr (s1, g1)" "socket_wf s1"
    "hasRecvCallback s1" "outBytes s1 = outBytes s" "inBytes s1 = partials ?A p" "gatewayRelated g1 ?A"
    "seq_rxRequests (fifo g1) = seq_rxRequests (fifo ?g)" by blast
  let ?s = "restNextSendValidIndex s1"
  have sent: "sendAndRecv (rxCallback p) rx s ?g = Inr (rcv_bytes rx \<noteq> [], ?s, g1, outBytes s)"
    using sendAndRecv_flushes [OF 1(1,2)] 1(4) by simp
  have s': "socket_wf ?s" "outBytes ?s = []" "inBytes ?s = partials ?A p" "hasRecvCallback ?s"
    using 1(2,3,5) by (simp_all add: restNextSendValidIndex_def socket_wf_def outBytes_def inBytes_def vtake_def)
  obtain srv where srv: "wrS ?srv p ?s = Inr srv" "server_wf srv" "sock srv = (sock ?srv)(p \<mapsto> ?s)" "alike ?srv srv"
    using wrS_ok [OF sw(5) s s'(1)] by blast
  have "exchangeStep sorter stray X (Serve p rx) =
      Inr (X\<lparr>gws := (gws X)\<lparr>server := srv, gateway := g1\<rparr>, wire := (wire X)(p := wire X p @ outBytes s)\<rparr>)"
    using s sent srv(1) by (simp add: serveSocket_def rdS_sock del: rdS_eq_Inr)
  moreover have "socketsRelated srv ?A"
    using S srv(2-4) s' conn unfolding socketsRelated_def alike_def by auto
  moreover have "framed (wire X p @ outBytes s) (delivered A p @ outgoing A p)"
    using R sw(4) by (auto simp: exchangeRelated_def intro: framed_append)
  ultimately show ?thesis using R sound_serve [OF snd r] 1(6,7) by (auto simp: exchangeRelated_def engineRelated_def)
qed

lemma publish_step:
  assumes sort: "time_sort sorter" and R: "exchangeRelated X A"
  shows "\<exists>X'. exchangeStep sorter stray X Publish = Inr X' \<and> exchangeRelated X' (specStep sorter A Publish)"
proof -
  let ?g = "gateway (gws X)" and ?A = "specStep sorter A Publish"
  have g: "gatewayRelated ?g A" "seq_rxRequests (fifo ?g) = rxRequests (eng X)" "engineRelated (eng X) A"
    using R by (simp_all add: exchangeRelated_def)
  then have wf: "sequencer_wf (fifo ?g)" by (simp add: gatewayRelated_def gateway_wf_def)
  obtain f where f: "sequenceAndPublish sorter (fifo ?g) = Inr f" "sequencer_wf f" "pendingList f = []"
    "contents (seq_rxRequests f) = waiting ?A" "vsize (queue (seq_rxRequests f)) = MAX_CLIENT_UPDATES"
    using time_sort.sequenceAndPublish_ok [OF sort wf] g by (auto simp: gatewayRelated_def engineRelated_def simp del: take_append)
  let ?X = "X\<lparr>gws := (gws X)\<lparr>gateway := ?g\<lparr>fifo := f\<rparr>\<rparr>, eng := (eng X)\<lparr>rxRequests := seq_rxRequests f\<rparr>\<rparr>"
  have step: "exchangeStep sorter stray X Publish = Inr ?X" using f(1) by (simp add: rxDoneCallback_def)
  have "gatewayRelated (?g\<lparr>fifo := f\<rparr>) ?A" using g(1) f(2,3) by (simp add: gatewayRelated_def gateway_wf_def)
  moreover have "engineRelated ((eng X)\<lparr>rxRequests := seq_rxRequests f\<rparr>) ?A"
    using g(3) f(2,4,5) by (simp add: engineRelated_def sequencer_wf_def)
  moreover have "sound ?A" using R sound_publish [OF sort] by (simp add: exchangeRelated_def)
  moreover have "socketsRelated (server (gws X)) ?A"
    using R isConnected_cong [of ?A A] by (simp add: exchangeRelated_def socketsRelated_def)
  moreover have "framed (wire X p) (delivered ?A p)" for p using R by (simp add: exchangeRelated_def)
  ultimately have "exchangeRelated ?X ?A" using R unfolding exchangeRelated_def by (simp del: specStep.simps)
  with step show ?thesis by blast
qed

lemma handle_step:
  assumes R: "exchangeRelated X A" and r: "ready A Handle"
  shows "\<exists>X'. exchangeStep sorter (\<lambda>b k. Some (f b k)) X Handle = Inr X' \<and> exchangeRelated X' (specStep sorter A Handle)"
proof -
  let ?E = "eng X" and ?A = "specStep sorter A Handle" and ?g = "gateway (gws X)"
  have E: "engineRelated ?E A" and g: "gatewayRelated ?g A" and s: "socketsRelated (server (gws X)) A"
    using R by (simp_all add: exchangeRelated_def)
  have "\<exists>E'. pollRequest (\<lambda>b k. Some (f b k)) ?E = Inr E' \<and> engineRelated E' ?A"
  proof (cases "waiting A")
    case Nil
    then have "pop (rxRequests ?E) = Inr (None, rxRequests ?E)" using E pop_none by (auto simp: engineRelated_def)
    with Nil E show ?thesis by (simp add: pollRequest_def)
  next
    case (Cons r rs)
    have q: "engineRepresents ?E (books A)" "queue_wf (rxRequests ?E)" "contents (rxRequests ?E) = r # rs" "acceptableAt (books A) r"
      using E assms(2) Cons by (simp_all add: engineRelated_def)
    from poll_simulates [OF q, of f] obtain E' ss where E': "pollRequest (\<lambda>b k. Some (f b k)) ?E = Inr E'"
      "engineRepresents E' (specHandle (books A) r)" "queue_wf (rxRequests E')" "contents (rxRequests E') = rs"
      "vsize (queue (rxRequests E')) = vsize (queue (rxRequests ?E))" "map eraseRest ss = specReplies (books A) r"
      "emits (meQueues ?E) ss (specMarket (books A) r) (meQueues E')" by blast
    have "map eraseRest (take n (xs @ ss)) = take n (map eraseRest xs @ specReplies (books A) r)" for n xs
      by (simp only: take_map [symmetric] map_append E'(6))
    then have "engineRelated E' ?A" using E E'(2-5,7) Cons unfolding engineRelated_def emits_def
      by (simp del: take_append map_append)
    with E'(1) show ?thesis by blast
  qed
  then obtain E' where E': "pollRequest (\<lambda>b k. Some (f b k)) ?E = Inr E'" "engineRelated E' ?A" by blast
  let ?X = "X\<lparr>eng := E', gws := (gws X)\<lparr>gateway := ?g\<lparr>fifo := (fifo ?g)\<lparr>seq_rxRequests := rxRequests E'\<rparr>\<rparr>,
    rxResponses := txResponses (meQueues E')\<rparr>\<rparr>"
  have step: "exchangeStep sorter (\<lambda>b k. Some (f b k)) X Handle = Inr ?X" using E'(1) by simp
  have same: "arrived ?A = arrived A" "owners ?A = owners A" "nextIn ?A = nextIn A" "nextOut ?A = nextOut A" "connections ?A = connections A"
    "outgoing ?A = outgoing A" "partials ?A = partials A" "delivered ?A = delivered A" by (simp_all split: list.splits)
  have "queue_wf (rxRequests E')" using E'(2) by (simp add: engineRelated_def)
  then have "gatewayRelated (?g\<lparr>fifo := (fifo ?g)\<lparr>seq_rxRequests := rxRequests E'\<rparr>\<rparr>) ?A"
    using g same unfolding gatewayRelated_def by (simp add: gateway_wf_def sequencer_wf_def pendingList_def)
  moreover have "socketsRelated (server (gws X)) ?A" using s same unfolding socketsRelated_def isConnected_cong [OF same(5)] by simp
  moreover have "sound ?A" using R sound_handle [OF _ r] by (simp add: exchangeRelated_def)
  moreover have "framed (wire X p) (delivered ?A p)" for p using R same by (simp add: exchangeRelated_def)
  ultimately have "exchangeRelated ?X ?A" using E'(2) unfolding exchangeRelated_def by (simp del: specStep.simps)
  with step show ?thesis by blast
qed

text \<open>What the gateway needs before it forwards, read off the abstract state: the owner of every response
  is a client with a live socket, and every socket has room for all of them.\<close>

lemma forward_owners:
  assumes g: "gatewayRelated (gateway S) A" and s: "socketsRelated (server S) A" and snd: "sound A"
    and rs: "map eraseRest rs = replies A" and x: "x \<in> set rs"
  shows "replyClient x < MAX_N_CLIENTS \<and>
    (\<exists>p. velem (mapClientToSocket (gateway S)) (replyClient x) = Some p \<and> p \<in> dom (sock (server S)))"
proof -
  have "eraseRest x \<in> set (replies A)" using x rs by (metis image_eqI list.set_map)
  then obtain p where "owners A (replyClient x) = Some p" using soundD(6) [OF snd] by fastforce
  with soundD(1,2) [OF snd] connected_sock [OF s] g show ?thesis by (auto simp: gatewayRelated_def)
qed

lemma forward_room:
  assumes s: "socketsRelated (server S) A" and snd: "sound A" and r: "ready A Forward"
    and rs: "map eraseRest rs = replies A" and u: "sock (server S) p = Some u"
  shows "nextSendValidIndex u + 50 * length rs \<le> TCPBufferSize"
proof -
  have len: "nextSendValidIndex u = 50 * length (outgoing A p)" "length rs = length (replies A)"
    using s u framed_length [of "outBytes u" "outgoing A p"] by (auto simp: socketsRelated_def simp flip: rs)
  show ?thesis
  proof (cases "isConnected A p")
    case True
    then show ?thesis using r len by (auto simp: isConnected_def split: sockptr.splits)
  next
    case False
    then show ?thesis using soundD(8,11) [OF snd] len by (simp add: TCPBufferSize_def limits)
  qed
qed

text \<open>The sockets after the responses were framed into them.\<close>

lemma forward_sockets:
  assumes s: "socketsRelated T A" and wf: "server_wf T'" and alike: "alike T T'"
    and sent: "\<forall>p u. sock T p = Some u \<longrightarrow> (\<exists>u'. sock T' p = Some u' \<and>
      outBytes u' = outBytes u @ framesTo (owners A) p (numbered (nextOut A) rs) \<and> inBytes u' = inBytes u \<and>
      hasRecvCallback u' = hasRecvCallback u)"
    and rs: "map eraseRest rs = replies A"
  shows "socketsRelated T' (specStep sorter A Forward)"
  unfolding socketsRelated_def
proof (intro conjI allI impI)
  fix p u' assume u': "sock T' p = Some u'"
  then obtain u where u: "sock T p = Some u" using alike by (auto simp: alike_def)
  from sent [rule_format, OF u] u' have out: "outBytes u' = outBytes u @ framesTo (owners A) p (numbered (nextOut A) rs)"
    "inBytes u' = inBytes u" "hasRecvCallback u' = hasRecvCallback u" by auto
  show "framed (outBytes u') (outgoing (specStep sorter A Forward) p)"
    using s u out(1) framed_framesTo [of "owners A" p "nextOut A" rs] rs
    by (auto simp: socketsRelated_def intro: framed_append)
  show "hasRecvCallback u'" "inBytes u' = partials (specStep sorter A Forward) p"
    if "isConnected (specStep sorter A Forward) p"
    using s u out(2,3) that isConnected_cong [of "specStep sorter A Forward" A] by (auto simp: socketsRelated_def)
qed (use s alike wf in \<open>auto simp: socketsRelated_def alike_def\<close>)

lemma forward_step:
  assumes R: "exchangeRelated X A" and r: "ready A Forward"
  shows "\<exists>X'. exchangeStep sorter stray X Forward = Inr X' \<and> exchangeRelated X' (specStep sorter A Forward)"
proof -
  let ?S = "gws X" and ?E = "eng X" and ?A = "specStep sorter A Forward"
  have E: "engineRelated ?E A" and g: "gatewayRelated (gateway ?S) A" and s: "socketsRelated (server ?S) A" and snd: "sound A"
    and sh: "rxResponses ?S = txResponses (meQueues ?E)" using R by (simp_all add: exchangeRelated_def)
  define rs where "rs = contents (rxResponses ?S)"
  have rs: "map eraseRest rs = replies A" using E by (simp add: rs_def sh engineRelated_def)
  have ok: "server_ok ?S"
    using g s E sh by (simp add: server_ok_def gatewayRelated_def socketsRelated_def engineRelated_def engineRepresents_def me_ok_def)
  from forwardLoop_ok [OF ok rs_def [symmetric]] forward_owners [OF g s snd rs] forward_room [OF s snd r rs] obtain S' where S': "forwardLoop ?S = Inr S'" "server_ok S'"
    "contents (rxResponses S') = []"
    "\<forall>p u. sock (server ?S) p = Some u \<longrightarrow> (\<exists>u'. sock (server S') p = Some u' \<and>
      outBytes u' = outBytes u @ framesTo (owners A) p (numbered (nextOut A) rs) \<and> inBytes u' = inBytes u \<and> hasRecvCallback u' = hasRecvCallback u)"
    "alike (server ?S) (server S')" "vsize (queue (rxResponses S')) = vsize (queue (rxResponses ?S))"
    "gateway S' = (gateway ?S)\<lparr>mapClientToTxNSeq := (mapClientToTxNSeq (gateway ?S))\<lparr>velem := advanced (nextOut A) rs\<rparr>\<rparr>"
    using g unfolding gatewayRelated_def by auto
  let ?X = "X\<lparr>gws := S', eng := ?E\<lparr>meQueues := (meQueues ?E)\<lparr>txResponses := rxResponses S'\<rparr>\<rparr>\<rparr>"
  have step: "exchangeStep sorter stray X Forward = Inr ?X" using S'(1) by simp
  have "gatewayRelated (gateway S') ?A"
    using g S'(7) advanced_erased [of "nextOut A" rs] rs by (simp add: gatewayRelated_def gateway_wf_def)
  moreover have "socketsRelated (server S') ?A"
    by (rule forward_sockets [OF s _ S'(5,4) rs]) (use S'(2) in \<open>simp add: server_ok_def\<close>)
  moreover have "engineRelated (?E\<lparr>meQueues := (meQueues ?E)\<lparr>txResponses := rxResponses S'\<rparr>\<rparr>) ?A"
  proof -
    have "me_ok ((meQueues ?E)\<lparr>txResponses := rxResponses S'\<rparr>)"
      using E S'(2) by (simp add: engineRelated_def engineRepresents_def me_ok_def server_ok_def)
    then show ?thesis using E S'(3,6) sh engineRepresents_queues [of ?E "books A"] by (auto simp: engineRelated_def)
  qed
  moreover have "sound ?A" using sound_forward [OF snd] .
  moreover have "framed (wire X p) (delivered ?A p)" for p using R by (simp add: exchangeRelated_def)
  moreover have "seq_rxRequests (fifo (gateway S')) = rxRequests ?E" using R S'(7) by (simp add: exchangeRelated_def)
  ultimately have "exchangeRelated ?X ?A" unfolding exchangeRelated_def by (simp del: specStep.simps)
  with step show ?thesis by blast
qed

section \<open>Runs\<close>

lemma exchange_simulates:
  assumes "time_sort sorter"
  shows "simulation exchangeRelated (exchangeStep sorter (\<lambda>b k. Some (f b k))) (specStep sorter) ready"
proof
  show "\<exists>X'. exchangeStep sorter (\<lambda>b k. Some (f b k)) X a = Inr X' \<and> exchangeRelated X' (specStep sorter A a)"
    if "exchangeRelated X A" "ready A a" for X A a
    using that poll_step connect_step serve_step publish_step [OF assms] forward_step handle_step
    by (cases a) (simp_all del: exchangeStep.simps specStep.simps(2-6) ready.simps)
qed

interpretation exchange: simulation exchangeRelated "exchangeStep (sort_key arrival) (\<lambda>b k. Some (f b k))"
  "specStep (sort_key arrival)" ready for f
  by (rule exchange_simulates [OF stable.time_sort_axioms])

lemma main_start_ok:
  "\<exists>E. main_start = Inr E \<and> engineRepresents E (\<lambda>_. emptyBook) \<and>
    rxRequests E = LFQueue_init OMEClientRequest_default MAX_CLIENT_UPDATES \<and> meQueues E = newQueues"
  using MatchingEngine_init_ok [OF newQueues_ok, of "LFQueue_init OMEClientRequest_default MAX_CLIENT_UPDATES"]
  by (auto simp: main_start_def startMatchingEngine_def engineRepresents_def)

lemma exchange_start_state:
  "\<exists>X. exchange_start ifname port = Inr X \<and> exchangeRelated X newExchange \<and>
    receiveSockets (server (gws X)) = [] \<and> sendSockets (server (gws X)) = []"
proof -
  obtain E where E: "main_start = Inr E" "engineRepresents E (\<lambda>_. emptyBook)"
    "rxRequests E = LFQueue_init OMEClientRequest_default MAX_CLIENT_UPDATES" "meQueues E = newQueues"
    using main_start_ok by blast
  have q: "queue_wf (rxRequests E)" "queue_wf (txResponses (meQueues E))"
    using newQueues_ok by (simp_all add: E(3,4) LFQueue_init_wf limits me_ok_def)
  obtain S where S: "OrderGatewayServer_init (rxRequests E) (txResponses (meQueues E)) ifname port = Inr S" "server_ok S"
    "fifo (gateway S) = FIFOSequencer_init (rxRequests E)" "velem (mapClientToSocket (gateway S)) = (\<lambda>_. None)"
    "velem (mapClientToRxNSeq (gateway S)) = (\<lambda>_. 1)" "velem (mapClientToTxNSeq (gateway S)) = (\<lambda>_. 1)"
    "rxResponses S = txResponses (meQueues E)" "listenerSocket (server S) = TCPSocket_init"
    "live (socketPool (server S)) = Map.empty" "hasRecvCallbackFn (server S)" "nextFreeIndex (socketPool (server S)) = 0"
    "receiveSockets (server S) = []" "sendSockets (server S) = []"
    using OrderGatewayServer_init_ok [OF q, of ifname port] by blast
  let ?X = "\<lparr>gws = S, eng = E, wire = (\<lambda>_. [])\<rparr>"
  have "gatewayRelated (gateway S) newExchange" using S(2-6) by (simp add: gatewayRelated_def newExchange_def server_ok_def)
  moreover have "socketsRelated (server S) newExchange"
    using S(2,8-11) by (auto simp: socketsRelated_def newExchange_def server_ok_def packed_def sock_def isConnected_def split: sockptr.splits)
  moreover have "engineRelated E newExchange" using E q by (simp add: engineRelated_def newExchange_def newQueues_def)
  moreover have "seq_rxRequests (fifo (gateway S)) = rxRequests E" using S(3) by (simp add: FIFOSequencer_init_def)
  ultimately have "exchangeRelated ?X newExchange" using S(7) sound_new by (simp add: exchangeRelated_def) (simp add: newExchange_def)
  moreover have "exchange_start ifname port = Inr ?X" by (simp add: exchange_start_def E(1) S(1))
  ultimately show ?thesis using S(12,13) by (intro exI [of _ ?X]) simp
qed

lemma exchange_start_related: "\<exists>X. exchange_start ifname port = Inr X \<and> exchangeRelated X newExchange"
  using exchange_start_state by blast

lemma exchange_start_idle:
  "\<exists>X. exchange_start ifname port = Inr X \<and> receiveSockets (server (gws X)) = [] \<and> sendSockets (server (gws X)) = [] \<and>
    numElements (rxResponses (gws X)) = 0"
proof -
  obtain X where X: "exchange_start ifname port = Inr X" "exchangeRelated X newExchange"
    "receiveSockets (server (gws X)) = []" "sendSockets (server (gws X)) = []" using exchange_start_state by blast
  have "map eraseRest (contents (rxResponses (gws X))) = []" using X(2) by (simp add: exchangeRelated_def engineRelated_def newExchange_def)
  then have "numElements (rxResponses (gws X)) = 0" by (metis length_contents length_map list.size(3))
  with X show ?thesis by blast
qed

section \<open>The numbers on the responses\<close>

text \<open>What a client has been sent: the responses to it on its socket, handed to the network or waiting there.\<close>

definition sentTo :: "AbstractExchange \<Rightarrow> nat \<Rightarrow> (64 word \<times> OMEClientResponse) list" where
  "sentTo A c = (case owners A c of None \<Rightarrow> []
     | Some p \<Rightarrow> filter (\<lambda>nr. replyClient (snd nr) = c) (delivered A p @ outgoing A p))"

definition counted :: "AbstractExchange \<Rightarrow> bool" where
  "counted A \<longleftrightarrow> (\<forall>c. nextOut A c = 1 + word_of_nat (length (sentTo A c)) \<and>
     map fst (sentTo A c) = map (\<lambda>k. 1 + word_of_nat k) [0..<length (sentTo A c)])"

lemma counted_cong:
  assumes "counted A" "owners A' = owners A" "delivered A' = delivered A" "outgoing A' = outgoing A" "nextOut A' = nextOut A"
  shows "counted A'"
proof -
  have "sentTo A' = sentTo A" unfolding sentTo_def assms(2-4) ..
  with assms(1,5) show ?thesis by (simp add: counted_def)
qed

lemma numbered_ofClient:
  fixes "next" :: "nat \<Rightarrow> 64 word"
  shows "map fst (filter (\<lambda>nr. replyClient (snd nr) = c) (numbered next rs)) =
      map (\<lambda>k. next c + word_of_nat k) [0..<length (filter (\<lambda>r. replyClient r = c) rs)]"
    and "advanced next rs c = next c + word_of_nat (length (filter (\<lambda>r. replyClient r = c) rs))"
    and "map snd (filter (\<lambda>nr. replyClient (snd nr) = c) (numbered next rs)) = filter (\<lambda>r. replyClient r = c) rs"
  by (induction rs arbitrary: "next") (auto simp: count_from add.assoc simp del: upt_Suc)

lemma count_append:
  "map (\<lambda>k. 1 + word_of_nat k) [0..<n] @ map (\<lambda>k. 1 + word_of_nat n + word_of_nat k) [0..<m] =
   map (\<lambda>k. 1 + word_of_nat k :: 64 word) [0..<n + m]"
  by (rule nth_equalityI) (auto simp: nth_append)

lemma counted_forward:
  assumes "counted A" "sound A"
  shows "counted (specStep sorter A Forward)"
  unfolding counted_def
proof
  fix c
  let ?A = "specStep sorter A Forward" and ?rs = "filter (\<lambda>r. replyClient r = c) (replies A)"
  let ?new = "filter (\<lambda>nr. replyClient (snd nr) = c) (numbered (nextOut A) (replies A))"
  have c: "nextOut A c = 1 + word_of_nat (length (sentTo A c))" "map fst (sentTo A c) = map (\<lambda>k. 1 + word_of_nat k) [0..<length (sentTo A c)]"
    using assms(1) by (simp_all add: counted_def)
  note n = numbered_ofClient [where c = c and ?next = "nextOut A" and rs = "replies A"]
  have len: "length ?new = length ?rs" using n(3) by (metis length_map)
  have new: "sentTo ?A c = sentTo A c @ ?new"
  proof (cases "owners A c")
    case None
    then have "?rs = []" using soundD(6) [OF assms(2)] by (metis (mono_tags, lifting) filter_False)
    with len None show ?thesis by (simp add: sentTo_def)
  next
    case (Some p)
    have "filter (\<lambda>nr. replyClient (snd nr) = c) (filter (\<lambda>nr. owners A (replyClient (snd nr)) = Some p) nrs) =
        filter (\<lambda>nr. replyClient (snd nr) = c) nrs" for nrs :: "(64 word \<times> OMEClientResponse) list"
      using Some by (induction nrs) auto
    with Some show ?thesis by (simp add: sentTo_def)
  qed
  show "nextOut ?A c = 1 + word_of_nat (length (sentTo ?A c)) \<and>
      map fst (sentTo ?A c) = map (\<lambda>k. 1 + word_of_nat k) [0..<length (sentTo ?A c)]"
    using n(1,2) c count_append [of "length (sentTo A c)" "length ?rs"] unfolding new
    by (simp add: len add.assoc del: filter_map)
qed

lemma counted_serve:
  assumes "counted A" "sound A" "sound (specStep sorter A (Serve p rx))"
  shows "counted (specStep sorter A (Serve p rx))"
proof -
  let ?A = "specStep sorter A (Serve p rx)"
  have "sentTo ?A c = sentTo A c" for c
  proof (cases "owners A c")
    case None
    have "filter (\<lambda>nr. replyClient (snd nr) = c) (delivered ?A q @ outgoing ?A q) = []" for q
      using None soundD(9,10) [OF assms(2)] by (force simp: filter_empty_conv)
    then show ?thesis using None by (auto simp: sentTo_def split: option.splits simp del: specStep.simps)
  next
    case (Some q)
    then have "owners ?A c = Some q" by (simp add: tables_grow)
    with Some show ?thesis by (simp add: sentTo_def)
  qed
  then show ?thesis using assms(1) by (simp add: counted_def)
qed

lemma counted_step:
  assumes "time_sort sorter" "counted A" "sound A" "ready A a"
  shows "counted (specStep sorter A a)"
proof (cases a)
  case (Serve p rx)
  with assms sound_step [OF assms(1,3,4)] show ?thesis using counted_serve by simp
next
  case Forward
  with assms show ?thesis using counted_forward by simp
qed (rule counted_cong [OF assms(2)]; simp split: list.splits)+

lemma run_counted:
  assumes "time_sort sorter"
  shows "sound A \<Longrightarrow> counted A \<Longrightarrow> allowed ready (specStep sorter) A as \<Longrightarrow>
    sound (foldl (specStep sorter) A as) \<and> counted (foldl (specStep sorter) A as)"
proof (induction as arbitrary: A)
  case (Cons a as)
  then show ?case using sound_step [OF assms] counted_step [OF assms] by simp
qed simp

lemma counted_new: "counted newExchange"
  by (simp add: counted_def sentTo_def newExchange_def)

text \<open>On a socket: frames for its owners, numbered from 1 for each of them.\<close>

lemma frames_of_socket:
  assumes "sound A" "counted A" "framed bs (delivered A p @ outgoing A p)"
  shows "\<exists>nrs. bs = concat (map responseFrame nrs) \<and> (\<forall>nr\<in>set nrs. owners A (replyClient (snd nr)) = Some p) \<and>
    (\<forall>c. let mine = filter (\<lambda>nr. replyClient (snd nr) = c) nrs in
      map fst mine = map (\<lambda>k. 1 + word_of_nat k) [0..<length mine])"
proof -
  obtain nrs where nrs: "bs = concat (map responseFrame nrs)" "map (apsnd eraseRest) nrs = delivered A p @ outgoing A p"
    using assms(3) by (auto simp: framed_def)
  have own: "owners A (replyClient (snd nr)) = Some p" if nr: "nr \<in> set nrs" for nr
  proof -
    have "apsnd eraseRest nr \<in> set (delivered A p @ outgoing A p)" unfolding nrs(2) [symmetric] using nr by simp
    then show ?thesis using soundD(9,10) [OF assms(1)] by fastforce
  qed
  have mine: "map fst (filter (\<lambda>nr. replyClient (snd nr) = c) nrs) =
      map fst (filter (\<lambda>nr. replyClient (snd nr) = c) (delivered A p @ outgoing A p))" for c
    unfolding nrs(2) [symmetric] by (induction nrs) auto
  have "map fst (filter (\<lambda>nr. replyClient (snd nr) = c) nrs) =
      map (\<lambda>k. 1 + word_of_nat k) [0..<length (filter (\<lambda>nr. replyClient (snd nr) = c) nrs)]" for c
  proof (cases "owners A c = Some p")
    case True
    then have "map fst (filter (\<lambda>nr. replyClient (snd nr) = c) nrs) = map fst (sentTo A c)" unfolding mine by (simp add: sentTo_def)
    moreover from arg_cong [OF this, of length] have "length (filter (\<lambda>nr. replyClient (snd nr) = c) nrs) = length (sentTo A c)" by simp
    ultimately show ?thesis using assms(2) by (simp add: counted_def)
  next
    case False
    then have "filter (\<lambda>nr. replyClient (snd nr) = c) nrs = []" using own by (auto simp: filter_empty_conv)
    then show ?thesis by simp
  qed
  with nrs(1) own show ?thesis by (auto simp: Let_def)
qed

end
