(* ===== verification/Book_Print.thy ===== *)
theory Book_Print
  imports Book_Properties
begin

text \<open>
  The text of the order book: \<open>OrdersAtPrice::toString\<close>
  (src/src/core/exchange/matching_engine_order.h), \<open>OrderBook::toString\<close> with its check of the
  price order, and the destructor that runs it (src/src/core/matching_engine/order_book.cpp). The
  loops of the code walk the rings of levels and orders; they are shown to print the text of the
  abstract book.
\<close>

section \<open>Formatting\<close>

abbreviation nl :: string where
  "nl \<equiv> [CHR 0x0A]"

abbreviation tab :: string where
  "tab \<equiv> [CHR 0x09]"

text \<open>\<open>std::format\<close> with a width: strings are filled up on the right, numbers on the left.\<close>

definition padRight :: "nat \<Rightarrow> string \<Rightarrow> string" where
  "padRight w s = s @ replicate (w - length s) CHR '' ''"

definition padLeft :: "nat \<Rightarrow> string \<Rightarrow> string" where
  "padLeft w s = replicate (w - length s) CHR '' '' @ s"

definition levelLine :: "Price \<Rightarrow> Price \<Rightarrow> Price \<Rightarrow> Qty \<Rightarrow> nat \<Rightarrow> string" where
  "levelLine px before behind tot n =
     '' { p:'' @ padRight 3 (priceToStr px) @ '' [-]:'' @ padRight 3 (priceToStr before) @
     '' [+]:'' @ padRight 3 (priceToStr behind) @ '' } '' @ padRight 5 (qtyToStr tot) @
     '' @ '' @ padRight 3 (priceToStr px) @ '' ('' @ padLeft 4 (to_string_nat n) @ '')'' @ nl"

definition orderLine :: "Order \<Rightarrow> string \<Rightarrow> string \<Rightarrow> string" where
  "orderLine x before behind =
     tab @ tab @ tab @ ''{ oid:'' @ orderIdToStr (marketOrderId x) @ '', q:'' @ qtyToStr (qty x) @
     '', p:'' @ before @ '', n:'' @ behind @ '' }'' @ nl"

section \<open>The code\<close>

text \<open>\<open>OrdersAtPrice::toString\<close>, with the memory its pointers refer to.\<close>

definition levelPriceToStr :: "OrderBook \<Rightarrow> ptr \<Rightarrow> string res" where
  "levelPriceToStr b p =
     (if p = None then Inr (priceToStr Price_INVALID)
      else bind_res (rdL b p) (\<lambda>l. Inr (priceToStr (level_price l))))"

definition OrdersAtPrice_toString :: "OrderBook \<Rightarrow> OrdersAtPrice \<Rightarrow> string res" where
  "OrdersAtPrice_toString b lv =
     bind_res (if order0 lv = None then Inr ''NULL''
               else bind_res (rdO b (order0 lv)) (Order_to_string (\<lambda>i. rdO b (Some i)))) (\<lambda>first.
     bind_res (levelPriceToStr b (level_prev lv)) (\<lambda>p.
     bind_res (levelPriceToStr b (level_next lv)) (\<lambda>n.
       Inr (''<OrdersAtPrice>[side_: '' @ sideToStr (level_side lv) @ '', price_: '' @ priceToStr (level_price lv) @
            '', order0_: '' @ first @ '', prev_: '' @ p @ '', next_: '' @ n @ '']''))))"

text \<open>
  The two loops over the orders of a level. Where they go next depends on the current order only:
  more rounds than the pool has blocks visit an order twice, and the loop never ends.
\<close>

fun sumOrders :: "nat \<Rightarrow> OrderBook \<Rightarrow> ptr \<Rightarrow> ptr \<Rightarrow> Qty \<Rightarrow> nat \<Rightarrow> (Qty \<times> nat) res" where
  "sumOrders rounds b first p totalQty orderCount =
     (if rounds = 0 then Inl Diverges
      else bind_res (rdO b p) (\<lambda>x.
        if nxt x = first then Inr (totalQty + qty x, orderCount + 1)
        else sumOrders (rounds - 1) b first (nxt x) (totalQty + qty x) (orderCount + 1)))"

fun printOrders :: "nat \<Rightarrow> OrderBook \<Rightarrow> ptr \<Rightarrow> ptr \<Rightarrow> string res" where
  "printOrders rounds b first p =
     (if rounds = 0 then Inl Diverges
      else bind_res (rdO b p) (\<lambda>x.
           bind_res (neighbourToStr (\<lambda>i. rdO b (Some i)) (prev x)) (\<lambda>before.
           bind_res (neighbourToStr (\<lambda>i. rdO b (Some i)) (nxt x)) (\<lambda>behind.
             if nxt x = first then Inr (orderLine x before behind)
             else bind_res (printOrders (rounds - 1) b first (nxt x)) (\<lambda>s. Inr (orderLine x before behind @ s))))))"

declare sumOrders.simps [simp del] printOrders.simps [simp del]

text \<open>The lambda \<open>printer\<close>: the text of a level, and the new \<open>lastPrice\<close>.\<close>

definition isSorted :: "Side \<Rightarrow> Price \<Rightarrow> Price \<Rightarrow> bool" where
  "isSorted sideEnum lastPrice px \<longleftrightarrow>
     sideEnum = SELL \<and> sint lastPrice < sint px \<or> sideEnum = BUY \<and> sint lastPrice > sint px"

definition printer :: "OrderBook \<Rightarrow> bool \<Rightarrow> bool \<Rightarrow> ptr \<Rightarrow> Side \<Rightarrow> Price \<Rightarrow> (string \<times> Price) res" where
  "printer b isDetailed hasValidityCheck p sideEnum lastPrice =
     bind_res (rdL b p) (\<lambda>lv.
     bind_res (sumOrders MAX_ORDER_IDS b (order0 lv) (order0 lv) 0 0) (\<lambda>(totalQty, orderCount).
     bind_res (rdL b (level_prev lv)) (\<lambda>before.
     bind_res (rdL b (level_next lv)) (\<lambda>behind.
     bind_res (if isDetailed then printOrders MAX_ORDER_IDS b (order0 lv) (order0 lv) else Inr []) (\<lambda>details.
       let text = levelLine (level_price lv) (level_price before) (level_price behind) totalQty orderCount @ details in
       if \<not> hasValidityCheck then Inr (text, lastPrice)
       else if isSorted sideEnum lastPrice (level_price lv) then Inr (text, level_price lv)
       else bind_res (OrdersAtPrice_toString b lv) (\<lambda>s.
         Inl (Uncaught (''Bid/ask price levels not sorted correctly: '' @ priceToStr lastPrice @ '' levels:'' @ s))))))))"

text \<open>
  The loop over the levels of a side. With the check a level that is visited again fails it; without,
  the loop never ends. One round more than the pool has blocks tells the two apart.
\<close>

fun printLevels :: "nat \<Rightarrow> OrderBook \<Rightarrow> bool \<Rightarrow> bool \<Rightarrow> Side \<Rightarrow> ptr \<Rightarrow> ptr \<Rightarrow> nat \<Rightarrow> Price \<Rightarrow> string res" where
  "printLevels rounds b isDetailed hasValidityCheck sd best p k lastPrice =
     (if p = None then Inr []
      else if rounds = 0 then Inl Diverges
      else bind_res (printer b isDetailed hasValidityCheck p sd lastPrice) (\<lambda>(text, lastPrice).
           bind_res (rdL b p) (\<lambda>lv.
           bind_res (printLevels (rounds - 1) b isDetailed hasValidityCheck sd best
               (if level_next lv = best then None else level_next lv) (k + 1) lastPrice) (\<lambda>s.
             Inr ((if sd = SELL then ''ASKS['' else ''BIDS['') @ to_string_nat k @ ''] => '' @ text @ s)))))"

declare printLevels.simps [simp del]

text \<open>\<open>std::numeric_limits<Price>::min()\<close> for the asks, \<open>max()\<close> for the bids.\<close>

definition firstLastPrice :: "Side \<Rightarrow> Price" where
  "firstLastPrice sd = (if sd = SELL then word_of_int (- (2 ^ 63)) else word_of_int (2 ^ 63 - 1))"

definition noLevels :: "Side \<Rightarrow> string" where
  "noLevels sd = nl @ ''                  [NO '' @ (if sd = SELL then ''ASKS'' else ''BIDS'') @ '' ON BOOK]'' @ nl"

definition printSide :: "OrderBook \<Rightarrow> bool \<Rightarrow> bool \<Rightarrow> Side \<Rightarrow> string res" where
  "printSide b isDetailed hasValidityCheck sd =
     (let best = bestOrdersByPrice b sd in
      if best = None then Inr (noLevels sd)
      else printLevels (MAX_PRICE_LEVELS + 1) b isDetailed hasValidityCheck sd best best 0 (firstLastPrice sd))"

definition bookHeader :: "TickerID \<Rightarrow> string" where
  "bookHeader t = nl @ ''----- ORDER BOOK FOR TICKER: '' @ tickerIdToStr t @ '' -----'' @ nl"

definition bookMiddle :: string where
  "bookMiddle = nl @ ''                          X'' @ nl @ nl"

definition toString :: "OrderBook \<Rightarrow> bool \<Rightarrow> bool \<Rightarrow> string res" where
  "toString b isDetailed hasValidityCheck =
     bind_res (printSide b isDetailed hasValidityCheck SELL) (\<lambda>asks.
     bind_res (printSide b isDetailed hasValidityCheck BUY) (\<lambda>bids.
       Inr (bookHeader (assignedTicker b) @ asks @ bookMiddle @ bids)))"

text \<open>
  \<open>OrderBook::~OrderBook\<close>: what it logs, and the book it leaves. A destructor is
  \<open>noexcept\<close>: an exception of \<open>toString\<close> ends the process.
\<close>

definition OrderBook_destroy :: "OrderBook \<Rightarrow> (string \<times> OrderBook) res" where
  "OrderBook_destroy b =
     bind_res (toString b False True) (\<lambda>s.
       Inr (s @ nl, b\<lparr>bidsByPrice := None, asksByPrice := None,
         mapClientIdToOrder := (mapClientIdToOrder b)
           \<lparr>velem := (\<lambda>c. vfill (vsize (velem (mapClientIdToOrder b) c)) None)\<rparr>\<rparr>))"

section \<open>The text of an abstract book\<close>

text \<open>Every element of a list with the one before and the one behind, around a ring.\<close>

fun neighbours :: "'a \<Rightarrow> 'a list \<Rightarrow> 'a \<Rightarrow> ('a \<times> 'a \<times> 'a) list" where
  "neighbours p [] n = []"
| "neighbours p (x # xs) n = (p, x, hd (xs @ [n])) # neighbours x xs n"

definition around :: "'a list \<Rightarrow> ('a \<times> 'a \<times> 'a) list" where
  "around xs = neighbours (last xs) xs (hd xs)"

definition orderText :: "Order \<times> Order \<times> Order \<Rightarrow> string" where
  "orderText = (\<lambda>(p, x, n). orderLine x (orderIdToStr (marketOrderId p)) (orderIdToStr (marketOrderId n)))"

definition levelText :: "bool \<Rightarrow> Order list \<times> Order list \<times> Order list \<Rightarrow> string" where
  "levelText isDetailed = (\<lambda>(p, os, n).
     levelLine (price (hd os)) (price (hd p)) (price (hd n)) (\<Sum>x\<leftarrow>os. qty x) (length os) @
     (if isDetailed then concat (map orderText (around os)) else []))"

fun levelsText :: "bool \<Rightarrow> Side \<Rightarrow> nat \<Rightarrow> (Order list \<times> Order list \<times> Order list) list \<Rightarrow> string" where
  "levelsText isDetailed sd k [] = []"
| "levelsText isDetailed sd k (e # es) =
     (if sd = SELL then ''ASKS['' else ''BIDS['') @ to_string_nat k @ ''] => '' @ levelText isDetailed e @
     levelsText isDetailed sd (k + 1) es"

definition sideText :: "bool \<Rightarrow> Side \<Rightarrow> Order list list \<Rightarrow> string" where
  "sideText isDetailed sd ls = (if ls = [] then noLevels sd else levelsText isDetailed sd 0 (around ls))"

definition bookText :: "TickerID \<Rightarrow> bool \<Rightarrow> AbstractBook \<Rightarrow> string" where
  "bookText t isDetailed A =
     bookHeader t @ sideText isDetailed SELL (levels A SELL) @ bookMiddle @ sideText isDetailed BUY (levels A BUY)"

text \<open>What the check asks for: prices from the best to the worst, none of them the first value of
  \<open>lastPrice\<close>.\<close>

definition passesCheck :: "Side \<Rightarrow> Order list list \<Rightarrow> bool" where
  "passesCheck sd ls \<longleftrightarrow> inOrder sd ls \<and> (\<forall>os\<in>set ls. price (hd os) \<noteq> firstLastPrice sd)"

section \<open>The loops print the rings\<close>

lemma rdO_view:
  assumes "odata (orderPool b) i = Some d"
  obtains x where "rdO b (Some i) = Inr x" "nxt x = onext (orderPool b) i" "prev x = oprev (orderPool b) i"
    "qty d = qty x" "marketOrderId d = marketOrderId x" "orderLine d = orderLine x"
  using deref_order [OF assms] that by (auto simp: rdO_def orderLine_def fun_eq_iff)

lemma rdL_view:
  assumes "ldata (ordersAtPricePool b) i = Some d"
  obtains x where "rdL b (Some i) = Inr x" "level_next x = lnext (ordersAtPricePool b) i"
    "level_prev x = lprev (ordersAtPricePool b) i" "level_price x = level_price d" "order0 x = order0 d"
  using deref_level [OF assms] that by (auto simp: rdL_def)

lemma sumOrders_path:
  assumes "path (onext (orderPool b)) (oprev (orderPool b)) i js f" "f \<notin> set js"
    and "\<forall>j\<in>set (i # js). odata (orderPool b) j = Some (D j)" "length js < rounds"
  shows "sumOrders rounds b (Some f) (Some i) t n = Inr (t + (\<Sum>j\<leftarrow>i # js. qty (D j)), n + length (i # js))"
  using assms
proof (induction js arbitrary: i rounds t n)
  case Nil
  then obtain x where "rdO b (Some i) = Inr x" "nxt x = Some f" "qty (D i) = qty x" by (auto elim: rdO_view)
  then show ?case using Nil by (subst sumOrders.simps) simp
next
  case (Cons j js)
  then obtain x where "rdO b (Some i) = Inr x" "nxt x = Some j" "qty (D i) = qty x" by (auto elim: rdO_view)
  moreover have "sumOrders (rounds - 1) b (Some f) (Some j) (t + qty x) (n + 1) =
      Inr (t + qty x + (\<Sum>j\<leftarrow>j # js. qty (D j)), n + 1 + length (j # js))"
    using Cons.prems by (intro Cons.IH) auto
  ultimately show ?case using Cons.prems by (subst sumOrders.simps) (simp add: add.assoc)
qed

lemma neighbourToStr_view:
  assumes "odata (orderPool b) i = Some d"
  shows "neighbourToStr (\<lambda>i. rdO b (Some i)) (Some i) = Inr (orderIdToStr (marketOrderId d))"
  using rdO_view [OF assms] by (metis (mono_tags, lifting) bind_res_Inr neighbourToStr_def option.simps(5))

lemma printOrders_path:
  assumes "path (onext (orderPool b)) (oprev (orderPool b)) i js f" "f \<notin> set js" "oprev (orderPool b) i = Some p"
    and "\<forall>j\<in>set (p # f # i # js). odata (orderPool b) j = Some (D j)" "length js < rounds"
  shows "printOrders rounds b (Some f) (Some i) =
    Inr (concat (map orderText (neighbours (D p) (map D (i # js)) (D f))))"
  using assms
proof (induction js arbitrary: i p rounds)
  case Nil
  then obtain x where "rdO b (Some i) = Inr x" "nxt x = Some f" "prev x = Some p" "orderLine (D i) = orderLine x"
    by (auto elim: rdO_view)
  then show ?case using Nil by (subst printOrders.simps) (simp add: neighbourToStr_view orderText_def)
next
  case (Cons j js)
  then obtain x where "rdO b (Some i) = Inr x" "nxt x = Some j" "prev x = Some p" "orderLine (D i) = orderLine x"
    by (auto elim: rdO_view)
  moreover have "printOrders (rounds - 1) b (Some f) (Some j) =
      Inr (concat (map orderText (neighbours (D i) (map D (j # js)) (D f))))"
    using Cons.prems by (intro Cons.IH) auto
  ultimately show ?case using Cons.prems
    by (subst printOrders.simps) (simp add: neighbourToStr_view orderText_def)
qed

text \<open>The orders of a level fit into the rounds of the loops.\<close>

lemma level_length:
  assumes "book_ok b Lv" "sd \<in> sides" "(l, os) \<in> set (Lv sd)"
  shows "length os \<le> MAX_ORDER_IDS"
proof -
  have "distinct os" using book_level_ok [OF assms] by (simp add: level_ok_def)
  moreover have "set os \<subseteq> dom (odata (orderPool b))" using assms(2,3) book_okD(7) [OF assms(1)] by auto
  moreover have "dom (odata (orderPool b)) \<subseteq> {..<MAX_ORDER_IDS}"
    using book_okD(4) [OF assms(1)] by (auto simp: opool_ok_def odata_def live_def split: if_splits)
  ultimately show ?thesis
    by (metis card_lessThan card_mono distinct_card finite_lessThan order_trans)
qed

text \<open>The orders of a level of the layout.\<close>

abbreviation view :: "OrderBook \<Rightarrow> nat \<times> nat list \<Rightarrow> Order list" where
  "view b e \<equiv> map (\<lambda>i. the (odata (orderPool b) i)) (snd e)"

lemma view_price:
  assumes "level_ok (orderPool b) Q sd e"
  shows "\<exists>L. ldata Q (fst e) = Some L \<and> level_price L = price (hd (view b e))"
  using assms unfolding level_ok_def by (metis hd_in_set hd_map option.sel)

lemma level_prints:
  assumes "level_ok (orderPool b) Q sd (l, os)" "length os \<le> MAX_ORDER_IDS"
  shows "sumOrders MAX_ORDER_IDS b (Some (hd os)) (Some (hd os)) 0 0 = Inr (\<Sum>x\<leftarrow>view b (l, os). qty x, length os)"
    and "printOrders MAX_ORDER_IDS b (Some (hd os)) (Some (hd os)) = Inr (concat (map orderText (around (view b (l, os)))))"
    and "\<exists>s. bind_res (rdO b (Some (hd os))) (Order_to_string (\<lambda>i. rdO b (Some i))) = Inr s"
proof -
  obtain i js where os: "os = i # js" using assms(1) by (auto simp: level_ok_def neq_Nil_conv)
  let ?D = "\<lambda>i. the (odata (orderPool b) i)" and ?p = "last (i # js)"
  have path: "path (onext (orderPool b)) (oprev (orderPool b)) i js i" and i: "i \<notin> set js"
    and D: "\<forall>j\<in>set (i # js). odata (orderPool b) j = Some (?D j)" and len: "length js < MAX_ORDER_IDS"
    using assms os by (auto simp: level_ok_def)
  have prv: "oprev (orderPool b) i = Some ?p" and pD: "\<forall>j\<in>set (?p # i # i # js). odata (orderPool b) j = Some (?D j)"
    using path_last [OF path] D by auto
  show "sumOrders MAX_ORDER_IDS b (Some (hd os)) (Some (hd os)) 0 0 = Inr (\<Sum>x\<leftarrow>view b (l, os). qty x, length os)"
    using sumOrders_path [OF path i D len, of 0 0] os by (simp add: comp_def)
  show "printOrders MAX_ORDER_IDS b (Some (hd os)) (Some (hd os)) = Inr (concat (map orderText (around (view b (l, os)))))"
    using printOrders_path [OF path i prv pD len] os by (simp add: around_def last_map del: map_append split: if_splits)
  obtain n where n: "onext (orderPool b) i = Some n" "n \<in> set (i # js)" using path by (cases js) auto
  obtain x where "rdO b (Some i) = Inr x" "nxt x = Some n" "prev x = Some ?p" using D prv n by (auto elim: rdO_view)
  moreover have "neighbourToStr (\<lambda>i. rdO b (Some i)) (Some j) = Inr (orderIdToStr (marketOrderId (?D j)))"
    if "j \<in> {n, ?p}" for j
    using that n(2) D pD by (intro neighbourToStr_view) auto
  ultimately show "\<exists>s. bind_res (rdO b (Some (hd os))) (Order_to_string (\<lambda>i. rdO b (Some i))) = Inr s"
    unfolding os list.sel Order_to_string_def by (metis (no_types, lifting) bind_res_Inr insert_iff)
qed

lemma printer_level:
  fixes det :: bool
  assumes e: "level_ok (orderPool b) (ordersAtPricePool b) sd e" "length (snd e) \<le> MAX_ORDER_IDS"
    and p: "level_ok (orderPool b) (ordersAtPricePool b) sd p" "lprev (ordersAtPricePool b) (fst e) = Some (fst p)"
    and n: "level_ok (orderPool b) (ordersAtPricePool b) sd n" "lnext (ordersAtPricePool b) (fst e) = Some (fst n)"
  defines "text \<equiv> levelText det (view b p, view b e, view b n)" and "px \<equiv> price (hd (view b e))"
  shows "if \<not> chk then printer b det chk (Some (fst e)) s lastPx = Inr (text, lastPx)
    else if isSorted s lastPx px then printer b det chk (Some (fst e)) s lastPx = Inr (text, px)
    else \<exists>m. printer b det chk (Some (fst e)) s lastPx = Inl (Uncaught m)"
proof -
  obtain l os where eq: "e = (l, os)" by (cases e)
  obtain L where L: "ldata (ordersAtPricePool b) l = Some L" "level_price L = px" "order0 L = Some (hd os)"
    using view_price [OF e(1)] e(1) by (auto simp: level_ok_def eq px_def)
  obtain lv where lv: "rdL b (Some l) = Inr lv" "level_next lv = Some (fst n)" "level_prev lv = Some (fst p)"
    "level_price lv = px" "order0 lv = Some (hd os)"
    using rdL_view [OF L(1)] L p(2) n(2) by (metis eq fst_conv)
  obtain lp where lp: "rdL b (Some (fst p)) = Inr lp" "level_price lp = price (hd (view b p))"
    using view_price [OF p(1)] by (metis rdL_view)
  obtain ln where ln: "rdL b (Some (fst n)) = Inr ln" "level_price ln = price (hd (view b n))"
    using view_price [OF n(1)] by (metis rdL_view)
  note loops = level_prints [OF e(1) [unfolded eq]] e(2) [unfolded eq snd_conv]
  obtain t where "OrdersAtPrice_toString b lv = Inr t"
    using loops(3) loops(4) lv lp ln by (auto simp: OrdersAtPrice_toString_def levelPriceToStr_def)
  then show ?thesis using lv lp ln loops(1,2,4)
    by (auto simp: printer_def Let_def text_def px_def levelText_def eq simp del: bind_res_eq_Inr)
qed

fun checkFrom :: "Side \<Rightarrow> Price \<Rightarrow> Price list \<Rightarrow> bool" where
  "checkFrom sd lastPx [] \<longleftrightarrow> True"
| "checkFrom sd lastPx (px # pxs) \<longleftrightarrow> isSorted sd lastPx px \<and> checkFrom sd px pxs"

text \<open>One round of the loop.\<close>

lemma printLevels_step:
  fixes det :: bool
  assumes ok: "\<forall>d\<in>{p, e, n}. level_ok (orderPool b) (ordersAtPricePool b) sd d \<and> length (snd d) \<le> MAX_ORDER_IDS"
    and links: "lprev (ordersAtPricePool b) (fst e) = Some (fst p)" "lnext (ordersAtPricePool b) (fst e) = Some (fst n)"
    and rest: "if C then R = Inr T else \<exists>m. R = Inl (Uncaught m)" and "0 < rounds"
  defines "px \<equiv> price (hd (view b e))"
  assumes R: "\<not> (chk \<and> \<not> isSorted sd lastPx px) \<Longrightarrow> R = printLevels (rounds - 1) b det chk sd best
      (if Some (fst n) = best then None else Some (fst n)) (k + 1) (if chk then px else lastPx)"
  shows "if (chk \<longrightarrow> isSorted sd lastPx px) \<and> C
    then printLevels rounds b det chk sd best (Some (fst e)) k lastPx =
      Inr ((if sd = SELL then ''ASKS['' else ''BIDS['') @ to_string_nat k @ ''] => '' @
        levelText det (view b p, view b e, view b n) @ T)
    else \<exists>m. printLevels rounds b det chk sd best (Some (fst e)) k lastPx = Inl (Uncaught m)"
proof -
  have lv: "level_ok (orderPool b) (ordersAtPricePool b) sd d" if "d \<in> {p, e, n}" for d using ok that by blast
  have len: "length (snd e) \<le> MAX_ORDER_IDS" using ok by blast
  obtain L where "ldata (ordersAtPricePool b) (fst e) = Some L" using lv [of e] by (auto simp: level_ok_def)
  then obtain x where x: "rdL b (Some (fst e)) = Inr x" "level_next x = Some (fst n)" using links by (metis rdL_view)
  note pr = printer_level [OF lv len lv links(1) lv links(2), where det = det and chk = chk and s = sd and lastPx = lastPx, folded px_def]
  show ?thesis
  proof (cases "chk \<and> \<not> isSorted sd lastPx px")
    case True
    then obtain m where "printer b det chk (Some (fst e)) sd lastPx = Inl (Uncaught m)" using pr by auto
    then show ?thesis using True \<open>0 < rounds\<close> by (subst (1 2) printLevels.simps) simp
  next
    case False
    then have "printer b det chk (Some (fst e)) sd lastPx =
        Inr (levelText det (view b p, view b e, view b n), if chk then px else lastPx)" using pr by (auto split: if_splits)
    then have run: "printLevels rounds b det chk sd best (Some (fst e)) k lastPx = bind_res R (\<lambda>s.
        Inr ((if sd = SELL then ''ASKS['' else ''BIDS['') @ to_string_nat k @ ''] => '' @
          levelText det (view b p, view b e, view b n) @ s))"
      using \<open>0 < rounds\<close> x R [OF False] by (subst printLevels.simps) (simp del: bind_res_eq_Inr)
    show ?thesis using rest False unfolding run by (cases C) auto
  qed
qed

lemma printLevels_path:
  assumes "\<forall>d\<in>set (p # f # e # es). level_ok (orderPool b) (ordersAtPricePool b) sd d \<and> length (snd d) \<le> MAX_ORDER_IDS"
    and "path (lnext (ordersAtPricePool b)) (lprev (ordersAtPricePool b)) (fst e) (map fst es) (fst f)"
    and "fst f \<notin> fst ` set es" "lprev (ordersAtPricePool b) (fst e) = Some (fst p)" "length es < rounds"
  shows "if chk \<longrightarrow> checkFrom sd lastPx (map (\<lambda>d. price (hd (view b d))) (e # es))
    then printLevels rounds b det chk sd (Some (fst f)) (Some (fst e)) k lastPx =
      Inr (levelsText det sd k (neighbours (view b p) (map (view b) (e # es)) (view b f)))
    else \<exists>m. printLevels rounds b det chk sd (Some (fst f)) (Some (fst e)) k lastPx = Inl (Uncaught m)"
  using assms
proof (induction es arbitrary: p e rounds k lastPx)
  case Nil
  have "if True then Inr [] = (Inr [] :: string res) else \<exists>m. Inr [] = (Inl (Uncaught m) :: string res)" by simp
  from printLevels_step [OF _ Nil.prems(4) _ this, where n = f and sd = sd and rounds = rounds and chk = chk and lastPx = lastPx
      and det = det and best = "Some (fst f)" and k = k] Nil.prems
  show ?case by (auto simp: printLevels.simps [of "rounds - Suc 0"] split: if_splits)
next
  case (Cons d es)
  let ?l = "if chk then price (hd (view b e)) else lastPx"
  have ih: "if chk \<longrightarrow> checkFrom sd ?l (map (\<lambda>d. price (hd (view b d))) (d # es))
    then printLevels (rounds - 1) b det chk sd (Some (fst f)) (Some (fst d)) (k + 1) ?l =
      Inr (levelsText det sd (k + 1) (neighbours (view b e) (map (view b) (d # es)) (view b f)))
    else \<exists>m. printLevels (rounds - 1) b det chk sd (Some (fst f)) (Some (fst d)) (k + 1) ?l = Inl (Uncaught m)"
    using Cons.prems by (intro Cons.IH) auto
  from printLevels_step [OF _ Cons.prems(4) _ ih, where n = d and sd = sd and rounds = rounds and chk = chk and lastPx = lastPx
      and det = det and best = "Some (fst f)" and k = k] Cons.prems
  show ?case by (auto split: if_splits)
qed

section \<open>Sides and books\<close>

lemma isSorted_rank: "sd \<in> sides \<Longrightarrow> isSorted sd p q \<longleftrightarrow> rank sd p < rank sd q"
  by (auto simp: isSorted_def rank_def)

lemma checkFrom_rank:
  assumes "sd \<in> sides"
  shows "checkFrom sd p pxs \<longleftrightarrow> sorted_wrt (<) (map (rank sd) (p # pxs))"
  using isSorted_rank [OF assms] by (induction pxs arbitrary: p) (auto intro: less_trans)

lemma firstLastPrice_least:
  assumes "sd \<in> sides"
  shows "rank sd (firstLastPrice sd) \<le> rank sd p"
proof -
  have "- (2 ^ 63) \<le> sint p" "sint p \<le> 2 ^ 63 - 1" for p :: Price
    using sint_greater_eq [of p] sint_less [of p] by simp_all
  then show ?thesis using assms by (auto simp: rank_def firstLastPrice_def)
qed

lemma checkFrom_passesCheck:
  assumes "sd \<in> sides"
  shows "checkFrom sd (firstLastPrice sd) (map (\<lambda>os. price (hd os)) ls) \<longleftrightarrow> passesCheck sd ls"
proof -
  have "rank sd (firstLastPrice sd) < rank sd p \<longleftrightarrow> p \<noteq> firstLastPrice sd" for p
    using firstLastPrice_least [OF assms, of p] rank_inj [of sd "firstLastPrice sd" p] by auto
  then show ?thesis by (auto simp: checkFrom_rank [OF assms] passesCheck_def inOrder_def comp_def)
qed

lemma side_length:
  assumes "book_ok b Lv" "sd \<in> sides"
  shows "length (Lv sd) \<le> MAX_PRICE_LEVELS"
proof -
  have "distinct (map fst (Lv sd))" using book_okD(1) [OF assms] by (simp add: side_ok_def)
  moreover have "set (map fst (Lv sd)) \<subseteq> dom (ldata (ordersAtPricePool b))" using assms(2) book_okD(6) [OF assms(1)] by auto
  moreover have "dom (ldata (ordersAtPricePool b)) \<subseteq> {..<MAX_PRICE_LEVELS}"
    using book_okD(5) [OF assms(1)] by (auto simp: lpool_ok_def ldata_def live_def split: if_splits)
  ultimately show ?thesis
    by (metis card_lessThan card_mono distinct_card finite_lessThan length_map order_trans)
qed

lemma printSide_ok:
  assumes ok: "book_ok b Lv" and sd: "sd \<in> sides"
  shows "if chk \<longrightarrow> passesCheck sd (sideOrders b Lv sd)
    then printSide b det chk sd = Inr (sideText det sd (sideOrders b Lv sd))
    else \<exists>m. printSide b det chk sd = Inl (Uncaught m)"
proof -
  note side = book_okD(1) [OF ok sd]
  have view: "sideOrders b Lv sd = map (view b) (Lv sd)" by (simp add: sideOrders_def)
  show ?thesis
  proof (cases "Lv sd")
    case Nil
    then show ?thesis using side by (simp add: side_ok_def view printSide_def sideText_def passesCheck_def inOrder_def)
  next
    case (Cons e es)
    let ?p = "last (e # es)"
    have path: "path (lnext (ordersAtPricePool b)) (lprev (ordersAtPricePool b)) (fst e) (map fst es) (fst e)"
      and f: "fst e \<notin> fst ` set es" and best: "bestOrdersByPrice b sd = Some (fst e)"
      using side Cons by (auto simp: side_ok_def)
    have ok': "\<forall>d\<in>set (?p # e # e # es). level_ok (orderPool b) (ordersAtPricePool b) sd d \<and> length (snd d) \<le> MAX_ORDER_IDS"
    proof
      fix d assume "d \<in> set (?p # e # e # es)"
      then have "(fst d, snd d) \<in> set (Lv sd)" using Cons last_in_set [of "e # es"] by auto
      then show "level_ok (orderPool b) (ordersAtPricePool b) sd d \<and> length (snd d) \<le> MAX_ORDER_IDS"
        using book_level_ok [OF ok sd, of d] level_length [OF ok sd, of "fst d"] by simp
    qed
    have prv: "lprev (ordersAtPricePool b) (fst e) = Some (fst ?p)"
      using path_last [OF path] by (simp add: last_map)
    have len: "length es < MAX_PRICE_LEVELS + 1" using side_length [OF ok sd] Cons by simp
    have "printSide b det chk sd =
        printLevels (MAX_PRICE_LEVELS + 1) b det chk sd (Some (fst e)) (Some (fst e)) 0 (firstLastPrice sd)"
      by (simp add: printSide_def best Let_def)
    moreover have "sideText det sd (sideOrders b Lv sd) =
        levelsText det sd 0 (neighbours (view b ?p) (map (view b) (e # es)) (view b e))"
      unfolding sideText_def around_def view Cons by (simp add: last_map)
    moreover have "checkFrom sd (firstLastPrice sd) (map (\<lambda>d. price (hd (view b d))) (e # es)) \<longleftrightarrow>
        passesCheck sd (sideOrders b Lv sd)"
      using checkFrom_passesCheck [OF sd, of "sideOrders b Lv sd"] by (simp add: view Cons comp_def)
    ultimately show ?thesis
      using printLevels_path [OF ok' path f prv len, where chk = chk and det = det and k = 0 and lastPx = "firstLastPrice sd"]
      by metis
  qed
qed

lemma toString_ok:
  assumes "book_ok b Lv" "\<forall>sd\<in>sides. sideOrders b Lv sd = levels A sd"
  shows "if chk \<longrightarrow> (\<forall>sd\<in>sides. passesCheck sd (levels A sd))
    then toString b det chk = Inr (bookText (assignedTicker b) det A)
    else \<exists>m. toString b det chk = Inl (Uncaught m)"
  using printSide_ok [OF assms(1), of SELL chk det] printSide_ok [OF assms(1), of BUY chk det] assms(2)
  by (auto simp: toString_def bookText_def split: if_splits)

lemma represents_toString:
  assumes "represents (b, me) A"
  shows "if chk \<longrightarrow> (\<forall>sd\<in>sides. passesCheck sd (levels A sd))
    then toString b det chk = Inr (bookText (assignedTicker b) det A)
    else \<exists>m. toString b det chk = Inl (Uncaught m)"
  using assms toString_ok by (auto elim!: representsE)

lemma destroy_ok:
  assumes "represents (b, me) A"
  shows "if \<forall>sd\<in>sides. passesCheck sd (levels A sd)
    then \<exists>b'. OrderBook_destroy b = Inr (bookText (assignedTicker b) False A @ nl, b') \<and> asksByPrice b' = None \<and> bidsByPrice b' = None
    else \<exists>m. OrderBook_destroy b = Inl (Uncaught m)"
  using represents_toString [OF assms, of True False]
  by (auto simp: OrderBook_destroy_def split: if_splits simp del: bind_res_eq_Inr)

section \<open>Properties\<close>

text \<open>C13: \<open>OrderBook::toString\<close> on a book that represents an abstract book ends and prints exactly that book: every
  level of both sides in ring order with its price and its neighbours' prices, its total quantity and its number of orders and,
  if asked for, its orders with their neighbours. With the check it does so exactly if both sides are in price order and
  no level has the price \<open>lastPrice\<close> starts with, the lowest for asks and the highest for bids; otherwise it throws.\<close>

theorem toString_prints_book:
  assumes "represents (b, me) A"
  shows "if chk \<longrightarrow> (\<forall>sd\<in>sides. inOrder sd (levels A sd) \<and> (\<forall>os\<in>set (levels A sd). price (hd os) \<noteq> firstLastPrice sd))
    then toString b det chk = Inr (bookText (assignedTicker b) det A)
    else \<exists>m. toString b det chk = Inl (Uncaught m)"
  using represents_toString [OF assms] unfolding passesCheck_def .

text \<open>A book with a bid and an ask is printed; one with a single ask at the lowest price, in order as it is, throws.\<close>

theorem toString_prints_book_witness:
  "\<exists>b b1 me1 b2 me2 A. OrderBook_init 1 = Inr b \<and>
    runAll (runRequest strayZero 1) (b, newQueues) [AddRequest 1 1 SELL 101 10, AddRequest 1 2 BUY 99 5] = Inr (b1, me1) \<and>
    map (map qty) (levels A SELL) = [[10]] \<and> map (map qty) (levels A BUY) = [[5]] \<and>
    toString b1 True True = Inr (bookText (assignedTicker b1) True A) \<and>
    runAll (runRequest strayZero 1) (b, newQueues) [AddRequest 1 1 SELL (firstLastPrice SELL) 10] = Inr (b2, me2) \<and>
    (\<exists>m. toString b2 True True = Inl (Uncaught m))"
proof -
  let ?rs = "[AddRequest 1 1 SELL 101 10, AddRequest 1 2 BUY 99 5]" and ?qs = "[AddRequest 1 1 SELL (firstLastPrice SELL) 10]"
  define A1 where "A1 = foldl (specRequest 1) emptyBook ?rs"
  define A2 where "A2 = foldl (specRequest 1) emptyBook ?qs"
  have ok: "allowed acceptable (specRequest 1) emptyBook ?rs" "allowed acceptable (specRequest 1) emptyBook ?qs" by (simp_all add: spec_eval)
  obtain b where b: "OrderBook_init 1 = Inr b" "represents (b, newQueues) emptyBook" using init_represents [OF newQueues_ok] by blast
  obtain b1 me1 where b1: "runAll (runRequest strayZero 1) (b, newQueues) ?rs = Inr (b1, me1)" "represents (b1, me1) A1"
    using book.runs [OF b(2) ok(1), of "\<lambda>_ _. 0"] unfolding A1_def by (metis surj_pair)
  obtain b2 me2 where b2: "runAll (runRequest strayZero 1) (b, newQueues) ?qs = Inr (b2, me2)" "represents (b2, me2) A2"
    using book.runs [OF b(2) ok(2), of "\<lambda>_ _. 0"] unfolding A2_def by (metis surj_pair)
  have "\<forall>sd\<in>sides. inOrder sd (levels A1 sd) \<and> (\<forall>os\<in>set (levels A1 sd). price (hd os) \<noteq> firstLastPrice sd)"
    by (simp add: A1_def spec_eval firstLastPrice_def)
  with toString_prints_book [OF b1(2), of True True] have 1: "toString b1 True True = Inr (bookText (assignedTicker b1) True A1)"
    by (simp only: if_True simp_thms)
  have "\<exists>os\<in>set (levels A2 SELL). price (hd os) = firstLastPrice SELL" by (simp add: A2_def spec_eval)
  then have "\<not> (\<forall>sd\<in>sides. inOrder sd (levels A2 sd) \<and> (\<forall>os\<in>set (levels A2 sd). price (hd os) \<noteq> firstLastPrice sd))" by auto
  with toString_prints_book [OF b2(2), of True True] have 2: "\<exists>m. toString b2 True True = Inl (Uncaught m)"
    by (simp only: if_False simp_thms)
  have "map (map qty) (levels A1 SELL) = [[10]]" "map (map qty) (levels A1 BUY) = [[5]]" by (simp_all add: A1_def spec_eval)
  with b(1) b1(1) b2(1) 1 2 show ?thesis
    by (intro exI [of _ b] exI [of _ b1] exI [of _ me1] exI [of _ b2] exI [of _ me2] exI [of _ A1] conjI)
qed

text \<open>Three valid asks end the process when their book is destroyed: the third one is put at the wrong place, and the
  exception of the check leaves the destructor. With the first two the destructor completes.\<close>

theorem misplaced_level_kills_destructor:
  "\<exists>b b2 me2 b3 me3 m. OrderBook_init 1 = Inr b \<and>
    runAll (runRequest (\<lambda>b k. Some (f b k)) 1) (b, newQueues) [AddRequest 1 1 SELL 100 10, AddRequest 1 2 SELL 101 10] = Inr (b2, me2) \<and>
    (\<exists>s b'. OrderBook_destroy b2 = Inr (s, b') \<and> asksByPrice b' = None) \<and>
    runAll (runRequest (\<lambda>b k. Some (f b k)) 1) (b2, me2) [AddRequest 1 3 SELL 103 10] = Inr (b3, me3) \<and>
    OrderBook_destroy b3 = Inl (Uncaught m)"
proof -
  let ?run = "runAll (runRequest (\<lambda>b k. Some (f b k)) 1)"
  let ?rs = "[AddRequest 1 1 SELL 100 10, AddRequest 1 2 SELL 101 10]" and ?qs = "[AddRequest 1 3 SELL 103 10]"
  let ?A = "foldl (specRequest 1) emptyBook ?rs"
  have "allowed acceptable (specRequest 1) emptyBook ?rs" by (simp add: spec_eval)
  from init_and_run [OF newQueues_ok this, of f] obtain b b2 me2 where b: "OrderBook_init 1 = Inr b"
    "?run (b, newQueues) ?rs = Inr (b2, me2)" "represents (b2, me2) ?A" by (metis surj_pair)
  have "allowed acceptable (specRequest 1) ?A ?qs" by (simp add: spec_eval)
  from book.runs [OF b(3) this, of f] obtain b3 me3 where b3: "?run (b2, me2) ?qs = Inr (b3, me3)"
    "represents (b3, me3) (foldl (specRequest 1) ?A ?qs)" by (metis surj_pair)
  have "\<forall>sd\<in>sides. passesCheck sd (levels ?A sd)"
    by (simp add: spec_eval passesCheck_def firstLastPrice_def)
  moreover have "\<not> passesCheck SELL (levels (foldl (specRequest 1) ?A ?qs) SELL)"
    by (simp add: spec_eval passesCheck_def)
  ultimately have "\<exists>s b'. OrderBook_destroy b2 = Inr (s, b') \<and> asksByPrice b' = None" "\<exists>m. OrderBook_destroy b3 = Inl (Uncaught m)"
    using destroy_ok [OF b(3)] destroy_ok [OF b3(2)] by (auto split: if_splits)
  with b(1,2) b3(1) show ?thesis by blast
qed

end
