(* ===== verification/Book_Feed.thy ===== *)
theory Book_Feed
  imports Book_Print
begin

text \<open>
  The market data a book publishes. The updates of a run are those of the specification, and a reader
  who applies them one after the other, knowing nothing else, holds the same orders as the book.
\<close>

section \<open>What a run publishes\<close>

fun feed :: "TickerID \<Rightarrow> AbstractBook \<Rightarrow> request list \<Rightarrow> OMEMarketUpdate list" where
  "feed t A [] = []"
| "feed t A (r # rs) = specUpdates t A r @ feed t (specRequest t A r) rs"

section \<open>A reader of the feed\<close>

type_synonym entry = "Side \<times> Price \<times> Qty \<times> Priority"

definition entryOf :: "Order \<Rightarrow> entry" where
  "entryOf x = (side x, price x, qty x, priority x)"

definition applyUpdate :: "(OrderID \<rightharpoonup> entry) \<Rightarrow> OMEMarketUpdate \<Rightarrow> (OrderID \<rightharpoonup> entry)" where
  "applyUpdate R u = (case mu_type u of
     MU_ADD \<Rightarrow> R(mu_orderId u \<mapsto> (mu_side u, mu_price u, mu_qty u, mu_priority u))
   | MU_MODIFY \<Rightarrow> R(mu_orderId u \<mapsto> (mu_side u, mu_price u, mu_qty u, mu_priority u))
   | MU_CANCEL \<Rightarrow> R(mu_orderId u := None)
   | MU_CLEAR \<Rightarrow> Map.empty
   | _ \<Rightarrow> R)"

abbreviation replay :: "(OrderID \<rightharpoonup> entry) \<Rightarrow> OMEMarketUpdate list \<Rightarrow> (OrderID \<rightharpoonup> entry)" where
  "replay R us \<equiv> foldl applyUpdate R us"

abbreviation entries :: "Order list \<Rightarrow> (OrderID \<times> entry) list" where
  "entries xs \<equiv> map (\<lambda>x. (marketOrderId x, entryOf x)) xs"

definition bookMap :: "AbstractBook \<Rightarrow> (OrderID \<rightharpoonup> entry)" where
  "bookMap A = map_of (entries (allOrders A))"

text \<open>Taking an order completely removes it, whatever lies in between.\<close>

lemma replay_fill:
  "replay R (fillUpdates t sd q x) =
     R(marketOrderId x := (if qty (afterFill q x) = 0 then None else Some (entryOf (afterFill q x))))"
  by (simp add: fillUpdates_def applyUpdate_def tradeUpdate_def filledUpdate_def modifyUpdate_def entryOf_def afterFill_def)

lemma replay_fills:
  "q \<noteq> 0 \<Longrightarrow> qty x \<noteq> 0 \<Longrightarrow> replay R (concat (map (fillUpdates t sd q) (fills q x))) = R(marketOrderId x := None)"
proof (induction q x arbitrary: R rule: fills.induct)
  case (1 q x)
  let ?y = "afterFill q x"
  have f: "fills q x = x # fills q ?y" using 1(2,3) by (simp add: fills.simps [of q x])
  show ?case
  proof (cases "qty ?y = 0")
    case True
    then have "fills q ?y = []" by (simp add: fills.simps)
    with f True show ?thesis by (simp add: replay_fill)
  next
    case False
    have "marketOrderId ?y = marketOrderId x" by (simp add: afterFill_def)
    with f False 1 show ?thesis by (auto simp: replay_fill fun_eq_iff)
  qed
qed

lemma replay_sweep:
  assumes "q \<noteq> 0" "\<forall>x\<in>set xs. qty x \<noteq> 0"
  shows "replay R (sweepUpdates t sd q xs) = (\<lambda>m. if m \<in> marketOrderId ` set xs then None else R m)"
  using assms(2)
proof (induction xs arbitrary: R)
  case (Cons x xs)
  have "replay R (sweepUpdates t sd q (x # xs)) = replay (R(marketOrderId x := None)) (sweepUpdates t sd q xs)"
    using replay_fills [OF assms(1), of x R] Cons.prems by (simp add: sweepUpdates_def sweepFills_def)
  then show ?case using Cons by (auto simp: fun_eq_iff)
qed (simp add: sweepUpdates_def sweepFills_def)

section \<open>Identifiers\<close>

text \<open>Market identifiers are used once, as long as their counter does not wrap around.\<close>

definition idsOk :: "AbstractBook \<Rightarrow> bool" where
  "idsOk A \<longleftrightarrow> distinct (map marketOrderId (allOrders A)) \<and>
     (\<forall>x\<in>set (allOrders A). unat (marketOrderId x) < unat (nextId A))"

lemma bookMap_perm:
  assumes "mset (allOrders A) = mset xs" "distinct (map marketOrderId (allOrders A))"
  shows "bookMap A = map_of (entries xs)" "distinct (map marketOrderId xs)"
proof -
  have "mset (map marketOrderId (allOrders A)) = mset (map marketOrderId xs)" using assms(1) by simp
  then show d: "distinct (map marketOrderId xs)" using assms(2) mset_eq_imp_distinct_iff by blast
  have "set (entries (allOrders A)) = set (entries xs)" using mset_eq_setD [OF assms(1)] by simp
  then show "bookMap A = map_of (entries xs)"
    using assms(2) d unfolding bookMap_def by (subst map_of_inject_set) (simp_all add: comp_def)
qed

lemma map_of_skip:
  "distinct (map fst (xs @ ys)) \<Longrightarrow> (\<lambda>m. if m \<in> fst ` set xs then None else map_of (xs @ ys) m) = map_of ys"
proof
  fix m assume d: "distinct (map fst (xs @ ys))"
  show "(if m \<in> fst ` set xs then None else map_of (xs @ ys) m) = map_of ys m"
  proof (cases "m \<in> fst ` set xs")
    case True
    with d have "m \<notin> fst ` set ys" by auto
    then have "map_of ys m = None" by (simp add: map_of_eq_None_iff)
    with True show ?thesis by simp
  next
    case False
    then have "map_of xs m = None" by (simp add: map_of_eq_None_iff)
    with False show ?thesis by (simp add: map_add_def)
  qed
qed

section \<open>The orders after a request\<close>

lemma mset_enterOrder:
  assumes "distinct (map (\<lambda>os. price (hd os)) ls)"
  shows "mset (concat (enterOrder x ls)) = add_mset x (mset (concat ls))"
proof (cases "\<exists>os\<in>set ls. atPrice (price x) os")
  case True
  let ?f = "\<lambda>os. if atPrice (price x) os then os @ [x] else os"
  obtain us os vs where ls: "ls = us @ os # vs" "atPrice (price x) os" using True by (meson split_list)
  have "?f z = z" if "z \<in> set us \<union> set vs" for z
    using that assms ls by (auto simp: atPrice_def image_iff)
  then have "map ?f us = us" "map ?f vs = vs" by (auto intro!: map_idI)
  then have "enterOrder x ls = us @ (os @ [x]) # vs" unfolding enterOrder_def if_P [OF True] using ls by simp
  then show ?thesis by (simp add: ls)
next
  case False
  then show ?thesis
    using placeLevel_splits [of ls "\<lambda>os. worsePrice (side x) (price x) (price (hd os))" "[x]"] by (auto simp: enterOrder_def)
qed

lemma represents_prices:
  assumes "represents (b, me) A" "sd \<in> sides"
  shows "distinct (map (\<lambda>os. price (hd os)) (levels A sd))"
proof -
  from assms(1) obtain Lv where ok: "book_ok b Lv" and views: "\<forall>sd\<in>sides. sideOrders b Lv sd = levels A sd" by (rule representsE)
  have v: "map (\<lambda>os. price (hd os)) (levels A sd) = map (\<lambda>e. price (hd (view b e))) (Lv sd)"
    using bspec [OF views assms(2), symmetric] by (simp add: sideOrders_def)
  have d: "distinct (map fst (Lv sd))" using book_okD(1) [OF ok assms(2)] by (simp add: side_ok_def)
  have "e = e'" if e: "e \<in> set (Lv sd)" "e' \<in> set (Lv sd)" "price (hd (view b e)) = price (hd (view b e'))" for e e'
  proof -
    obtain L where L: "ldata (lvls b) (fst e) = Some L" "level_price L = price (hd (view b e))"
      using view_price [OF book_level_ok [OF ok assms(2) e(1)]] by blast
    obtain L' where L': "ldata (lvls b) (fst e') = Some L'" "level_price L' = price (hd (view b e'))"
      using view_price [OF book_level_ok [OF ok assms(2) e(2)]] by blast
    have "fst e = fst e'" using slots_inj [OF book_okD(2) [OF ok] L(1) L'(1)] L(2) L'(2) e(3) by simp
    with d e(1,2) show ?thesis by (metis distinct_map_fst_same prod.collapse)
  qed
  with d show ?thesis unfolding v by (auto simp: distinct_map inj_on_def)
qed

lemma represents_orders:
  assumes "represents (b, me) A"
  shows "\<forall>x\<in>set (allOrders A). qty x \<noteq> 0"
    and "x \<in> set (allOrders A) \<Longrightarrow> y \<in> set (allOrders A) \<Longrightarrow> isOrder c k x \<Longrightarrow> isOrder c k y \<Longrightarrow> x = y"
proof -
  from assms obtain Lv where ok: "book_ok b Lv" and pos: "allPositive b" and all: "bookOrders b Lv = allOrders A" by (rule representsE)
  have ran: "set (allOrders A) = ran (odata (ords b))" using set_bookOrders [OF ok] all by simp
  show "\<forall>x\<in>set (allOrders A). qty x \<noteq> 0" using pos unfolding ran by (auto simp: allPositive_def ran_def)
  assume "x \<in> set (allOrders A)" "y \<in> set (allOrders A)" "isOrder c k x" "isOrder c k y"
  then obtain i j where "odata (ords b) i = Some x" "odata (ords b) j = Some y" "clientId y = clientId x"
    "clientOrderId y = clientOrderId x" unfolding ran by (auto simp: ran_def isOrder_def)
  with order_key [OF ok] show "x = y" by (metis option.inject)
qed

lemma mset_by_side:
  assumes "sd \<in> sides"
  shows "mset (allOrders A) = mset (concat (levels A sd)) + mset (concat (levels A (opposite sd)))"
  using assms by (auto simp: allOrders_def opposite_def)

lemma orders_after_add:
  fixes t :: TickerID
  assumes "represents (b, me) A" "acceptable A (AddRequest c k sd px q)" "q \<noteq> 0"
  defines "x \<equiv> newOrder t c k (nextId A) sd px q (nextPriority px (levels A sd))"
    and "kept \<equiv> concat (levels A sd) @ concat (dropWhile (crossing sd px) (levels A (opposite sd)))"
  shows "mset (allOrders A) = mset (crossed A sd px @ kept)"
    and "mset (allOrders (specRequest t A (AddRequest c k sd px q))) = mset (x # kept)"
proof -
  have sd: "sd \<in> sides" using assms(2,3) by simp
  have "concat (levels A (opposite sd)) = crossed A sd px @ concat (dropWhile (crossing sd px) (levels A (opposite sd)))"
    by (metis concat_append takeWhile_dropWhile_id)
  then show "mset (allOrders A) = mset (crossed A sd px @ kept)" by (simp add: mset_by_side [OF sd] kept_def)
  let ?A = "specRequest t A (AddRequest c k sd px q)"
  have "levels ?A sd = enterOrder x (levels A sd)" "levels ?A (opposite sd) = dropWhile (crossing sd px) (levels A (opposite sd))"
    using assms(3) opposite_sides(2) [OF sd] by (auto simp: x_def)
  then show "mset (allOrders ?A) = mset (x # kept)"
    using mset_enterOrder [OF represents_prices [OF assms(1) sd], of x] by (simp only: mset_by_side [OF sd] kept_def) simp
qed

lemma orders_after_cancel: "allOrders (specRequest t A (CancelRequest c k)) = filter (\<lambda>x. \<not> isOrder c k x) (allOrders A)"
proof -
  have "concat (dropOrder c k ls) = filter (\<lambda>x. \<not> isOrder c k x) (concat ls)" for ls
    by (induction ls) (simp_all add: dropOrder_def)
  then show ?thesis by (simp add: allOrders_def)
qed

section \<open>The feed keeps up with the book\<close>

lemma add_feed:
  fixes t :: TickerID
  assumes rep: "represents (b, me) A" and acc: "acceptable A (AddRequest c k sd px q)" and q: "q \<noteq> 0"
    and ids: "idsOk A" and wrap: "unat (nextId A) + 1 < 2 ^ 64"
  defines "A' \<equiv> specRequest t A (AddRequest c k sd px q)"
  shows "idsOk A' \<and> replay (bookMap A) (specUpdates t A (AddRequest c k sd px q)) = bookMap A'"
proof -
  let ?x = "newOrder t c k (nextId A) sd px q (nextPriority px (levels A sd))"
  let ?kept = "concat (levels A sd) @ concat (dropWhile (crossing sd px) (levels A (opposite sd)))"
  note m = orders_after_add [OF rep acc q]
  note before = bookMap_perm [OF m(1)]
  have dist: "distinct (map marketOrderId (allOrders A))" using ids by (simp add: idsOk_def)
  have set: "set (allOrders A) = set (crossed A sd px) \<union> set ?kept" using mset_eq_setD [OF m(1)] by simp
  have nxt: "unat (nextId A + 1) = unat (nextId A) + 1" using wrap by (simp add: unat_word_ariths)
  have lt: "unat (marketOrderId y) < unat (nextId A)" if "y \<in> set (allOrders A)" for y using ids that by (simp add: idsOk_def)
  have idx: "marketOrderId ?x = nextId A" "entryOf ?x = (sd, px, q, nextPriority px (levels A sd))"
    by (simp_all add: newOrder_def entryOf_def)
  have fresh: "nextId A \<notin> marketOrderId ` set ?kept"
  proof
    assume "nextId A \<in> marketOrderId ` set ?kept"
    then obtain y where y: "y \<in> set ?kept" "marketOrderId y = nextId A" by (metis imageE)
    then have "y \<in> set (allOrders A)" unfolding set by simp
    from lt [OF this] y(2) show False by simp
  qed
  have dk: "distinct (map marketOrderId (?x # ?kept))" using before(2) [OF dist] fresh idx(1) by (simp add: image_Un)
  have dist': "distinct (map marketOrderId (allOrders A'))"
    using dk mset_eq_imp_distinct_iff [of "map marketOrderId (allOrders A')" "map marketOrderId (?x # ?kept)"] m(2) [of t]
    by (simp add: A'_def del: specRequest.simps)
  have set': "set (allOrders A') = insert ?x (set ?kept)" using mset_eq_setD [OF m(2) [of t]] by (simp add: A'_def del: specRequest.simps)
  have "\<forall>y\<in>set (allOrders A'). unat (marketOrderId y) < unat (nextId A')"
    using lt set idx(1) nxt q unfolding set' by (auto simp: A'_def less_Suc_eq)
  then have "idsOk A'" using dist' by (simp add: idsOk_def)
  moreover have "replay (bookMap A) (specUpdates t A (AddRequest c k sd px q)) = bookMap A'"
  proof -
    have pos: "\<forall>y\<in>set (crossed A sd px). qty y \<noteq> 0" using represents_orders(1) [OF rep] set by auto
    have "replay (bookMap A) (sweepUpdates t sd q (crossed A sd px)) = map_of (entries ?kept)"
      using map_of_skip [of "entries (crossed A sd px)" "entries ?kept"] before(2) [OF dist]
      unfolding replay_sweep [OF q pos] before(1) [OF dist] map_append by (simp add: comp_def image_image)
    moreover have "bookMap A' = (map_of (entries ?kept))(nextId A \<mapsto> entryOf ?x)"
      using bookMap_perm(1) [of A' "?x # ?kept"] m(2) [of t] dist' idx(1) by (simp add: A'_def)
    ultimately show ?thesis using q idx(2) by (simp add: applyUpdate_def addedUpdate_def)
  qed
  ultimately show ?thesis by blast
qed

lemma cancel_feed:
  fixes t :: TickerID and c k
  assumes rep: "represents (b, me) A" and ids: "idsOk A"
  defines "A' \<equiv> specRequest t A (CancelRequest c k)"
  shows "idsOk A' \<and> replay (bookMap A) (specUpdates t A (CancelRequest c k)) = bookMap A'"
proof -
  let ?keep = "\<lambda>x. \<not> isOrder c k x"
  have all: "allOrders A' = filter ?keep (allOrders A)" unfolding A'_def by (rule orders_after_cancel)
  have dist: "distinct (map marketOrderId (allOrders A))" using ids by (simp add: idsOk_def)
  have "nextId A' = nextId A" by (simp add: A'_def)
  then have "idsOk A'" using ids all by (simp add: idsOk_def distinct_map_filter)
  moreover have "replay (bookMap A) (specUpdates t A (CancelRequest c k)) = bookMap A'"
  proof (cases "find (isOrder c k) (allOrders A)")
    case None
    then have "filter ?keep (allOrders A) = allOrders A" by (auto simp: find_None_iff filter_id_conv)
    with None show ?thesis by (simp add: bookMap_def all)
  next
    case (Some x)
    then have x: "x \<in> set (allOrders A)" "isOrder c k x" by (auto simp: find_Some_iff)
    have only: "?keep y \<longleftrightarrow> marketOrderId y \<noteq> marketOrderId x" if "y \<in> set (allOrders A)" for y
      using represents_orders(2) [OF rep that x(1) _ x(2)] x dist that by (auto simp: distinct_map inj_on_def)
    have "map_of (entries (filter ?keep xs)) = (map_of (entries xs))(marketOrderId x := None)" if "set xs \<subseteq> set (allOrders A)" for xs
      using that only by (induction xs) (auto simp: fun_eq_iff)
    with Some show ?thesis by (simp add: bookMap_def all applyUpdate_def cancelUpdate_def)
  qed
  ultimately show ?thesis by blast
qed

lemma request_feed:
  assumes "represents (b, me) A" "acceptable A r" "idsOk A" "unat (nextId A) + 1 < 2 ^ 64"
  shows "idsOk (specRequest t A r) \<and> unat (nextId (specRequest t A r)) \<le> unat (nextId A) + 1 \<and>
    replay (bookMap A) (specUpdates t A r) = bookMap (specRequest t A r)"
proof -
  have nxt: "unat (nextId A + 1) = unat (nextId A) + 1" using assms(4) by (simp add: unat_word_ariths)
  show ?thesis
  proof (cases r)
    case (AddRequest c k sd px q)
    show ?thesis
    proof (cases "q = 0")
      case True
      have "allOrders (A\<lparr>nextId := nextId A + 1\<rparr>) = allOrders A" by (simp add: allOrders_def)
      with True AddRequest assms(3) nxt show ?thesis by (auto simp: idsOk_def bookMap_def)
    next
      case False
      from add_feed [OF assms(1) assms(2) [unfolded AddRequest] False assms(3,4), of t] False nxt show ?thesis
        unfolding AddRequest by simp
    qed
  next
    case (CancelRequest c k)
    with cancel_feed [OF assms(1,3), of t c k] show ?thesis by simp
  qed
qed

lemma run_feed:
  assumes "represents (b, me) A" "allowed acceptable (specRequest t) A rs" "idsOk A" "unat (nextId A) + length rs < 2 ^ 64"
  shows "\<exists>b' me' ss. runAll (runRequest (\<lambda>b k. Some (f b k)) t) (b, me) rs = Inr (b', me') \<and>
    represents (b', me') (foldl (specRequest t) A rs) \<and> emits me ss (feed t A rs) me' \<and>
    replay (bookMap A) (feed t A rs) = bookMap (foldl (specRequest t) A rs)"
  using assms
proof (induction rs arbitrary: b me A)
  case Nil
  then show ?case using emits_refl by (auto simp: represents_def)
next
  case (Cons r rs)
  have acc: "acceptable A r" using Cons.prems(2) by simp
  obtain b1 me1 ss where 1: "runRequest (\<lambda>b k. Some (f b k)) t (b, me) r = Inr (b1, me1)" "represents (b1, me1) (specRequest t A r)"
    "emits me ss (specUpdates t A r) me1" using request_simulates [OF Cons.prems(1) acc] by blast
  note s = request_feed [OF Cons.prems(1) acc Cons.prems(3), of t]
  have w: "unat (nextId A) + 1 < 2 ^ 64" "unat (nextId (specRequest t A r)) + length rs < 2 ^ 64" using Cons.prems(4) s by simp_all
  obtain b' me' ss' where 2: "runAll (runRequest (\<lambda>b k. Some (f b k)) t) (b1, me1) rs = Inr (b', me')"
    "represents (b', me') (foldl (specRequest t) (specRequest t A r) rs)" "emits me1 ss' (feed t (specRequest t A r) rs) me'"
    "replay (bookMap (specRequest t A r)) (feed t (specRequest t A r) rs) = bookMap (foldl (specRequest t) (specRequest t A r) rs)"
    using Cons.IH [OF 1(2) _ _ w(2)] Cons.prems(2) s w(1) by auto
  from emits_trans [OF 1(3) 2(3)] 1(1) 2 s w(1) show ?case by auto
qed

section \<open>Properties\<close>

text \<open>C3: the market data is complete as far as its queue has room. For a run of acceptable requests, fewer than the identifiers
  there are, on a new book with an empty queue of updates, and if every read outside \<open>qtyRemains\<close> gives some value, the updates
  published are those of the specification, in order, and the queue keeps the first of them, up to its capacity; what does not fit is
  lost. A reader who starts with nothing and applies all of them (an addition or modification enters the order's data under its
  identifier, a cancellation removes it, a trade changes nothing) ends with the orders of the book: the same identifiers with the
  same side, price, quantity and priority. So does a reader of the queue if no update was lost.\<close>

theorem feed_reconstructs_book:
  assumes "me_ok me" "contents (txMarketUpdates me) = []" "allowed acceptable (specRequest t) emptyBook rs"
    and "length rs + 1 < 2 ^ 64"
  defines "room \<equiv> vsize (queue (txMarketUpdates me))"
  shows "\<exists>b s. OrderBook_init t = Inr b \<and> runAll (runRequest (\<lambda>b k. Some (f b k)) t) (b, me) rs = Inr s \<and>
    represents s (foldl (specRequest t) emptyBook rs) \<and> contents (txMarketUpdates (snd s)) = take room (feed t emptyBook rs) \<and>
    replay Map.empty (feed t emptyBook rs) = bookMap (foldl (specRequest t) emptyBook rs) \<and>
    (length (feed t emptyBook rs) \<le> room \<longrightarrow>
      replay Map.empty (contents (txMarketUpdates (snd s))) = bookMap (foldl (specRequest t) emptyBook rs))"
proof -
  obtain b where b: "OrderBook_init t = Inr b" "represents (b, me) emptyBook" using init_represents [OF assms(1)] by blast
  have e: "idsOk emptyBook" "bookMap emptyBook = Map.empty" "unat (nextId emptyBook) = 1"
    by (simp_all add: idsOk_def bookMap_def emptyBook_def allOrders_def)
  from run_feed [OF b(2) assms(3) e(1), of f] assms(4) e(2,3) obtain b' me' ss where
    r: "runAll (runRequest (\<lambda>b k. Some (f b k)) t) (b, me) rs = Inr (b', me')"
    "represents (b', me') (foldl (specRequest t) emptyBook rs)" "emits me ss (feed t emptyBook rs) me'"
    "replay Map.empty (feed t emptyBook rs) = bookMap (foldl (specRequest t) emptyBook rs)" by auto
  have "contents (txMarketUpdates me') = take room (feed t emptyBook rs)" using r(3) assms(2) by (simp add: emits_def room_def)
  with b(1) r(1,2,4) show ?thesis by (intro exI [of _ b] exI [of _ "(b', me')"]) auto
qed

theorem feed_reconstructs_book_witness:
  "\<exists>b s. OrderBook_init 1 = Inr b \<and>
    runAll (runRequest strayZero 1) (b, newQueues)
      [AddRequest 1 1 SELL 100 10, AddRequest 2 1 BUY 100 4, AddRequest 3 1 SELL 105 7, CancelRequest 2 1] = Inr s \<and>
    replay Map.empty (contents (txMarketUpdates (snd s))) = [3 \<mapsto> (SELL, 105, 7, 1)]"
proof -
  let ?rs = "[AddRequest 1 1 SELL 100 10, AddRequest 2 1 BUY 100 4, AddRequest 3 1 SELL 105 7, CancelRequest 2 1]"
  have "allowed acceptable (specRequest 1) emptyBook ?rs" by (simp add: spec_eval)
  moreover have "length (feed 1 emptyBook ?rs) = 10"
    by (simp add: spec_eval sweepUpdates_def sweepFills_def fills.simps fillUpdates_def afterFill_def)
  moreover have "contents (txMarketUpdates newQueues) = []" "10 \<le> vsize (queue (txMarketUpdates newQueues))"
    by (simp_all add: newQueues_def limits)
  ultimately obtain b s where "OrderBook_init 1 = Inr b" "runAll (runRequest strayZero 1) (b, newQueues) ?rs = Inr s"
    "replay Map.empty (contents (txMarketUpdates (snd s))) = bookMap (foldl (specRequest 1) emptyBook ?rs)"
    using feed_reconstructs_book [OF newQueues_ok, of 1 ?rs "\<lambda>_ _. 0"] by auto
  moreover have "bookMap (foldl (specRequest 1) emptyBook ?rs) = [3 \<mapsto> (SELL, 105, 7, 1)]"
    by (simp add: spec_eval bookMap_def entryOf_def)
  ultimately show ?thesis by (intro exI [of _ b] exI [of _ s]) simp
qed

end
