(* ===== verification/LF_Queue_Concurrent.thy ===== *)
theory LF_Queue_Concurrent
  imports LF_Queue
begin

text \<open>
  The queue of src/src/lib/lock_free_queue.h under interleaving: every access to a shared variable in
  \<open>push\<close> and \<open>pop\<close> is a step of its own. Any number of producers may run, one consumer
  runs. The steps are sequentially consistent; the relaxed memory orders of the code, which allow more,
  are not modelled. Two histories record what was accepted and what was taken.
\<close>

section \<open>Steps\<close>

text \<open>Where a producer is in \<open>push(value)\<close>, and the consumer in \<open>pop()\<close>.\<close>

datatype 'a producer =
    PIdle
  | PCheck 'a
  | PStore 'a nat
  | PIndex 'a
  | PCount 'a

datatype 'a consumer =
    CIdle
  | CCheck
  | CLoad nat
  | CAssert 'a
  | CIndex 'a
  | CCount 'a
  | CFailed

record 'a SharedQueue =
  shared :: "'a LFQueue"
  producers :: "nat \<Rightarrow> 'a producer"
  consumer :: "'a consumer"
  accepted :: "'a list"
  taken :: "'a list"

definition SharedQueue_init :: "'a \<Rightarrow> nat \<Rightarrow> 'a SharedQueue" where
  "SharedQueue_init d n =
     \<lparr>shared = LFQueue_init d n, producers = (\<lambda>_. PIdle), consumer = CIdle, accepted = [], taken = []\<rparr>"

abbreviation cap :: "'a SharedQueue \<Rightarrow> nat" where
  "cap s \<equiv> vsize (queue (shared s))"

definition setProducer :: "'a SharedQueue \<Rightarrow> nat \<Rightarrow> 'a producer \<Rightarrow> 'a SharedQueue" where
  "setProducer s i p = s\<lparr>producers := (producers s)(i := p)\<rparr>"

inductive producerStep :: "nat \<Rightarrow> 'a SharedQueue \<Rightarrow> 'a SharedQueue \<Rightarrow> bool" for i where
  begin_push: "producers s i = PIdle \<Longrightarrow> producerStep i s (setProducer s i (PCheck v))"
| room: "producers s i = PCheck v \<Longrightarrow> getNextToWrite (shared s) = Some slot \<Longrightarrow>
    producerStep i s (setProducer s i (PStore v slot))"
| full: "producers s i = PCheck v \<Longrightarrow> getNextToWrite (shared s) = None \<Longrightarrow>
    producerStep i s (setProducer s i PIdle)"
| store: "producers s i = PStore v slot \<Longrightarrow> vset (queue (shared s)) slot v = Inr q \<Longrightarrow>
    producerStep i s (setProducer (s\<lparr>shared := (shared s)\<lparr>queue := q\<rparr>\<rparr>) i (PIndex v))"
| index: "producers s i = PIndex v \<Longrightarrow>
    producerStep i s (setProducer (s\<lparr>shared := (shared s)\<lparr>nextIndexToWrite := (nextIndexToWrite (shared s) + 1) mod cap s\<rparr>\<rparr>)
      i (PCount v))"
| count: "producers s i = PCount v \<Longrightarrow>
    producerStep i s (setProducer (s\<lparr>shared := (shared s)\<lparr>numElements := numElements (shared s) + 1\<rparr>,
      accepted := accepted s @ [v]\<rparr>) i PIdle)"

inductive consumerStep :: "'a SharedQueue \<Rightarrow> 'a SharedQueue \<Rightarrow> bool" where
  begin_pop: "consumer s = CIdle \<Longrightarrow> consumerStep s (s\<lparr>consumer := CCheck\<rparr>)"
| some: "consumer s = CCheck \<Longrightarrow> getNextToRead (shared s) = Some slot \<Longrightarrow> consumerStep s (s\<lparr>consumer := CLoad slot\<rparr>)"
| none: "consumer s = CCheck \<Longrightarrow> getNextToRead (shared s) = None \<Longrightarrow> consumerStep s (s\<lparr>consumer := CIdle\<rparr>)"
| load: "consumer s = CLoad slot \<Longrightarrow> vget (queue (shared s)) slot = Inr v \<Longrightarrow> consumerStep s (s\<lparr>consumer := CAssert v\<rparr>)"
| assert_ok: "consumer s = CAssert v \<Longrightarrow> numElements (shared s) > 0 \<Longrightarrow> consumerStep s (s\<lparr>consumer := CIndex v\<rparr>)"
| assert_fails: "consumer s = CAssert v \<Longrightarrow> numElements (shared s) = 0 \<Longrightarrow> consumerStep s (s\<lparr>consumer := CFailed\<rparr>)"
| index: "consumer s = CIndex v \<Longrightarrow>
    consumerStep s (s\<lparr>shared := (shared s)\<lparr>nextIndexToRead := (nextIndexToRead (shared s) + 1) mod cap s\<rparr>,
      consumer := CCount v\<rparr>)"
| count: "consumer s = CCount v \<Longrightarrow>
    consumerStep s (s\<lparr>shared := (shared s)\<lparr>numElements := numElements (shared s) - 1\<rparr>, taken := taken s @ [v],
      consumer := CIdle\<rparr>)"

text \<open>Runs in which only the producers of a given set take part.\<close>

inductive queueRun :: "nat set \<Rightarrow> 'a SharedQueue \<Rightarrow> 'a SharedQueue \<Rightarrow> bool" for P where
  refl: "queueRun P s s"
| produce: "queueRun P s s' \<Longrightarrow> i \<in> P \<Longrightarrow> producerStep i s' s'' \<Longrightarrow> queueRun P s s''"
| consume: "queueRun P s s' \<Longrightarrow> consumerStep s' s'' \<Longrightarrow> queueRun P s s''"

section \<open>One producer\<close>

text \<open>The elements that are in the queue sit in their slots; a producer or a consumer in the middle of
  its operation has seen what it acts on.\<close>

definition producer_inv :: "'a SharedQueue \<Rightarrow> 'a producer \<Rightarrow> bool" where
  "producer_inv s p = (let W = length (accepted s); R = length (taken s); N = cap s; Q = shared s in
     case p of
       PStore v slot \<Rightarrow> slot = W mod N \<and> W < R + N \<and> nextIndexToWrite Q = W mod N
     | PIndex v \<Rightarrow> velem (queue Q) (W mod N) = v \<and> W < R + N \<and> nextIndexToWrite Q = W mod N
     | PCount v \<Rightarrow> velem (queue Q) (W mod N) = v \<and> W < R + N \<and> nextIndexToWrite Q = Suc W mod N
     | _ \<Rightarrow> nextIndexToWrite Q = W mod N)"

definition consumer_inv :: "'a SharedQueue \<Rightarrow> 'a consumer \<Rightarrow> bool" where
  "consumer_inv s c = (let W = length (accepted s); R = length (taken s); N = cap s; Q = shared s in
     case c of
       CLoad slot \<Rightarrow> slot = R mod N \<and> R < W \<and> nextIndexToRead Q = R mod N
     | CAssert v \<Rightarrow> v = accepted s ! R \<and> R < W \<and> nextIndexToRead Q = R mod N
     | CIndex v \<Rightarrow> v = accepted s ! R \<and> R < W \<and> nextIndexToRead Q = R mod N
     | CCount v \<Rightarrow> v = accepted s ! R \<and> R < W \<and> nextIndexToRead Q = Suc R mod N
     | CFailed \<Rightarrow> False
     | _ \<Rightarrow> nextIndexToRead Q = R mod N)"

definition shared_inv :: "'a SharedQueue \<Rightarrow> bool" where
  "shared_inv s \<longleftrightarrow> 0 < cap s \<and> length (accepted s) = length (taken s) + numElements (shared s) \<and>
     numElements (shared s) \<le> cap s \<and> take (length (taken s)) (accepted s) = taken s \<and>
     (\<forall>k. length (taken s) \<le> k \<and> k < length (accepted s) \<longrightarrow> velem (queue (shared s)) (k mod cap s) = accepted s ! k) \<and>
     producer_inv s (producers s 0) \<and> consumer_inv s (consumer s)"

lemma slot_fresh:
  assumes "k < W" "W < R + N" "R \<le> (k::nat)"
  shows "k mod N \<noteq> W mod N"
proof
  assume "k mod N = W mod N"
  then have "N dvd W - k" using assms(1) mod_eq_dvd_iff_nat [of k W N] by simp
  with assms show False by (auto dest: dvd_imp_le)
qed

lemmas inv_defs = shared_inv_def producer_inv_def consumer_inv_def setProducer_def Let_def

lemma producerStep_inv:
  assumes "producerStep 0 s s'" "shared_inv s"
  shows "shared_inv s'"
  using assms(1)
proof cases
  case (store v slot q)
  have W: "slot = length (accepted s) mod cap s" "length (accepted s) < length (taken s) + cap s"
    using assms(2) store(2) by (simp_all add: inv_defs)
  have q: "vsize q = cap s" "velem q (length (accepted s) mod cap s) = v" using store(3) W(1) by auto
  have "velem q (k mod cap s) = accepted s ! k" if "length (taken s) \<le> k" "k < length (accepted s)" for k
    using slot_fresh [OF that(2) W(2) that(1)] store(3) W(1) that assms(2) by (auto simp: shared_inv_def)
  with assms(2) store(1,2) q W(2) show ?thesis by (simp add: inv_defs split: consumer.splits)
next
  case (count v)
  have "velem (queue (shared s)) (k mod cap s) = (accepted s @ [v]) ! k"
    if "length (taken s) \<le> k" "k < Suc (length (accepted s))" for k
    using assms(2) count(2) that by (cases "k = length (accepted s)") (auto simp: inv_defs nth_append)
  with assms(2) count show ?thesis by (auto simp: inv_defs nth_append split: consumer.splits)
qed (use assms(2) in \<open>auto simp: inv_defs getNextToWrite_def mod_Suc_eq split: consumer.splits if_splits\<close>)

lemma consumerStep_inv:
  assumes "consumerStep s s'" "shared_inv s"
  shows "shared_inv s'"
  using assms(1)
proof cases
  case (count v)
  then have "take (Suc (length (taken s))) (accepted s) = taken s @ [v]"
    using assms(2) by (auto simp: inv_defs take_Suc_conv_app_nth)
  with assms(2) count show ?thesis by (auto simp: inv_defs split: producer.splits)
qed (use assms(2) in \<open>auto simp: inv_defs getNextToRead_def mod_Suc_eq split: producer.splits if_splits\<close>)

lemma SharedQueue_init_inv: "0 < n \<Longrightarrow> shared_inv (SharedQueue_init d n)"
  by (simp add: shared_inv_def producer_inv_def consumer_inv_def SharedQueue_init_def LFQueue_init_def)

lemma queueRun_inv: "queueRun {0} s s' \<Longrightarrow> shared_inv s \<Longrightarrow> shared_inv s'"
  by (induction rule: queueRun.induct) (auto intro: producerStep_inv consumerStep_inv)

lemma producerStep_cap: "producerStep i s s' \<Longrightarrow> cap s' = cap s"
  by (induction rule: producerStep.induct) (auto simp: setProducer_def)

lemma consumerStep_cap: "consumerStep s s' \<Longrightarrow> cap s' = cap s"
  by (induction rule: consumerStep.induct) auto

lemma queueRun_cap: "queueRun P s s' \<Longrightarrow> cap s' = cap s"
  by (induction rule: queueRun.induct) (auto dest: producerStep_cap consumerStep_cap)

section \<open>Schedules\<close>

text \<open>An action of a schedule: a producer starts a push, a producer goes on, the consumer goes on.\<close>

datatype 'a action = Start nat 'a | Produce nat | Consume

fun produceNext :: "nat \<Rightarrow> 'a SharedQueue \<Rightarrow> 'a SharedQueue option" where
  "produceNext i s = (case producers s i of
     PIdle \<Rightarrow> None
   | PCheck v \<Rightarrow> (case getNextToWrite (shared s) of None \<Rightarrow> Some (setProducer s i PIdle)
       | Some slot \<Rightarrow> Some (setProducer s i (PStore v slot)))
   | PStore v slot \<Rightarrow> (case vset (queue (shared s)) slot v of Inl _ \<Rightarrow> None
       | Inr q \<Rightarrow> Some (setProducer (s\<lparr>shared := (shared s)\<lparr>queue := q\<rparr>\<rparr>) i (PIndex v)))
   | PIndex v \<Rightarrow> Some (setProducer
       (s\<lparr>shared := (shared s)\<lparr>nextIndexToWrite := (nextIndexToWrite (shared s) + 1) mod cap s\<rparr>\<rparr>) i (PCount v))
   | PCount v \<Rightarrow> Some (setProducer (s\<lparr>shared := (shared s)\<lparr>numElements := numElements (shared s) + 1\<rparr>,
       accepted := accepted s @ [v]\<rparr>) i PIdle))"

fun consumeNext :: "'a SharedQueue \<Rightarrow> 'a SharedQueue option" where
  "consumeNext s = (case consumer s of
     CIdle \<Rightarrow> Some (s\<lparr>consumer := CCheck\<rparr>)
   | CCheck \<Rightarrow> (case getNextToRead (shared s) of None \<Rightarrow> Some (s\<lparr>consumer := CIdle\<rparr>)
       | Some slot \<Rightarrow> Some (s\<lparr>consumer := CLoad slot\<rparr>))
   | CLoad slot \<Rightarrow> (case vget (queue (shared s)) slot of Inl _ \<Rightarrow> None | Inr v \<Rightarrow> Some (s\<lparr>consumer := CAssert v\<rparr>))
   | CAssert v \<Rightarrow> Some (s\<lparr>consumer := if numElements (shared s) > 0 then CIndex v else CFailed\<rparr>)
   | CIndex v \<Rightarrow> Some (s\<lparr>shared := (shared s)\<lparr>nextIndexToRead := (nextIndexToRead (shared s) + 1) mod cap s\<rparr>,
       consumer := CCount v\<rparr>)
   | CCount v \<Rightarrow> Some (s\<lparr>shared := (shared s)\<lparr>numElements := numElements (shared s) - 1\<rparr>, taken := taken s @ [v],
       consumer := CIdle\<rparr>)
   | CFailed \<Rightarrow> None)"

fun act :: "'a SharedQueue \<Rightarrow> 'a action \<Rightarrow> 'a SharedQueue option" where
  "act s (Start i v) = (if producers s i = PIdle then Some (setProducer s i (PCheck v)) else None)"
| "act s (Produce i) = produceNext i s"
| "act s Consume = consumeNext s"

fun schedule :: "'a SharedQueue \<Rightarrow> 'a action list \<Rightarrow> 'a SharedQueue option" where
  "schedule s [] = Some s"
| "schedule s (a # as) = Option.bind (act s a) (\<lambda>s'. schedule s' as)"

lemma produceNext_step: "produceNext i s = Some s' \<Longrightarrow> producerStep i s s'"
  by (auto split: producer.splits option.splits sum.splits simp del: vset_eq_Inr One_nat_def intro: producerStep.intros)

lemma consumeNext_step: "consumeNext s = Some s' \<Longrightarrow> consumerStep s s'"
  by (auto split: consumer.splits option.splits sum.splits if_splits simp del: vget_eq_Inr One_nat_def intro: consumerStep.intros)

fun actors :: "'a action \<Rightarrow> nat set" where
  "actors (Start i v) = {i}"
| "actors (Produce i) = {i}"
| "actors Consume = {}"

lemma schedule_run:
  assumes "schedule s as = Some s'" "queueRun P s0 s" "\<forall>a\<in>set as. actors a \<subseteq> P"
  shows "queueRun P s0 s'"
  using assms
proof (induction as arbitrary: s)
  case (Cons a as)
  from Cons.prems(1) obtain s1 where s1: "act s a = Some s1" "schedule s1 as = Some s'" by (auto split: bind_splits)
  have "queueRun P s0 s1"
  proof (cases a)
    case (Start i v)
    then have "producerStep i s s1" using s1(1) by (auto intro: producerStep.begin_push split: if_splits)
    with Start Cons.prems(2,3) show ?thesis by (auto intro: queueRun.produce)
  next
    case (Produce i)
    then have "producerStep i s s1" using s1(1) produceNext_step by simp
    with Produce Cons.prems(2,3) show ?thesis by (auto intro: queueRun.produce)
  next
    case Consume
    then have "consumerStep s s1" using s1(1) consumeNext_step by simp
    with Cons.prems(2) show ?thesis by (auto intro: queueRun.consume)
  qed
  with Cons.IH [OF s1(2)] Cons.prems(3) show ?case by simp
qed simp

text \<open>Neither side is ever stuck.\<close>

lemma consumer_live: "shared_inv s \<Longrightarrow> \<exists>s'. consumeNext s = Some s' \<and> consumerStep s s'"
proof -
  assume "shared_inv s"
  then have "consumeNext s \<noteq> None"
    by (auto simp: inv_defs split: consumer.splits option.splits sum.splits simp del: vget_eq_Inr)
  then show ?thesis using consumeNext_step by blast
qed

lemma producer_live: "shared_inv s \<Longrightarrow> \<exists>s'. producerStep 0 s s'"
proof (cases "producers s 0 = PIdle")
  case True
  show ?thesis by (rule exI, rule producerStep.begin_push [OF True])
next
  case False
  assume "shared_inv s"
  with False have "produceNext 0 s \<noteq> None"
    by (auto simp: inv_defs split: producer.splits option.splits sum.splits simp del: vset_eq_Inr)
  then show ?thesis using produceNext_step by blast
qed

section \<open>Properties\<close>

text \<open>C33: with one producer and one consumer, in every interleaving of their steps, what the consumer has taken is a prefix of
  what the producer has stored, in the same order; the element count is exact, the capacity is kept, the consumer's assertion
  never fails, and neither side is ever stuck.\<close>

theorem spsc_fifo:
  assumes "0 < n" "queueRun {0} (SharedQueue_init d n) s"
  shows "take (length (taken s)) (accepted s) = taken s \<and>
    length (accepted s) = length (taken s) + size_q (shared s) \<and> size_q (shared s) \<le> n \<and>
    consumer s \<noteq> CFailed \<and> (\<exists>s'. consumerStep s s') \<and> (\<exists>s'. producerStep 0 s s')"
proof -
  have inv: "shared_inv s" by (rule queueRun_inv [OF assms(2) SharedQueue_init_inv [OF assms(1)]])
  have cap: "cap s = n" using queueRun_cap [OF assms(2)] by (simp add: SharedQueue_init_def)
  from consumer_live [OF inv] producer_live [OF inv] show ?thesis using inv cap
    by (auto simp: shared_inv_def consumer_inv_def size_q_def Let_def)
qed

theorem spsc_fifo_witness:
  "\<exists>s. queueRun {0} (SharedQueue_init (0 :: int) 2) s \<and> accepted s = [7] \<and> taken s = [7] \<and> size_q (shared s) = 0"
proof -
  let ?as = "[Start 0 7, Consume, Produce 0, Produce 0, Consume, Produce 0, Produce 0, Consume, Consume, Consume, Consume, Consume, Consume]"
  have "\<exists>s. schedule (SharedQueue_init (0 :: int) 2) ?as = Some s \<and> accepted s = [7] \<and> taken s = [7]"
    by (simp add: SharedQueue_init_def LFQueue_init_def setProducer_def getNextToWrite_def getNextToRead_def vset_def vget_def)
  then obtain s where s: "schedule (SharedQueue_init (0 :: int) 2) ?as = Some s" "accepted s = [7]" "taken s = [7]" by blast
  have run: "queueRun {0} (SharedQueue_init (0 :: int) 2) s"
    by (rule schedule_run [OF s(1) queueRun.refl]) simp
  from spsc_fifo [OF _ run] s(2,3) run show ?thesis by auto
qed

text \<open>C34: with two producers the queue loses elements: both pushes report success, but the consumer gets the second value and
  then a value nobody stored.\<close>

theorem two_producers_lose:
  "\<exists>s. queueRun {0, 1} (SharedQueue_init (0 :: int) 4) s \<and> accepted s = [1, 2] \<and> taken s = [2, 0]"
proof -
  let ?as = "[Start 0 1, Start 1 2, Produce 0, Produce 1, Produce 0, Produce 1, Produce 0, Produce 1, Produce 0, Produce 1,
    Consume, Consume, Consume, Consume, Consume, Consume, Consume, Consume, Consume, Consume, Consume, Consume]"
  have "\<exists>s. schedule (SharedQueue_init (0 :: int) 4) ?as = Some s \<and> accepted s = [1, 2] \<and> taken s = [2, 0]"
    by (simp add: SharedQueue_init_def LFQueue_init_def setProducer_def getNextToWrite_def getNextToRead_def vset_def vget_def)
  then obtain s where s: "schedule (SharedQueue_init (0 :: int) 4) ?as = Some s" "accepted s = [1, 2]" "taken s = [2, 0]" by blast
  have "queueRun {0, 1} (SharedQueue_init (0 :: int) 4) s" by (rule schedule_run [OF s(1) queueRun.refl]) simp
  with s(2,3) show ?thesis by blast
qed

end
