(* ===== verification/Queue_Atomic.thy ===== *)
theory Queue_Atomic
  imports LF_Queue_Concurrent
begin

text \<open>
  With one producer and one consumer the interleaved queue (src/src/lib/lock_free_queue.h) is as good as one whose
  operations are atomic: every operation takes effect at one of its own steps, and the same operations, executed one
  after the other in the order of these steps, give the same results.
\<close>

section \<open>Where an operation takes effect\<close>

text \<open>A push takes effect where it counts the element, or where it finds the queue full; a pop where it counts, or where it
  finds the queue empty.\<close>

datatype 'a queueEvent = Pushed 'a | Refused 'a | Popped 'a | FoundEmpty

definition producerEvent :: "'a SharedQueue \<Rightarrow> 'a queueEvent list" where
  "producerEvent s =
     (case producers s 0 of
        PCheck v \<Rightarrow> (if getNextToWrite (shared s) = None then [Refused v] else [])
      | PCount v \<Rightarrow> [Pushed v]
      | _ \<Rightarrow> [])"

definition consumerEvent :: "'a SharedQueue \<Rightarrow> 'a queueEvent list" where
  "consumerEvent s =
     (case consumer s of
        CCheck \<Rightarrow> (if getNextToRead (shared s) = None then [FoundEmpty] else [])
      | CCount v \<Rightarrow> [Popped v]
      | _ \<Rightarrow> [])"

inductive eventRun :: "'a SharedQueue \<Rightarrow> 'a queueEvent list \<Rightarrow> 'a SharedQueue \<Rightarrow> bool" for s where
  refl: "eventRun s [] s"
| produce: "eventRun s es s' \<Longrightarrow> producerStep 0 s' s'' \<Longrightarrow> eventRun s (es @ producerEvent s') s''"
| consume: "eventRun s es s' \<Longrightarrow> consumerStep s' s'' \<Longrightarrow> eventRun s (es @ consumerEvent s') s''"

lemma eventRun_queueRun: "eventRun s es s' \<Longrightarrow> queueRun {0} s s'"
  by (induction rule: eventRun.induct) (auto intro: queueRun.intros)

lemma queueRun_eventRun: "queueRun {0} s s' \<Longrightarrow> \<exists>es. eventRun s es s'"
proof (induction rule: queueRun.induct)
  case (produce s s' i s'')
  then obtain es where "eventRun s es s'" by blast
  with produce.hyps show ?case using eventRun.produce by fastforce
next
  case (consume s s' s'')
  then show ?case using eventRun.consume by blast
qed (blast intro: eventRun.refl)

section \<open>The same operations, one after the other\<close>

text \<open>The operations of a list of events on the queue of one thread, with the events they give there.\<close>

fun perform :: "'a LFQueue \<Rightarrow> 'a queueEvent \<Rightarrow> ('a queueEvent \<times> 'a LFQueue) res" where
  "perform q (Pushed v) = bind_res (push q v) (\<lambda>(ok, q'). Inr (if ok then Pushed v else Refused v, q'))"
| "perform q (Refused v) = bind_res (push q v) (\<lambda>(ok, q'). Inr (if ok then Pushed v else Refused v, q'))"
| "perform q (Popped v) = bind_res (pop q) (\<lambda>(x, q'). Inr (case x of Some w \<Rightarrow> Popped w | None \<Rightarrow> FoundEmpty, q'))"
| "perform q FoundEmpty = bind_res (pop q) (\<lambda>(x, q'). Inr (case x of Some w \<Rightarrow> Popped w | None \<Rightarrow> FoundEmpty, q'))"

fun replay :: "'a LFQueue \<Rightarrow> 'a queueEvent list \<Rightarrow> ('a queueEvent list \<times> 'a LFQueue) res" where
  "replay q [] = Inr ([], q)"
| "replay q (e # es) = bind_res (perform q e) (\<lambda>(e', q1). bind_res (replay q1 es) (\<lambda>(es', q2). Inr (e' # es', q2)))"

lemma replay_append:
  assumes "replay q es = Inr (es', q')" "replay q' fs = Inr (fs', q'')"
  shows "replay q (es @ fs) = Inr (es' @ fs', q'')"
  using assms by (induction es arbitrary: q es') (auto simp del: perform.simps)

text \<open>A queue with the elements that are accepted and not yet taken.\<close>

definition holds :: "'a LFQueue \<Rightarrow> 'a SharedQueue \<Rightarrow> bool" where
  "holds q s \<longleftrightarrow> queue_wf q \<and> vsize (queue q) = cap s \<and> contents q = drop (length (taken s)) (accepted s)"

lemma holds_length: "holds q s \<Longrightarrow> shared_inv s \<Longrightarrow> numElements q = numElements (shared s)"
  by (metis holds_def shared_inv_def length_contents length_drop add_diff_cancel_left')

lemma producer_replay:
  assumes "producerStep 0 s s'" "shared_inv s" "holds q s"
  shows "\<exists>q'. replay q (producerEvent s) = Inr (producerEvent s, q') \<and> holds q' s'"
  using assms(1)
proof cases
  case (full v)
  have "numElements q = vsize (queue q)"
    using holds_length [OF assms(3,2)] full assms(2,3) by (auto simp: getNextToWrite_def holds_def shared_inv_def split: if_splits)
  with push_full [OF this] full assms(3) show ?thesis by (simp add: producerEvent_def holds_def setProducer_def)
next
  case (count v)
  have "numElements q < vsize (queue q)"
    using holds_length [OF assms(3,2)] count(2) assms(2,3) by (auto simp: holds_def shared_inv_def producer_inv_def Let_def)
  then obtain q' where "push q v = Inr (True, q')" "queue_wf q'" "contents q' = contents q @ [v]" "vsize (queue q') = vsize (queue q)"
    using push_room [of q v] assms(3) by (auto simp: holds_def)
  moreover have "length (taken s) \<le> length (accepted s)" using assms(2) by (simp add: shared_inv_def)
  ultimately show ?thesis using count assms(3) by (simp add: producerEvent_def holds_def setProducer_def)
qed (use assms(3) in \<open>auto simp: producerEvent_def holds_def setProducer_def\<close>)

lemma consumer_replay:
  assumes "consumerStep s s'" "shared_inv s" "holds q s"
  shows "\<exists>q'. replay q (consumerEvent s) = Inr (consumerEvent s, q') \<and> holds q' s'"
  using assms(1)
proof cases
  case none
  have "contents q = []"
    using holds_length [OF assms(3,2)] none by (metis getNextToRead_def length_0_conv length_contents not_gr_zero option.distinct(1))
  with pop_none [OF this] none assms(3) show ?thesis by (simp add: consumerEvent_def holds_def)
next
  case (count v)
  have v: "v = accepted s ! length (taken s)" "length (taken s) < length (accepted s)"
    using count(2) assms(2) by (auto simp: shared_inv_def consumer_inv_def Let_def)
  then have "contents q = v # drop (Suc (length (taken s))) (accepted s)" using assms(3) by (simp add: holds_def Cons_nth_drop_Suc)
  then obtain q' where "pop q = Inr (Some v, q')" "queue_wf q'" "contents q' = drop (Suc (length (taken s))) (accepted s)"
    "vsize (queue q') = vsize (queue q)" using pop_some [of q v] assms(3) by (auto simp: holds_def)
  with count assms(3) show ?thesis by (simp add: consumerEvent_def holds_def)
qed (use assms(3) in \<open>auto simp: consumerEvent_def holds_def\<close>)

lemma eventRun_replay:
  assumes "eventRun s es s'" "shared_inv s" "holds q s"
  shows "\<exists>q'. replay q es = Inr (es, q') \<and> holds q' s' \<and> shared_inv s'"
  using assms
proof (induction rule: eventRun.induct)
  case refl
  then show ?case by simp
next
  case (produce es s' s'')
  then obtain q1 where q1: "replay q es = Inr (es, q1)" "holds q1 s'" "shared_inv s'" by blast
  with producer_replay [OF produce.hyps(2) q1(3,2)] producerStep_inv [OF produce.hyps(2) q1(3)] show ?case
    using replay_append by blast
next
  case (consume es s' s'')
  then obtain q1 where q1: "replay q es = Inr (es, q1)" "holds q1 s'" "shared_inv s'" by blast
  with consumer_replay [OF consume.hyps(2) q1(3,2)] consumerStep_inv [OF consume.hyps(2) q1(3)] show ?case
    using replay_append by blast
qed

text \<open>Between two operations the shared variables themselves are a queue with these elements.\<close>

lemma at_rest:
  assumes "shared_inv s" "producers s 0 = PIdle" "consumer s = CIdle"
  shows "holds (shared s) s"
proof -
  let ?W = "length (accepted s)" and ?R = "length (taken s)" and ?n = "cap s"
  have i: "nextIndexToWrite (shared s) = ?W mod ?n" "nextIndexToRead (shared s) = ?R mod ?n" "?W = ?R + numElements (shared s)"
    "0 < ?n" "numElements (shared s) \<le> ?n"
    "\<And>k. ?R \<le> k \<Longrightarrow> k < ?W \<Longrightarrow> velem (queue (shared s)) (k mod ?n) = accepted s ! k"
    using assms by (auto simp: inv_defs)
  have "contents (shared s) = drop ?R (accepted s)"
    by (rule nth_equalityI) (use i in \<open>simp_all add: contents_def mod_add_left_eq\<close>)
  with i show ?thesis by (simp add: holds_def queue_wf_def mod_add_left_eq)
qed

section \<open>Properties\<close>

text \<open>C14: the queue is linearizable with one producer and one consumer. In every interleaving the operations give the results they
  give on a queue of one thread that executes them in the order in which they took effect, and that queue then holds the
  elements that were accepted and not yet taken; when no operation is under way the shared variables hold the same.\<close>

theorem spsc_linearizable:
  assumes "0 < n" "eventRun (SharedQueue_init d n) es s"
  shows "\<exists>q. replay (LFQueue_init d n) es = Inr (es, q) \<and> queue_wf q \<and> contents q = drop (length (taken s)) (accepted s) \<and>
    (producers s 0 = PIdle \<and> consumer s = CIdle \<longrightarrow> contents (shared s) = contents q)"
proof -
  have "holds (LFQueue_init d n) (SharedQueue_init d n)"
    using LFQueue_init_wf [OF assms(1), of d] by (simp add: holds_def SharedQueue_init_def)
  from eventRun_replay [OF assms(2) SharedQueue_init_inv [OF assms(1)] this] obtain q where
    q: "replay (LFQueue_init d n) es = Inr (es, q)" "holds q s" "shared_inv s" by blast
  with at_rest [OF q(3)] show ?thesis by (auto simp: holds_def)
qed

theorem spsc_linearizable_witness:
  "\<exists>es s. eventRun (SharedQueue_init (0 :: int) 2) es s \<and> taken s = [7] \<and> (\<exists>q. replay (LFQueue_init 0 2) es = Inr (es, q) \<and> contents q = [])"
proof -
  let ?as = "[Start 0 7, Consume, Produce 0, Produce 0, Consume, Produce 0, Produce 0, Consume, Consume, Consume, Consume, Consume, Consume]"
  have "\<exists>s. schedule (SharedQueue_init (0 :: int) 2) ?as = Some s \<and> accepted s = [7] \<and> taken s = [7]"
    by (simp add: SharedQueue_init_def LFQueue_init_def setProducer_def getNextToWrite_def getNextToRead_def vset_def vget_def)
  then obtain s where s: "schedule (SharedQueue_init (0 :: int) 2) ?as = Some s" "accepted s = [7]" "taken s = [7]" by blast
  have "queueRun {0} (SharedQueue_init (0 :: int) 2) s" by (rule schedule_run [OF s(1) queueRun.refl]) simp
  then obtain es where es: "eventRun (SharedQueue_init 0 2) es s" using queueRun_eventRun by blast
  from spsc_linearizable [OF _ es] s(2,3) es show ?thesis by auto
qed

end
