(* ===== verification/Engine_Pipeline.thy ===== *)
theory Engine_Pipeline
  imports Matching_Engine LF_Queue_Concurrent "HOL-Library.Sublist"
begin

text \<open>
  The request queue between its two threads, access by access: the gateway's thread publishes batches
  (\<open>sequenceAndPublish\<close>, src/src/core/gateway/fifo_Sequencer.h), the engine's thread runs its loop
  (\<open>runMatchingEngine\<close>, src/src/core/matching_engine/matching_engine.cpp). Every access of \<open>push\<close> and
  \<open>pop\<close> to the shared variables is a step; handling a request is one step of the engine's thread,
  as no other thread looks at the books. In every interleaving the books are those of the
  one-after-the-other specification.
\<close>

section \<open>Steps\<close>

text \<open>Besides the queue and the engine: the request the engine has taken and not yet handled, the rest of the batch that is
  being published; and as histories all that was to be published and all that was handled. The queue the engine's own
  record holds is not used here.\<close>

record Pipeline =
  pipeQueue :: "OMEClientRequest SharedQueue"
  pipeEngine :: Engine
  inHand :: "OMEClientRequest option"
  toPublish :: "OMEClientRequest list"
  offered :: "OMEClientRequest list"
  handled :: "OMEClientRequest list"

definition Pipeline_init :: "nat \<Rightarrow> Engine \<Rightarrow> Pipeline" where
  "Pipeline_init n E = \<lparr>pipeQueue = SharedQueue_init OMEClientRequest_default n, pipeEngine = E, inHand = None,
     toPublish = [], offered = [], handled = []\<rparr>"

text \<open>The gateway's thread is producer 0: it starts with a new batch once the last one is through, pushes the requests of a batch
  one after the other and ignores what \<open>push\<close> returns. The engine's thread pops, and handles what it got.\<close>

inductive gatewayMoves :: "Pipeline \<Rightarrow> Pipeline \<Rightarrow> bool" where
  batch: "producers (pipeQueue p) 0 = PIdle \<Longrightarrow> toPublish p = [] \<Longrightarrow>
    gatewayMoves p (p\<lparr>toPublish := rs, offered := offered p @ rs\<rparr>)"
| start: "producers (pipeQueue p) 0 = PIdle \<Longrightarrow> toPublish p = r # rs \<Longrightarrow>
    gatewayMoves p (p\<lparr>pipeQueue := setProducer (pipeQueue p) 0 (PCheck r), toPublish := rs\<rparr>)"
| produce: "producers (pipeQueue p) 0 \<noteq> PIdle \<Longrightarrow> producerStep 0 (pipeQueue p) q \<Longrightarrow> gatewayMoves p (p\<lparr>pipeQueue := q\<rparr>)"

inductive engineMoves :: "stray \<Rightarrow> Pipeline \<Rightarrow> Pipeline \<Rightarrow> bool" for stray where
  consume: "inHand p = None \<Longrightarrow> consumerStep (pipeQueue p) q \<Longrightarrow>
    engineMoves stray p (p\<lparr>pipeQueue := q, inHand := (case consumer (pipeQueue p) of CCount r \<Rightarrow> Some r | _ \<Rightarrow> None)\<rparr>)"
| handle: "inHand p = Some r \<Longrightarrow> handleClientRequest stray (pipeEngine p) r = Inr E \<Longrightarrow>
    engineMoves stray p (p\<lparr>pipeEngine := E, inHand := None, handled := handled p @ [r]\<rparr>)"

inductive pipelineRun :: "stray \<Rightarrow> Pipeline \<Rightarrow> Pipeline \<Rightarrow> bool" for stray where
  refl: "pipelineRun stray p p"
| gateway: "pipelineRun stray p p' \<Longrightarrow> gatewayMoves p' p'' \<Longrightarrow> pipelineRun stray p p''"
| engine: "pipelineRun stray p p' \<Longrightarrow> engineMoves stray p' p'' \<Longrightarrow> pipelineRun stray p p''"

inductive_cases gatewayMovesE: "gatewayMoves p p'"
inductive_cases engineMovesE: "engineMoves stray p p'"

section \<open>Accounting for every request\<close>

text \<open>The request a producer is about to store.\<close>

fun pushing :: "'a producer \<Rightarrow> 'a list" where
  "pushing PIdle = []"
| "pushing (PCheck v) = [v]"
| "pushing (PStore v slot) = [v]"
| "pushing (PIndex v) = [v]"
| "pushing (PCount v) = [v]"

definition onWay :: "Pipeline \<Rightarrow> OMEClientRequest list" where
  "onWay p = accepted (pipeQueue p) @ pushing (producers (pipeQueue p) 0) @ toPublish p"

definition pipe_inv :: "nat \<Rightarrow> Pipeline \<Rightarrow> bool" where
  "pipe_inv n p \<longleftrightarrow> shared_inv (pipeQueue p) \<and> cap (pipeQueue p) = n \<and>
     taken (pipeQueue p) = handled p @ (case inHand p of None \<Rightarrow> [] | Some r \<Rightarrow> [r]) \<and>
     (inHand p \<noteq> None \<longrightarrow> consumer (pipeQueue p) = CIdle) \<and>
     subseq (onWay p) (offered p) \<and> (length (offered p) \<le> n \<longrightarrow> onWay p = offered p)"

lemma producerStep_parts:
  assumes "producerStep i s s'" "producers s i \<noteq> PIdle"
  shows "taken s' = taken s \<and> consumer s' = consumer s \<and>
    (accepted s' @ pushing (producers s' i) = accepted s @ pushing (producers s i) \<or>
     (\<exists>v. producers s i = PCheck v \<and> getNextToWrite (shared s) = None \<and> accepted s' = accepted s \<and> producers s' i = PIdle))"
  using assms by cases (auto simp: setProducer_def)

lemma consumerStep_parts:
  assumes "consumerStep s s'"
  shows "accepted s' = accepted s \<and> producers s' = producers s \<and>
    taken s' = taken s @ (case consumer s of CCount v \<Rightarrow> [v] | _ \<Rightarrow> []) \<and>
    (\<forall>v. consumer s = CCount v \<longrightarrow> consumer s' = CIdle)"
  using assms by cases auto

lemma gateway_inv:
  assumes "gatewayMoves p p'" "pipe_inv n p"
  shows "pipe_inv n p'"
  using assms(1)
proof cases
  case (batch rs)
  have "subseq (onWay p @ rs) (offered p @ rs)" using assms(2) by (simp add: pipe_inv_def list_emb_append_mono)
  with batch assms(2) show ?thesis by (auto simp: pipe_inv_def onWay_def)
next
  case (start r rs)
  have "producerStep 0 (pipeQueue p) (setProducer (pipeQueue p) 0 (PCheck r))" by (rule producerStep.begin_push [OF start(2)])
  from producerStep_inv [OF this] start assms(2) show ?thesis by (auto simp: pipe_inv_def onWay_def setProducer_def)
next
  case (produce q)
  have inv: "shared_inv q" "cap q = cap (pipeQueue p)"
    using producerStep_inv [OF produce(3)] producerStep_cap [OF produce(3)] assms(2) by (simp_all add: pipe_inv_def)
  note parts = producerStep_parts [OF produce(3,2)]
  show ?thesis
  proof (cases "accepted q @ pushing (producers q 0) = accepted (pipeQueue p) @ pushing (producers (pipeQueue p) 0)")
    case True
    then have "onWay p' = onWay p" using produce(1) by (simp add: onWay_def flip: append_assoc)
    with parts inv produce(1) assms(2) show ?thesis by (simp add: pipe_inv_def)
  next
    case False
    with parts obtain v where v: "producers (pipeQueue p) 0 = PCheck v" "getNextToWrite (shared (pipeQueue p)) = None"
      "accepted q = accepted (pipeQueue p)" "producers q 0 = PIdle" by blast
    have less: "onWay p = accepted (pipeQueue p) @ v # toPublish p" "onWay p' = accepted (pipeQueue p) @ toPublish p"
      using v produce(1) by (simp_all add: onWay_def)
    have "subseq (onWay p') (onWay p)" unfolding less by (intro list_emb_append_mono) auto
    then have "subseq (onWay p') (offered p)" using assms(2) subseq_order.order_trans by (auto simp: pipe_inv_def)
    moreover have "n < length (offered p)"
    proof -
      have "n \<le> length (accepted (pipeQueue p))"
        using v(2) assms(2) by (auto simp: pipe_inv_def shared_inv_def getNextToWrite_def split: if_splits)
      then have "n < length (onWay p)" by (simp add: less)
      also have "\<dots> \<le> length (offered p)" using assms(2) list_emb_length by (auto simp: pipe_inv_def)
      finally show ?thesis .
    qed
    ultimately show ?thesis using parts inv produce(1) assms(2) by (auto simp: pipe_inv_def)
  qed
qed

lemma engine_inv:
  assumes "engineMoves stray p p'" "pipe_inv n p"
  shows "pipe_inv n p'"
  using assms(1)
proof cases
  case (consume q)
  have "shared_inv q" "cap q = cap (pipeQueue p)"
    using consumerStep_inv [OF consume(3)] consumerStep_cap [OF consume(3)] assms(2) by (simp_all add: pipe_inv_def)
  with consumerStep_parts [OF consume(3)] consume(1,2) assms(2) show ?thesis
    by (auto simp: pipe_inv_def onWay_def split: consumer.splits)
next
  case (handle r E)
  with assms(2) show ?thesis by (simp add: pipe_inv_def onWay_def)
qed

lemma pipelineRun_inv: "pipelineRun stray p p' \<Longrightarrow> pipe_inv n p \<Longrightarrow> pipe_inv n p'"
  by (induction rule: pipelineRun.induct) (auto intro: gateway_inv engine_inv)

lemma Pipeline_init_inv: "0 < n \<Longrightarrow> pipe_inv n (Pipeline_init n E)"
  using SharedQueue_init_inv [of n OMEClientRequest_default]
  by (simp add: pipe_inv_def Pipeline_init_def onWay_def) (simp add: SharedQueue_init_def)

lemma handled_prefix: "pipe_inv n p \<Longrightarrow> prefix (taken (pipeQueue p)) (accepted (pipeQueue p))"
  by (metis pipe_inv_def shared_inv_def take_is_prefix)

section \<open>The engine keeps step with the requests it handled\<close>

lemma gateway_keeps_engine: "gatewayMoves p p' \<Longrightarrow> pipeEngine p' = pipeEngine p \<and> handled p' = handled p \<and> inHand p' = inHand p"
  by (elim gatewayMovesE) auto

lemma accepted_grows:
  "gatewayMoves p p' \<Longrightarrow> prefix (accepted (pipeQueue p)) (accepted (pipeQueue p'))"
  "engineMoves stray p p' \<Longrightarrow> accepted (pipeQueue p') = accepted (pipeQueue p)"
proof -
  assume "gatewayMoves p p'"
  then show "prefix (accepted (pipeQueue p)) (accepted (pipeQueue p'))"
    by (elim gatewayMovesE) (auto simp: setProducer_def elim!: producerStep.cases)
next
  assume "engineMoves stray p p'"
  then show "accepted (pipeQueue p') = accepted (pipeQueue p)"
    by (elim engineMovesE) (auto dest: consumerStep_parts)
qed

lemma allowed_prefix: "allowed rdy step c xs \<Longrightarrow> prefix ys xs \<Longrightarrow> allowed rdy step c ys"
  by (auto simp: prefix_def allowed_append)

lemma engine_in_step:
  assumes "pipelineRun (\<lambda>b k. Some (f b k)) p0 p" "handled p0 = []" "engineRepresents (pipeEngine p0) B"
    and "allowed acceptableAt specHandle B (handled p)"
  shows "engineRepresents (pipeEngine p) (foldl specHandle B (handled p))"
  using assms
proof (induction rule: pipelineRun.induct)
  case (gateway p p' p'')
  with gateway_keeps_engine [OF gateway.hyps(2)] show ?case by simp
next
  case (engine p p' p'')
  from engine.hyps(2) show ?case
  proof cases
    case (consume q)
    with engine.IH engine.prems show ?thesis by simp
  next
    case (handle r E')
    have ok: "allowed acceptableAt specHandle B (handled p')" "acceptableAt (foldl specHandle B (handled p')) r"
      using engine.prems(3) handle(1) by (simp_all add: allowed_append)
    from handle_simulates [OF engine.IH [OF engine.prems(1,2) ok(1)] ok(2), of f] handle(1,3) show ?thesis by auto
  qed
qed simp

section \<open>The engine catches up\<close>

text \<open>How far the consumer is in \<open>pop\<close>; with it a measure of the engine's work that every step lowers as long as there is
  a request to handle.\<close>

fun stage :: "'a consumer \<Rightarrow> nat" where
  "stage CIdle = 0"
| "stage CCheck = 1"
| "stage (CLoad slot) = 2"
| "stage (CAssert v) = 3"
| "stage (CIndex v) = 4"
| "stage (CCount v) = 5"
| "stage CFailed = 0"

definition backlog :: "Pipeline \<Rightarrow> nat" where
  "backlog p = 8 * (length (accepted (pipeQueue p)) - length (taken (pipeQueue p))) + (if inHand p = None then 0 else 1)
     - stage (consumer (pipeQueue p))"

lemma consume_progress:
  assumes "shared_inv s" "length (taken s) < length (accepted s)"
  shows "\<exists>s'. consumerStep s s' \<and> (case consumer s of
    CCount v \<Rightarrow> taken s' = taken s @ [v] \<and> consumer s' = CIdle
  | c \<Rightarrow> taken s' = taken s \<and> stage (consumer s') = Suc (stage c))"
proof -
  obtain s' where s': "consumeNext s = Some s'" "consumerStep s s'" using consumer_live [OF assms(1)] by blast
  have "case consumer s of CCount v \<Rightarrow> taken s' = taken s @ [v] \<and> consumer s' = CIdle
      | c \<Rightarrow> taken s' = taken s \<and> stage (consumer s') = Suc (stage c)"
    using s'(1) assms by (auto simp: inv_defs getNextToRead_def split: consumer.splits option.splits sum.splits if_splits)
  with s'(2) show ?thesis by blast
qed

lemma stage_le: "shared_inv s \<Longrightarrow> 0 < stage (consumer s) \<Longrightarrow> 1 < stage (consumer s) \<Longrightarrow> length (taken s) < length (accepted s)"
  by (auto simp: inv_defs split: consumer.splits)

text \<open>The next request the engine has to handle.\<close>

abbreviation nextIs :: "Pipeline \<Rightarrow> OMEClientRequest \<Rightarrow> bool" where
  "nextIs p r \<equiv> prefix (handled p @ [r]) (accepted (pipeQueue p))"

lemma inHand_next: "pipe_inv n p \<Longrightarrow> inHand p = Some r \<Longrightarrow> nextIs p r"
  using handled_prefix [of n p] by (simp add: pipe_inv_def)

lemma nextIs_unique: "nextIs p r \<Longrightarrow> nextIs p r' \<Longrightarrow> r = r'"
  by (auto simp: prefix_def)

lemma engine_progress:
  assumes inv: "pipe_inv n p" and E: "engineRepresents (pipeEngine p) (foldl specHandle B (handled p))"
    and left: "handled p \<noteq> accepted (pipeQueue p)"
    and ok: "\<And>r. inHand p = Some r \<Longrightarrow> acceptableAt (foldl specHandle B (handled p)) r"
  shows "\<exists>p'. engineMoves (\<lambda>b k. Some (f b k)) p p' \<and> backlog p' < backlog p"
proof (cases "inHand p")
  case None
  let ?s = "pipeQueue p"
  have s: "shared_inv ?s" "taken ?s = handled p" using inv None by (simp_all add: pipe_inv_def)
  then have less: "length (taken ?s) < length (accepted ?s)"
    using left handled_prefix [OF inv] by (metis prefix_length_less prefix_order.le_imp_less_or_eq)
  obtain q where q: "consumerStep ?s q" "case consumer ?s of CCount v \<Rightarrow> taken q = taken ?s @ [v] \<and> consumer q = CIdle
      | c \<Rightarrow> taken q = taken ?s \<and> stage (consumer q) = Suc (stage c)" using consume_progress [OF s(1) less] by blast
  let ?p = "p\<lparr>pipeQueue := q, inHand := (case consumer ?s of CCount r \<Rightarrow> Some r | _ \<Rightarrow> None)\<rparr>"
  have "stage (consumer ?s) < 6" by (cases "consumer ?s") simp_all
  then have "backlog ?p < backlog p"
    using q(2) consumerStep_parts [OF q(1)] less None by (cases "consumer ?s") (auto simp: backlog_def)
  with engineMoves.consume [OF None q(1)] show ?thesis by blast
next
  case (Some r)
  from handle_simulates [OF E ok [OF Some], of f] obtain E' where
    E': "handleClientRequest (\<lambda>b k. Some (f b k)) (pipeEngine p) r = Inr E'" by blast
  let ?p = "p\<lparr>pipeEngine := E', inHand := None, handled := handled p @ [r]\<rparr>"
  have "backlog ?p < backlog p" using Some inv by (simp add: backlog_def pipe_inv_def)
  with engineMoves.handle [OF Some E'] show ?thesis by blast
qed

lemma engine_live:
  assumes inv: "pipe_inv n p" and E: "engineRepresents (pipeEngine p) (foldl specHandle B (handled p))"
    and ok: "\<And>r. inHand p = Some r \<Longrightarrow> acceptableAt (foldl specHandle B (handled p)) r"
  shows "\<exists>p'. engineMoves (\<lambda>b k. Some (f b k)) p p'"
proof (cases "inHand p")
  case None
  have "shared_inv (pipeQueue p)" using inv by (simp add: pipe_inv_def)
  from consumer_live [OF this] engineMoves.consume [OF None] show ?thesis by blast
next
  case (Some r)
  from handle_simulates [OF E ok [OF Some], of f] engineMoves.handle [OF Some] show ?thesis by blast
qed

lemma gateway_live: "pipe_inv n p \<Longrightarrow> \<exists>p'. gatewayMoves p p'"
proof (cases "producers (pipeQueue p) 0 = PIdle")
  case True
  then show ?thesis by (cases "toPublish p") (auto intro: gatewayMoves.batch gatewayMoves.start)
next
  case False
  assume "pipe_inv n p"
  then have "shared_inv (pipeQueue p)" by (simp add: pipe_inv_def)
  from producer_live [OF this] gatewayMoves.produce [OF False] show ?thesis by blast
qed

text \<open>A step of the engine keeps what was handled acceptable, if what it handles is.\<close>

lemma engine_step_related:
  assumes m: "engineMoves (\<lambda>b k. Some (f b k)) p p'"
    and E: "engineRepresents (pipeEngine p) (foldl specHandle B (handled p))" "allowed acceptableAt specHandle B (handled p)"
    and ok: "\<And>r. inHand p = Some r \<Longrightarrow> acceptableAt (foldl specHandle B (handled p)) r"
  shows "engineRepresents (pipeEngine p') (foldl specHandle B (handled p')) \<and> allowed acceptableAt specHandle B (handled p')"
  using m
proof cases
  case (consume q)
  with E show ?thesis by simp
next
  case (handle r E')
  from handle_simulates [OF E(1) ok [OF handle(2)], of f] handle(1,3) E(2) ok [OF handle(2)] show ?thesis by (auto simp: allowed_append)
qed

text \<open>The engine alone handles everything that was accepted, up to the first request that is not acceptable.\<close>

lemma engine_catches:
  assumes "pipe_inv n p" "engineRepresents (pipeEngine p) (foldl specHandle B (handled p))" "allowed acceptableAt specHandle B (handled p)"
  shows "\<exists>p'. (engineMoves (\<lambda>b k. Some (f b k)))\<^sup>*\<^sup>* p p' \<and> accepted (pipeQueue p') = accepted (pipeQueue p) \<and>
    engineRepresents (pipeEngine p') (foldl specHandle B (handled p')) \<and> allowed acceptableAt specHandle B (handled p') \<and>
    (handled p' = accepted (pipeQueue p) \<or>
     (\<exists>r. nextIs p' r \<and> inHand p' = Some r \<and> \<not> acceptableAt (foldl specHandle B (handled p')) r))"
  using assms
proof (induction "backlog p" arbitrary: p rule: less_induct)
  case less
  show ?case
  proof (cases "handled p = accepted (pipeQueue p) \<or> (\<exists>r. inHand p = Some r \<and> \<not> acceptableAt (foldl specHandle B (handled p)) r)")
    case True
    with less.prems inHand_next [OF less.prems(1)] show ?thesis by (intro exI [of _ p]) auto
  next
    case False
    then have ok: "acceptableAt (foldl specHandle B (handled p)) r" if "inHand p = Some r" for r using that by blast
    obtain p1 where p1: "engineMoves (\<lambda>b k. Some (f b k)) p p1" "backlog p1 < backlog p"
      using engine_progress [OF less.prems(1,2) _ ok] False by blast
    have same: "accepted (pipeQueue p1) = accepted (pipeQueue p)" by (rule accepted_grows(2) [OF p1(1)])
    have rel: "engineRepresents (pipeEngine p1) (foldl specHandle B (handled p1))" "allowed acceptableAt specHandle B (handled p1)"
      using engine_step_related [OF p1(1) less.prems(2,3) ok] by auto
    from less.hyps [OF p1(2) engine_inv [OF p1(1) less.prems(1)] rel] obtain p' where
      p': "(engineMoves (\<lambda>b k. Some (f b k)))\<^sup>*\<^sup>* p1 p'" "accepted (pipeQueue p') = accepted (pipeQueue p)"
      "engineRepresents (pipeEngine p') (foldl specHandle B (handled p'))" "allowed acceptableAt specHandle B (handled p')"
      "handled p' = accepted (pipeQueue p) \<or>
       (\<exists>r. nextIs p' r \<and> inHand p' = Some r \<and> \<not> acceptableAt (foldl specHandle B (handled p')) r)" unfolding same by blast
    from converse_rtranclp_into_rtranclp [OF p1(1) p'(1)] p'(2-5) show ?thesis by blast
  qed
qed

lemma gateway_keeps: "gatewayMoves\<^sup>*\<^sup>* p p' \<Longrightarrow> pipeEngine p' = pipeEngine p \<and> handled p' = handled p"
  by (induction rule: rtranclp_induct) (auto dest: gateway_keeps_engine)

lemma gateway_runs: "gatewayMoves\<^sup>*\<^sup>* p' p'' \<Longrightarrow> pipelineRun stray p p' \<Longrightarrow> pipelineRun stray p p''"
  by (induction rule: rtranclp_induct) (auto intro: pipelineRun.gateway)

lemma engine_runs: "(engineMoves stray)\<^sup>*\<^sup>* p' p'' \<Longrightarrow> pipelineRun stray p p' \<Longrightarrow> pipelineRun stray p p''"
  by (induction rule: rtranclp_induct) (auto intro: pipelineRun.engine)

text \<open>The gateway's thread alone puts a batch into a queue with room for it.\<close>

lemma gateway_pushes_one:
  assumes inv: "pipe_inv n p" and idle: "producers (pipeQueue p) 0 = PIdle" and batch: "toPublish p = r # rs"
    and room: "length (accepted (pipeQueue p)) < length (taken (pipeQueue p)) + n"
  shows "\<exists>p'. gatewayMoves\<^sup>*\<^sup>* p p' \<and> producers (pipeQueue p') 0 = PIdle \<and> toPublish p' = rs \<and>
    accepted (pipeQueue p') = accepted (pipeQueue p) @ [r] \<and> taken (pipeQueue p') = taken (pipeQueue p) \<and>
    offered p' = offered p"
proof -
  let ?s0 = "pipeQueue p" and ?set = "\<lambda>s. setProducer s 0"
  let ?s1 = "?set ?s0 (PCheck r)"
  have inv0: "shared_inv ?s0" "cap ?s0 = n" using inv by (simp_all add: pipe_inv_def)
  have next1: "getNextToWrite (shared ?s1) = Some (nextIndexToWrite (shared ?s0))"
    using inv0 room by (simp add: getNextToWrite_def setProducer_def shared_inv_def)
  let ?s2 = "?set ?s1 (PStore r (nextIndexToWrite (shared ?s0)))"
  have s1: "producerStep 0 ?s0 ?s1" by (rule producerStep.begin_push [OF idle])
  have s2: "producerStep 0 ?s1 ?s2" by (rule producerStep.room [OF _ next1]) (simp add: setProducer_def)
  have inv2: "shared_inv ?s2" using producerStep_inv [OF s2 producerStep_inv [OF s1 inv0(1)]] .
  have "nextIndexToWrite (shared ?s0) < cap ?s2" using inv2 inv0 by (simp add: inv_defs)
  then obtain q where q: "vset (queue (shared ?s2)) (nextIndexToWrite (shared ?s0)) r = Inr q" by simp
  let ?s3 = "?set (?s2\<lparr>shared := (shared ?s2)\<lparr>queue := q\<rparr>\<rparr>) (PIndex r)"
  have s3: "producerStep 0 ?s2 ?s3" by (rule producerStep.store [OF _ q]) (simp add: setProducer_def)
  let ?s4 = "?set (?s3\<lparr>shared := (shared ?s3)\<lparr>nextIndexToWrite := (nextIndexToWrite (shared ?s3) + 1) mod cap ?s3\<rparr>\<rparr>) (PCount r)"
  have s4: "producerStep 0 ?s3 ?s4" by (rule producerStep.index) (simp add: setProducer_def)
  let ?s5 = "?set (?s4\<lparr>shared := (shared ?s4)\<lparr>numElements := numElements (shared ?s4) + 1\<rparr>, accepted := accepted ?s4 @ [r]\<rparr>) PIdle"
  have s5: "producerStep 0 ?s4 ?s5" by (rule producerStep.count) (simp add: setProducer_def)
  let ?p = "\<lambda>s. p\<lparr>pipeQueue := s, toPublish := rs\<rparr>"
  have "gatewayMoves p (?p ?s1)" by (rule gatewayMoves.start [OF idle batch])
  moreover have move: "gatewayMoves (?p s) (?p s')" if "producerStep 0 s s'" "producers s 0 \<noteq> PIdle" for s s'
  proof -
    have eq: "(?p s)\<lparr>pipeQueue := s'\<rparr> = ?p s'" by (cases p) simp
    have "gatewayMoves (?p s) ((?p s)\<lparr>pipeQueue := s'\<rparr>)" by (rule gatewayMoves.produce) (use that in simp_all)
    then show ?thesis unfolding eq .
  qed
  have "gatewayMoves (?p ?s1) (?p ?s2)" "gatewayMoves (?p ?s2) (?p ?s3)" "gatewayMoves (?p ?s3) (?p ?s4)" "gatewayMoves (?p ?s4) (?p ?s5)"
    by (rule move, rule s2 s3 s4 s5, simp add: setProducer_def)+
  ultimately have "gatewayMoves\<^sup>*\<^sup>* p (?p ?s5)" by (meson converse_rtranclp_into_rtranclp rtranclp.rtrancl_refl)
  then show ?thesis by (intro exI [of _ "?p ?s5"]) (simp add: setProducer_def)
qed

lemma gateway_run_inv: "gatewayMoves\<^sup>*\<^sup>* p p' \<Longrightarrow> pipe_inv n p \<Longrightarrow> pipe_inv n p'"
  by (induction rule: rtranclp_induct) (auto intro: gateway_inv)

lemma gateway_pushes:
  assumes "pipe_inv n p" "producers (pipeQueue p) 0 = PIdle" "toPublish p = rs"
    and "length (accepted (pipeQueue p)) + length rs \<le> length (taken (pipeQueue p)) + n"
  shows "\<exists>p'. gatewayMoves\<^sup>*\<^sup>* p p' \<and> producers (pipeQueue p') 0 = PIdle \<and> toPublish p' = [] \<and>
    accepted (pipeQueue p') = accepted (pipeQueue p) @ rs \<and> offered p' = offered p"
  using assms
proof (induction rs arbitrary: p)
  case Nil
  then show ?case by auto
next
  case (Cons r rs)
  obtain p1 where p1: "gatewayMoves\<^sup>*\<^sup>* p p1" "producers (pipeQueue p1) 0 = PIdle" "toPublish p1 = rs"
    "accepted (pipeQueue p1) = accepted (pipeQueue p) @ [r]" "taken (pipeQueue p1) = taken (pipeQueue p)" "offered p1 = offered p"
    using gateway_pushes_one [OF Cons.prems(1-3)] Cons.prems(4) by auto
  from Cons.IH [OF gateway_run_inv [OF p1(1) Cons.prems(1)] p1(2,3)] p1(4-6) Cons.prems(4) obtain p' where
    "gatewayMoves\<^sup>*\<^sup>* p1 p'" "producers (pipeQueue p') 0 = PIdle" "toPublish p' = []"
    "accepted (pipeQueue p') = accepted (pipeQueue p) @ r # rs" "offered p' = offered p" by auto
  with p1(1) show ?case by (meson rtranclp_trans)
qed

lemma publish_batch:
  assumes "length rs \<le> n" "0 < n"
  shows "\<exists>p. pipelineRun stray (Pipeline_init n E) p \<and> accepted (pipeQueue p) = rs \<and> offered p = rs \<and> toPublish p = [] \<and>
    producers (pipeQueue p) 0 = PIdle \<and> handled p = [] \<and> pipeEngine p = E"
proof -
  let ?p = "(Pipeline_init n E)\<lparr>toPublish := rs, offered := offered (Pipeline_init n E) @ rs\<rparr>"
  have start: "gatewayMoves (Pipeline_init n E) ?p"
    by (rule gatewayMoves.batch) (simp_all add: Pipeline_init_def SharedQueue_init_def)
  have inv: "pipe_inv n ?p" by (rule gateway_inv [OF start Pipeline_init_inv [OF assms(2)]])
  obtain p' where p': "gatewayMoves\<^sup>*\<^sup>* ?p p'" "producers (pipeQueue p') 0 = PIdle" "toPublish p' = []"
    "accepted (pipeQueue p') = rs" "offered p' = rs"
    using gateway_pushes [OF inv, of rs] assms(1) by (auto simp: Pipeline_init_def SharedQueue_init_def)
  note run = converse_rtranclp_into_rtranclp [OF start p'(1)]
  have "pipeEngine p' = E" "handled p' = []" using gateway_keeps [OF run] by (simp_all add: Pipeline_init_def)
  with p' gateway_runs [OF run pipelineRun.refl, of stray] show ?thesis by blast
qed

section \<open>Properties\<close>

text \<open>C12: the engine under interleaving. However the accesses of the gateway's thread and of the engine's thread to the queue of
  requests interleave, whatever the requests are, the engine handles requests the queue has accepted, in the order in which they were
  published; a request is lost only if more than the capacity was published; and the gateway's thread cannot get stuck. As long as the
  requests handled so far were acceptable for the books, and every read outside \<open>qtyRemains\<close> gives some value, the books are those
  of the specification for them; and the engine's thread cannot get stuck either, unless the request it has in hand is not
  acceptable.\<close>

theorem engine_under_interleaving:
  assumes "MatchingEngine_init rx me = Inr E" "me_ok me" "0 < n"
    and "pipelineRun (\<lambda>b k. Some (f b k)) (Pipeline_init n E) p"
  defines "books \<equiv> foldl specHandle (\<lambda>_. emptyBook) (handled p)"
  shows "prefix (handled p) (accepted (pipeQueue p)) \<and> subseq (accepted (pipeQueue p)) (offered p) \<and>
    (length (offered p) \<le> n \<longrightarrow> prefix (accepted (pipeQueue p)) (offered p)) \<and> (\<exists>p'. gatewayMoves p p') \<and>
    (allowed acceptableAt specHandle (\<lambda>_. emptyBook) (handled p) \<longrightarrow>
      engineRepresents (pipeEngine p) books \<and>
      ((\<forall>r. inHand p = Some r \<longrightarrow> acceptableAt books r) \<longrightarrow> (\<exists>p'. engineMoves (\<lambda>b k. Some (f b k)) p p')))"
proof -
  have E: "engineRepresents (pipeEngine (Pipeline_init n E)) (\<lambda>_. emptyBook)"
    using MatchingEngine_init_ok [OF assms(2), of rx] assms(1) by (simp add: Pipeline_init_def)
  have inv: "pipe_inv n p" by (rule pipelineRun_inv [OF assms(4) Pipeline_init_inv [OF assms(3)]])
  have rep: "engineRepresents (pipeEngine p) books" if "allowed acceptableAt specHandle (\<lambda>_. emptyBook) (handled p)"
    unfolding books_def by (rule engine_in_step [OF assms(4) _ E that]) (simp add: Pipeline_init_def)
  have "prefix (accepted (pipeQueue p)) (onWay p)" by (simp add: onWay_def)
  then have "subseq (accepted (pipeQueue p)) (offered p) \<and> (length (offered p) \<le> n \<longrightarrow> prefix (accepted (pipeQueue p)) (offered p))"
    using inv by (auto simp: pipe_inv_def intro: subseq_order.order_trans prefix_imp_subseq)
  moreover have "prefix (handled p) (taken (pipeQueue p))" using inv by (simp add: pipe_inv_def)
  then have "prefix (handled p) (accepted (pipeQueue p))" using handled_prefix [OF inv] by (rule prefix_order.order_trans)
  ultimately show ?thesis using rep gateway_live [OF inv] engine_live [OF inv rep [unfolded books_def]] unfolding books_def by blast
qed

abbreviation pipeSample :: "OMEClientRequest list" where
  "pipeSample \<equiv> [sampleRequest Req_NEW 1 0 1 BUY 100 5, sampleRequest Req_NEW 2 7 1 SELL 90 3, sampleRequest Req_CANCEL 1 0 1 BUY 0 0]"

lemma pipeSample_allowed: "allowed acceptableAt specHandle (\<lambda>_. emptyBook) pipeSample"
  by (simp add: acceptableAt_def specHandle_def toRequest_def spec_eval)

lemma pipeSample_publish:
  "\<exists>p. pipelineRun stray (Pipeline_init 4 E) p \<and> accepted (pipeQueue p) = pipeSample \<and> offered p = pipeSample \<and>
    handled p = [] \<and> pipeEngine p = E"
  using publish_batch [of pipeSample 4 stray E] by auto

lemma engine_exists: "\<exists>E. MatchingEngine_init rx newQueues = Inr E"
  using MatchingEngine_init_ok [OF newQueues_ok, of rx] by blast

lemma pipeSample_handled:
  assumes "MatchingEngine_init rx newQueues = Inr E"
  shows "\<exists>p. pipelineRun strayZero (Pipeline_init 4 E) p \<and> handled p = pipeSample \<and> accepted (pipeQueue p) = pipeSample"
proof -
  obtain p where p: "pipelineRun strayZero (Pipeline_init 4 E) p" "accepted (pipeQueue p) = pipeSample" "handled p = []"
    "engineRepresents (pipeEngine p) (\<lambda>_. emptyBook)"
    using pipeSample_publish [of strayZero E] MatchingEngine_init_ok [OF newQueues_ok, of rx] assms by auto
  have "pipe_inv 4 p" by (rule pipelineRun_inv [OF p(1) Pipeline_init_inv]) simp
  moreover have "engineRepresents (pipeEngine p) (foldl specHandle (\<lambda>_. emptyBook) (handled p))"
    "allowed acceptableAt specHandle (\<lambda>_. emptyBook) (handled p)" using p(3,4) by simp_all
  ultimately obtain p' where p': "(engineMoves strayZero)\<^sup>*\<^sup>* p p'" "accepted (pipeQueue p') = accepted (pipeQueue p)"
    "handled p' = accepted (pipeQueue p) \<or> (\<exists>r. nextIs p' r \<and> \<not> acceptableAt (foldl specHandle (\<lambda>_. emptyBook) (handled p')) r)"
    using engine_catches [of 4 p "\<lambda>_. emptyBook" "\<lambda>_ _. 0"] by blast
  note p' = p' [unfolded p(2)]
  have "acceptableAt (foldl specHandle (\<lambda>_. emptyBook) (handled p')) r" if "nextIs p' r" for r
    using allowed_prefix [OF pipeSample_allowed that [unfolded p'(2)]] by (simp add: allowed_append)
  with p'(3) have "handled p' = pipeSample" by blast
  with engine_runs [OF p'(1) p(1)] p'(2) show ?thesis by blast
qed

text \<open>In a run that was published three requests the engine's thread can go on, until it has handled all of them.\<close>

theorem engine_under_interleaving_witness:
  "\<exists>E p p'. MatchingEngine_init (LFQueue_init OMEClientRequest_default 4) newQueues = Inr E \<and>
    pipelineRun strayZero (Pipeline_init 4 E) p \<and> handled p = pipeSample \<and> accepted (pipeQueue p) = pipeSample \<and>
    engineRepresents (pipeEngine p) (foldl specHandle (\<lambda>_. emptyBook) pipeSample) \<and> gatewayMoves p p'"
proof -
  obtain E where E: "MatchingEngine_init (LFQueue_init OMEClientRequest_default 4) newQueues = Inr E" using engine_exists by blast
  obtain p where p: "pipelineRun strayZero (Pipeline_init 4 E) p" "handled p = pipeSample" "accepted (pipeQueue p) = pipeSample"
    using pipeSample_handled [OF E] by blast
  have "allowed acceptableAt specHandle (\<lambda>_. emptyBook) (handled p)" unfolding p(2) by (rule pipeSample_allowed)
  with engine_under_interleaving [OF E newQueues_ok _ p(1)] E p show ?thesis by auto
qed

text \<open>C40: the engine catches up. Take any state an interleaving can lead to in which all requests handled were acceptable, every read
  outside \<open>qtyRemains\<close> giving some value. The engine's own steps, without any of the gateway's, lead to a state in which either
  every request the queue had accepted is handled, in order, or the engine has in hand the first of them that is not acceptable for
  the books its predecessors left; the books are those of the specification for what was handled. If all accepted requests are
  acceptable, all of them are handled.\<close>

theorem engine_catches_up:
  assumes "MatchingEngine_init rx me = Inr E" "me_ok me" "0 < n"
    and "pipelineRun (\<lambda>b k. Some (f b k)) (Pipeline_init n E) p"
    and "allowed acceptableAt specHandle (\<lambda>_. emptyBook) (handled p)"
  shows "\<exists>p'. (engineMoves (\<lambda>b k. Some (f b k)))\<^sup>*\<^sup>* p p' \<and>
    engineRepresents (pipeEngine p') (foldl specHandle (\<lambda>_. emptyBook) (handled p')) \<and>
    allowed acceptableAt specHandle (\<lambda>_. emptyBook) (handled p') \<and>
    (handled p' = accepted (pipeQueue p) \<or>
     (\<exists>r. prefix (handled p' @ [r]) (accepted (pipeQueue p)) \<and> inHand p' = Some r \<and>
        \<not> acceptableAt (foldl specHandle (\<lambda>_. emptyBook) (handled p')) r)) \<and>
    (allowed acceptableAt specHandle (\<lambda>_. emptyBook) (accepted (pipeQueue p)) \<longrightarrow> handled p' = accepted (pipeQueue p))"
proof -
  have E: "engineRepresents (pipeEngine (Pipeline_init n E)) (\<lambda>_. emptyBook)"
    using MatchingEngine_init_ok [OF assms(2), of rx] assms(1) by (simp add: Pipeline_init_def)
  have inv: "pipe_inv n p" by (rule pipelineRun_inv [OF assms(4) Pipeline_init_inv [OF assms(3)]])
  have rep: "engineRepresents (pipeEngine p) (foldl specHandle (\<lambda>_. emptyBook) (handled p))"
    by (rule engine_in_step [OF assms(4) _ E assms(5)]) (simp add: Pipeline_init_def)
  from engine_catches [OF inv rep assms(5), of f] obtain p' where p': "(engineMoves (\<lambda>b k. Some (f b k)))\<^sup>*\<^sup>* p p'"
    "engineRepresents (pipeEngine p') (foldl specHandle (\<lambda>_. emptyBook) (handled p'))"
    "allowed acceptableAt specHandle (\<lambda>_. emptyBook) (handled p')"
    "handled p' = accepted (pipeQueue p) \<or> (\<exists>r. prefix (handled p' @ [r]) (accepted (pipeQueue p)) \<and> inHand p' = Some r \<and>
        \<not> acceptableAt (foldl specHandle (\<lambda>_. emptyBook) (handled p')) r)" by (metis (no_types, lifting))
  have "acceptableAt (foldl specHandle (\<lambda>_. emptyBook) (handled p')) r"
    if "allowed acceptableAt specHandle (\<lambda>_. emptyBook) (accepted (pipeQueue p))" "prefix (handled p' @ [r]) (accepted (pipeQueue p))" for r
    using allowed_prefix [OF that] by (simp add: allowed_append)
  with p' show ?thesis by blast
qed

text \<open>Of three published requests, the third with a ticker there is no book for, the engine handles two and holds the third.\<close>

theorem engine_catches_up_witness:
  "\<exists>E p p'. MatchingEngine_init (LFQueue_init OMEClientRequest_default 4) newQueues = Inr E \<and>
    pipelineRun strayZero (Pipeline_init 4 E) p \<and>
    accepted (pipeQueue p) = [sampleRequest Req_NEW 1 0 1 BUY 100 5, sampleRequest Req_NEW 2 7 1 SELL 90 3, sampleRequest Req_NEW 1 8 1 BUY 7 7] \<and>
    (engineMoves strayZero)\<^sup>*\<^sup>* p p' \<and>
    handled p' = [sampleRequest Req_NEW 1 0 1 BUY 100 5, sampleRequest Req_NEW 2 7 1 SELL 90 3]"
proof -
  let ?B = "\<lambda>_. emptyBook"
  define r1 r2 r3 where r: "r1 = sampleRequest Req_NEW 1 0 1 BUY 100 5" "r2 = sampleRequest Req_NEW 2 7 1 SELL 90 3"
    "r3 = sampleRequest Req_NEW 1 8 1 BUY 7 7"
  have ok: "acceptableAt ?B r1" "acceptableAt (specHandle ?B r1) r2" and bad: "\<not> acceptableAt (specHandle (specHandle ?B r1) r2) r3"
    by (simp_all add: r acceptableAt_def specHandle_def toRequest_def spec_eval)
  obtain E where E: "MatchingEngine_init (LFQueue_init OMEClientRequest_default 4) newQueues = Inr E" using engine_exists by blast
  obtain p where p: "pipelineRun strayZero (Pipeline_init 4 E) p" "accepted (pipeQueue p) = [r1, r2, r3]" "handled p = []"
    using publish_batch [of "[r1, r2, r3]" 4 strayZero E] by auto
  have "allowed acceptableAt specHandle ?B (handled p)" using p(3) by simp
  from engine_catches_up [OF E newQueues_ok _ p(1) this] obtain p' where p': "(engineMoves strayZero)\<^sup>*\<^sup>* p p'"
    "allowed acceptableAt specHandle ?B (handled p')"
    "handled p' = [r1, r2, r3] \<or> (\<exists>r. prefix (handled p' @ [r]) [r1, r2, r3] \<and> \<not> acceptableAt (foldl specHandle ?B (handled p')) r)"
    unfolding p(2) by auto
  have "handled p' \<noteq> [r1, r2, r3]" using p'(2) bad by auto
  then obtain r ys where "handled p' @ r # ys = [r1, r2, r3]" "\<not> acceptableAt (foldl specHandle ?B (handled p')) r"
    using p'(3) by (auto simp: prefix_def)
  then have "handled p' = [r1, r2]" using ok by (auto simp: append_eq_Cons_conv)
  with E p(1,2) p'(1) show ?thesis unfolding r by blast
qed

end
