(* ===== verification/System_Utils.thy ===== *)
theory System_Utils
  imports Exchange_Types "HOL-Library.Signed_Division"
begin

text \<open>
  Times as text (src/src/lib/time_utils.h) and the start of threads (src/src/lib/thread_utils.h), in
  the Linux build. The clock, the conversion to local time, and the answers of the calls on threads are arguments.
\<close>

section \<open>Time\<close>

text \<open>The part of \<open>std::tm\<close> that is printed: the month counts from 0, the year from 1900.\<close>

record tm =
  tm_sec :: int
  tm_min :: int
  tm_hour :: int
  tm_mday :: int
  tm_mon :: int
  tm_year :: int

text \<open>The clock counts nanoseconds since the epoch; a conversion to seconds truncates towards zero.\<close>

definition getCurrentNanos :: "int \<Rightarrow> Nanos" where
  "getCurrentNanos now = word_of_int now"

definition to_time_t :: "int \<Rightarrow> int" where
  "to_time_t nanos = nanos sdiv 1000000000"

text \<open>\<open>std::put_time\<close> with the format of the code: two digits for everything but the year.\<close>

definition twoDigits :: "int \<Rightarrow> string" where
  "twoDigits n = (if n < 10 then ''0'' @ to_string_int n else to_string_int n)"

definition putTime :: "tm \<Rightarrow> string" where
  "putTime t = to_string_int (tm_year t + 1900) @ ''-'' @ twoDigits (tm_mon t + 1) @ ''-'' @ twoDigits (tm_mday t) @ '' '' @
     twoDigits (tm_hour t) @ '':'' @ twoDigits (tm_min t) @ '':'' @ twoDigits (tm_sec t)"

definition getCurrentTimeStr :: "(int \<Rightarrow> tm) \<Rightarrow> int \<Rightarrow> string" where
  "getCurrentTimeStr localtime now = putTime (localtime (to_time_t now))"

definition convertNanosToTimeStr :: "(int \<Rightarrow> tm) \<Rightarrow> Nanos \<Rightarrow> string" where
  "convertNanosToTimeStr localtime nanos = putTime (localtime (to_time_t (sint nanos)))"

text \<open>The ranges \<open>localtime_r\<close> stays in.\<close>

definition tm_ok :: "tm \<Rightarrow> bool" where
  "tm_ok t \<longleftrightarrow> 0 \<le> tm_sec t \<and> tm_sec t \<le> 60 \<and> 0 \<le> tm_min t \<and> tm_min t \<le> 59 \<and> 0 \<le> tm_hour t \<and> tm_hour t \<le> 23 \<and>
     1 \<le> tm_mday t \<and> tm_mday t \<le> 31 \<and> 0 \<le> tm_mon t \<and> tm_mon t \<le> 11"

lemma length_twoDigits: "0 \<le> n \<Longrightarrow> n < 100 \<Longrightarrow> length (twoDigits n) = 2"
  by (auto simp: twoDigits_def to_string_int_def to_string_nat.simps)

lemma twoDigits_inj:
  assumes "0 \<le> n" "n < 100" "0 \<le> m" "m < 100"
  shows "twoDigits n = twoDigits m \<longleftrightarrow> n = m"
proof
  assume e: "twoDigits n = twoDigits m"
  have parse: "parse_nat (twoDigits k) = nat k" if "0 \<le> k" for k
  proof -
    have "parse_nat (CHR ''0'' # s) = parse_nat s" for s by (simp add: parse_nat_def digit_val_def)
    then show ?thesis using that parse_to_string_nat by (simp add: twoDigits_def to_string_int_def)
  qed
  from arg_cong [OF e, of parse_nat] assms show "n = m" by (simp add: parse)
qed simp

text \<open>The text shows the whole local time: different times have different texts.\<close>

theorem time_text_injective:
  assumes "tm_ok t" "tm_ok u"
  shows "putTime t = putTime u \<longleftrightarrow> t = u"
proof
  assume e: "putTime t = putTime u"
  have r: "0 \<le> tm_mon v + 1" "tm_mon v + 1 < 100" "0 \<le> tm_mday v" "tm_mday v < 100" "0 \<le> tm_hour v" "tm_hour v < 100"
    "0 \<le> tm_min v" "tm_min v < 100" "0 \<le> tm_sec v" "tm_sec v < 100" if "v \<in> {t, u}" for v
    using that assms by (auto simp: tm_ok_def)
  note len = length_twoDigits [OF r(1,2)] length_twoDigits [OF r(3,4)] length_twoDigits [OF r(5,6)] length_twoDigits [OF r(7,8)]
    length_twoDigits [OF r(9,10)]
  have "to_string_int (tm_year t + 1900) = to_string_int (tm_year u + 1900) \<and> twoDigits (tm_mon t + 1) = twoDigits (tm_mon u + 1) \<and>
      twoDigits (tm_mday t) = twoDigits (tm_mday u) \<and> twoDigits (tm_hour t) = twoDigits (tm_hour u) \<and>
      twoDigits (tm_min t) = twoDigits (tm_min u) \<and> twoDigits (tm_sec t) = twoDigits (tm_sec u)"
    using e len [of t] len [of u] unfolding putTime_def by (simp add: append_eq_append_conv)
  then have "tm_year t = tm_year u" "tm_mon t = tm_mon u" "tm_mday t = tm_mday u" "tm_hour t = tm_hour u" "tm_min t = tm_min u"
    "tm_sec t = tm_sec u" using r [of t] r [of u] by (auto simp: twoDigits_inj to_string_int_inj)
  then show "t = u" by simp
qed simp

theorem time_text_injective_witness:
  "putTime \<lparr>tm_sec = 7, tm_min = 5, tm_hour = 9, tm_mday = 11, tm_mon = 7, tm_year = 124\<rparr> = ''2024-08-11 09:05:07'' \<and>
   putTime \<lparr>tm_sec = 8, tm_min = 5, tm_hour = 9, tm_mday = 11, tm_mon = 7, tm_year = 124\<rparr> \<noteq>
     putTime \<lparr>tm_sec = 7, tm_min = 5, tm_hour = 9, tm_mday = 11, tm_mon = 7, tm_year = 124\<rparr>"
proof
  let ?t = "\<lparr>tm_sec = 7, tm_min = 5, tm_hour = 9, tm_mday = 11, tm_mon = 7, tm_year = 124\<rparr>"
  let ?u = "\<lparr>tm_sec = 8, tm_min = 5, tm_hour = 9, tm_mday = 11, tm_mon = 7, tm_year = 124\<rparr>"
  show "putTime ?t = ''2024-08-11 09:05:07''" by code_simp
  show "putTime ?u \<noteq> putTime ?t" using time_text_injective [of ?u ?t] by (simp add: tm_ok_def)
qed

text \<open>An instant and every other one in its second have the same text; before the epoch truncation rounds up, so that the
  second before and the second after the epoch share theirs.\<close>

lemma to_time_t_nonneg: "0 \<le> n \<Longrightarrow> to_time_t n = n div 1000000000"
  by (cases "n = 0") (simp_all add: to_time_t_def signed_divide_int_def sgn_if)

lemma to_time_t_epoch: "- 1000000000 < n \<Longrightarrow> n < 1000000000 \<Longrightarrow> to_time_t n = 0"
  by (auto simp: to_time_t_def signed_divide_int_def sgn_if)

section \<open>Threads\<close>

text \<open>\<open>CPU_SET\<close> ignores a number beyond the set; the system then gets an empty set. The argument says which sets
  of processors \<open>pthread_setaffinity_np\<close> accepts.\<close>

definition CPU_SETSIZE :: int where
  "CPU_SETSIZE = 1024"

definition setThreadCoreAffinity :: "(int set \<Rightarrow> bool) \<Rightarrow> int \<Rightarrow> bool" where
  "setThreadCoreAffinity accepts core_id = accepts (if core_id < CPU_SETSIZE then {core_id} else {})"

text \<open>The start of a thread: a failure to create it is an exception in a \<open>noexcept\<close> function. In the new thread a
  failure to set the affinity is reported and ends the process; otherwise the function runs.\<close>

definition createAndStartThread :: "bool \<Rightarrow> unit res" where
  "createAndStartThread created = (if created then Inr () else Inl (Uncaught ''std::system_error''))"

definition threadBody :: "(int set \<Rightarrow> bool) \<Rightarrow> int \<Rightarrow> string \<Rightarrow> ('s \<Rightarrow> 's res) \<Rightarrow> 's \<Rightarrow> 's res" where
  "threadBody accepts core_id name function s =
     (if core_id \<ge> 0 \<and> \<not> setThreadCoreAffinity accepts core_id
      then Inl (AssertFailed (''Failed to set core affinity for '' @ name))
      else function s)"

text \<open>A thread runs its function exactly if no processor is asked for or the one asked for is there; a number of 1024 or
  more always ends the process, as the system accepts no empty set.\<close>

theorem thread_runs_iff:
  assumes "\<not> accepts {}" "f s = Inr s'"
  shows "threadBody accepts core_id name f s = Inr s' \<longleftrightarrow> core_id < 0 \<or> core_id < CPU_SETSIZE \<and> accepts {core_id}"
  using assms by (auto simp: threadBody_def setThreadCoreAffinity_def)

theorem thread_runs_iff_witness:
  "threadBody (\<lambda>cs. cs = {0} \<or> cs = {1}) (- 1) ''OME'' (\<lambda>n. Inr (n + 1)) (4 :: nat) = Inr 5 \<and>
   threadBody (\<lambda>cs. cs = {0} \<or> cs = {1}) 2048 ''OME'' (\<lambda>n. Inr (n + 1)) (4 :: nat) \<noteq> Inr 5"
  by (subst (1 2) thread_runs_iff) (simp_all add: CPU_SETSIZE_def)

end
