(* ===== verification/Logger.thy ===== *)
theory Logger
  imports LF_Queue System_Utils
begin

text \<open>
  \<open>utils::Logger\<close> (src/src/lib/logger.h, logger.cpp): messages are queued with their arguments and
  formatted and written in batches by a thread of the logger. The time text, and whether the file can be
  opened and written, are arguments.
\<close>

section \<open>Arguments\<close>

text \<open>
  The contents of a \<open>std::any\<close>, by the types the code tells apart. A floating-point value is given
  by its \<open>std::to_string\<close>, any other type by its name. On Linux \<open>Nanos\<close> and \<open>long\<close>
  are one type, so the branch for \<open>Nanos\<close> is never reached.
\<close>

datatype any =
    AnyInt "32 word"
  | AnySize "64 word"
  | AnyDouble string
  | AnyLong "64 word"
  | AnyFloat string
  | AnyChar char
  | AnyBool bool
  | AnyString string
  | AnyCharPtr string
  | AnyOther string

text \<open>\<open>std::string{1, c}\<close> is the list of the two characters 1 and \<open>c\<close>.\<close>

fun anyToString :: "any \<Rightarrow> string" where
  "anyToString (AnyInt n) = to_string_int (sint n)"
| "anyToString (AnySize n) = to_string_nat (unat n)"
| "anyToString (AnyDouble s) = s"
| "anyToString (AnyLong n) = to_string_int (sint n)"
| "anyToString (AnyFloat s) = s"
| "anyToString (AnyChar c) = [CHR 0x01, c]"
| "anyToString (AnyBool b) = (if b then ''true'' else ''false'')"
| "anyToString (AnyString s) = s"
| "anyToString (AnyCharPtr s) = s"
| "anyToString (AnyOther ty) = ''Unsupported type: '' @ ty"

section \<open>Formatting\<close>

text \<open>The loop of \<open>formatMessage\<close>: position, text so far, arguments left. After a replacement the
  position is moved by the length of the argument less one, and the loop adds one: in unsigned
  arithmetic this is the length, also when it is zero.\<close>

function formatLoop :: "nat \<Rightarrow> string \<Rightarrow> any list \<Rightarrow> string" where
  "formatLoop i result args =
     (if i < length result
      then (if result ! i = CHR ''{'' \<and> i + 1 < length result \<and> result ! (i + 1) = CHR ''}'' \<and> args \<noteq> []
            then (let arg_str = anyToString (hd args) in
                  formatLoop (i + length arg_str) (take i result @ arg_str @ drop (i + 2) result) (tl args))
            else formatLoop (i + 1) result args)
      else result)"
  by pat_completeness auto
termination
  by (relation "measures [\<lambda>(i, result, args). length args, \<lambda>(i, result, args). length result - i]") auto

declare formatLoop.simps [simp del]

definition formatMessage :: "string \<Rightarrow> any list \<Rightarrow> string" where
  "formatMessage format_string args = formatLoop 0 format_string args"

datatype LogLevel = DEBUG | INFO | WARNING | ERROR

fun logLevelStr :: "LogLevel \<Rightarrow> string" where
  "logLevelStr DEBUG = ''DEBUG''"
| "logLevelStr INFO = ''INFO''"
| "logLevelStr WARNING = ''WARNING''"
| "logLevelStr ERROR = ''ERROR''"

record LogElement =
  log_level :: LogLevel
  formatString :: string
  log_args :: "any list"

definition appendToBuffer :: "string \<Rightarrow> LogElement \<Rightarrow> string \<Rightarrow> string" where
  "appendToBuffer time elem buffer =
     buffer @ ''['' @ time @ ''] ['' @ logLevelStr (log_level elem) @ ''] '' @
     formatMessage (formatString elem) (log_args elem) @ [CHR 0x0A]"

section \<open>The logger\<close>

definition LOG_QUEUE_SIZE :: nat where
  "LOG_QUEUE_SIZE = 8 * 1024 * 1024"

text \<open>The file is its contents, as far as the stream has not failed.\<close>

record Logger =
  logFile :: string
  fileGood :: bool
  logQueue :: "LogElement LFQueue"
  running :: bool

definition setLogFile :: "Logger \<Rightarrow> string option \<Rightarrow> Logger res" where
  "setLogFile L opened =
     (case opened of None \<Rightarrow> Inl (AssertFailed ''Failed to open log file'')
      | Some old \<Rightarrow> Inr (L\<lparr>logFile := old, fileGood := True\<rparr>))"

definition Logger_init :: "LogElement \<Rightarrow> string option \<Rightarrow> Logger res" where
  "Logger_init d opened =
     setLogFile \<lparr>logFile = [], fileGood = False, logQueue = LFQueue_init d LOG_QUEUE_SIZE, running = True\<rparr> opened"

text \<open>\<open>log\<close>: an element that does not fit is dropped.\<close>

definition log :: "Logger \<Rightarrow> LogLevel \<Rightarrow> string \<Rightarrow> any list \<Rightarrow> Logger res" where
  "log L level format_string args =
     bind_res (push (logQueue L) \<lparr>log_level = level, formatString = format_string, log_args = args\<rparr>) (\<lambda>(ok, q).
       Inr (L\<lparr>logQueue := q\<rparr>))"

text \<open>\<open>writeToFile\<close>, given whether the write succeeds: a failure is reported on the console, and the
  stream stays failed.\<close>

definition writeToFile :: "bool \<Rightarrow> Logger \<Rightarrow> string \<Rightarrow> Logger" where
  "writeToFile ok L buffer =
     (if fileGood L \<and> ok then L\<lparr>logFile := logFile L @ buffer\<rparr> else L\<lparr>fileGood := False\<rparr>)"

text \<open>The inner loop of \<open>flushQueue\<close>: up to the given number of elements, each with the time at which
  it is formatted.\<close>

fun collect :: "nat \<Rightarrow> (nat \<Rightarrow> string) \<Rightarrow> LogElement LFQueue \<Rightarrow> string \<Rightarrow> (string \<times> LogElement LFQueue) res" where
  "collect 0 time q buffer = Inr (buffer, q)"
| "collect (Suc n) time q buffer =
     (if size_q q = 0 then Inr (buffer, q)
      else bind_res (pop q) (\<lambda>(next, q').
        collect n (\<lambda>k. time (Suc k)) q' (case next of None \<Rightarrow> buffer | Some e \<Rightarrow> appendToBuffer (time 0) e buffer)))"

definition flushBatch :: "(nat \<Rightarrow> string) \<Rightarrow> bool \<Rightarrow> Logger \<Rightarrow> Logger res" where
  "flushBatch time ok L =
     bind_res (collect 100 time (logQueue L) []) (\<lambda>(buffer, q).
       Inr (if buffer \<noteq> [] then writeToFile ok (L\<lparr>logQueue := q\<rparr>) buffer else L\<lparr>logQueue := q\<rparr>))"

text \<open>Rounds of \<open>flushQueue\<close>, as long as the logger runs, each with its times and with whether its
  write succeeds.\<close>

fun flushQueue :: "((nat \<Rightarrow> string) \<times> bool) list \<Rightarrow> Logger \<Rightarrow> Logger res" where
  "flushQueue [] L = Inr L"
| "flushQueue ((time, ok) # rounds) L =
     (if running L then bind_res (flushBatch time ok L) (\<lambda>L'. flushQueue rounds L') else Inr L)"

text \<open>The destructor: the flag is cleared; a round that has begun is finished, then the thread ends and
  the file is closed.\<close>

definition Logger_destroy :: "bool \<Rightarrow> (nat \<Rightarrow> string) \<Rightarrow> bool \<Rightarrow> Logger \<Rightarrow> Logger res" where
  "Logger_destroy inRound time ok L =
     bind_res (if inRound then flushBatch time ok L else Inr L) (\<lambda>L'. flushQueue [(time, ok)] (L'\<lparr>running := False\<rparr>))"

text \<open>\<open>getInstance\<close>: the first call makes the logger, with the file it names; later calls return that one, whatever
  they name. The macros log through it.\<close>

definition getInstance :: "LogElement \<Rightarrow> string option \<Rightarrow> Logger option \<Rightarrow> Logger res" where
  "getInstance d opened inst = (case inst of None \<Rightarrow> Logger_init d opened | Some L \<Rightarrow> Inr L)"

definition logThrough :: "LogElement \<Rightarrow> string option \<Rightarrow> Logger option \<Rightarrow> LogLevel \<times> string \<times> any list \<Rightarrow> Logger option res" where
  "logThrough d opened inst call =
     (case call of (level, msg, args) \<Rightarrow>
       bind_res (getInstance d opened inst) (\<lambda>L. bind_res (log L level msg args) (\<lambda>L'. Inr (Some L'))))"

definition LOG_INFO :: "LogElement \<Rightarrow> string option \<Rightarrow> Logger option \<Rightarrow> string \<Rightarrow> any list \<Rightarrow> Logger option res" where
  "LOG_INFO d opened inst msg args = logThrough d opened inst (INFO, msg, args)"

definition LOG_DEBUG :: "LogElement \<Rightarrow> string option \<Rightarrow> Logger option \<Rightarrow> string \<Rightarrow> any list \<Rightarrow> Logger option res" where
  "LOG_DEBUG d opened inst msg args = logThrough d opened inst (DEBUG, msg, args)"

definition LOG_WARNING :: "LogElement \<Rightarrow> string option \<Rightarrow> Logger option \<Rightarrow> string \<Rightarrow> any list \<Rightarrow> Logger option res" where
  "LOG_WARNING d opened inst msg args = logThrough d opened inst (WARNING, msg, args)"

definition LOG_ERROR :: "LogElement \<Rightarrow> string option \<Rightarrow> Logger option \<Rightarrow> string \<Rightarrow> any list \<Rightarrow> Logger option res" where
  "LOG_ERROR d opened inst msg args = logThrough d opened inst (ERROR, msg, args)"

section \<open>Formatting, without positions\<close>

text \<open>The same text by recursion over the format: each pair of braces takes one argument, and what is
  inserted is not looked at again.\<close>

fun interpolate :: "string \<Rightarrow> any list \<Rightarrow> string" where
  "interpolate fs [] = fs"
| "interpolate [] (a # as) = []"
| "interpolate [c] (a # as) = [c]"
| "interpolate (c # d # fs) (a # as) =
     (if c = CHR ''{'' \<and> d = CHR ''}'' then anyToString a @ interpolate fs as else c # interpolate (d # fs) (a # as))"

lemma formatLoop_done: "formatLoop i result [] = result"
proof (induction "length result - i" arbitrary: i)
  case 0
  then show ?case by (subst formatLoop.simps) simp
next
  case (Suc n)
  then show ?case by (subst formatLoop.simps) simp
qed

lemma formatLoop_interpolates: "formatLoop (length pre) (pre @ fs) args = pre @ interpolate fs args"
proof (induction fs args arbitrary: pre rule: interpolate.induct)
  case (1 fs)
  show ?case by (simp add: formatLoop_done)
next
  case (2 a as)
  show ?case by (subst formatLoop.simps) simp
next
  case (3 c a as)
  have "formatLoop (Suc (length pre)) (pre @ [c]) (a # as) = pre @ [c]" by (subst formatLoop.simps) simp
  then show ?case by (subst formatLoop.simps) simp
next
  case (4 c d fs a as)
  show ?case
  proof (cases "c = CHR ''{'' \<and> d = CHR ''}''")
    case True
    with "4.IH"(1) [OF True, of "pre @ anyToString a"] show ?thesis
      by (subst formatLoop.simps) (simp add: nth_append Let_def)
  next
    case False
    with "4.IH"(2) [OF False, of "pre @ [c]"] show ?thesis
      by (subst formatLoop.simps) (auto simp: nth_append)
  qed
qed

section \<open>Batches\<close>

text \<open>The text of a list of elements.\<close>

fun linesOf :: "(nat \<Rightarrow> string) \<Rightarrow> LogElement list \<Rightarrow> string" where
  "linesOf time [] = []"
| "linesOf time (e # es) = appendToBuffer (time 0) e [] @ linesOf (\<lambda>k. time (Suc k)) es"

lemma appendToBuffer_append: "appendToBuffer t e buffer = buffer @ appendToBuffer t e []"
  by (simp add: appendToBuffer_def)

lemma collect_takes:
  assumes "queue_wf q"
  shows "\<exists>q'. collect n time q buffer = Inr (buffer @ linesOf time (take n (contents q)), q') \<and> queue_wf q' \<and>
    contents q' = drop n (contents q)"
  using assms
proof (induction n arbitrary: time q buffer)
  case (Suc n)
  show ?case
  proof (cases "contents q")
    case Nil
    then have "size_q q = 0" by (metis size_q_def length_contents list.size(3))
    with Nil Suc.prems show ?thesis by simp
  next
    case (Cons e es)
    then have "size_q q \<noteq> 0" by (metis size_q_def length_contents length_0_conv list.distinct(1))
    moreover obtain q1 where "pop q = Inr (Some e, q1)" "queue_wf q1" "contents q1 = es" using pop_some [OF Suc.prems Cons] by blast
    ultimately show ?thesis
      using Suc.IH [of q1 "\<lambda>k. time (Suc k)" "appendToBuffer (time 0) e buffer"] Cons by (simp add: appendToBuffer_append [of _ _ buffer])
  qed
qed simp

lemma linesOf_nonempty: "linesOf time es = [] \<longleftrightarrow> es = []"
  by (cases es) (simp_all add: appendToBuffer_def)

lemma flushBatch_writes:
  assumes "queue_wf (logQueue L)" "fileGood L"
  shows "\<exists>L'. flushBatch time True L = Inr L' \<and> queue_wf (logQueue L') \<and> contents (logQueue L') = drop 100 (contents (logQueue L)) \<and>
    logFile L' = logFile L @ linesOf time (take 100 (contents (logQueue L))) \<and> fileGood L' \<and> running L' = running L"
proof -
  obtain q where q: "collect 100 time (logQueue L) [] = Inr (linesOf time (take 100 (contents (logQueue L))), q)" "queue_wf q"
    "contents q = drop 100 (contents (logQueue L))" using collect_takes [OF assms(1), of 100 time "[]"] by auto
  show ?thesis
  proof (cases "linesOf time (take 100 (contents (logQueue L))) = []")
    case True
    then show ?thesis using q assms(2) by (simp add: flushBatch_def)
  next
    case False
    then show ?thesis using q assms(2) by (simp add: flushBatch_def writeToFile_def)
  qed
qed

text \<open>The text of several rounds of at most 100 elements.\<close>

fun linesIn :: "((nat \<Rightarrow> string) \<times> bool) list \<Rightarrow> LogElement list \<Rightarrow> string" where
  "linesIn [] es = []"
| "linesIn ((time, ok) # rounds) es = linesOf time (take 100 es) @ linesIn rounds (drop 100 es)"

lemma flushQueue_writes:
  assumes "queue_wf (logQueue L)" "fileGood L" "running L" "\<forall>r\<in>set rounds. snd r"
  shows "\<exists>L'. flushQueue rounds L = Inr L' \<and> contents (logQueue L') = drop (100 * length rounds) (contents (logQueue L)) \<and>
    logFile L' = logFile L @ linesIn rounds (contents (logQueue L))"
  using assms
proof (induction rounds arbitrary: L)
  case (Cons r rounds)
  obtain time where r: "r = (time, True)" using Cons.prems(4) by (cases r) simp
  from flushBatch_writes [OF Cons.prems(1,2), of time] Cons.prems(3) obtain L1 where
    "flushBatch time True L = Inr L1" "queue_wf (logQueue L1)" "contents (logQueue L1) = drop 100 (contents (logQueue L))"
    "logFile L1 = logFile L @ linesOf time (take 100 (contents (logQueue L)))" "fileGood L1" "running L1" by auto
  with Cons.IH [of L1] Cons.prems(3,4) show ?case by (auto simp: add.commute r)
qed simp

section \<open>Logging through the instance\<close>

definition toElement :: "LogLevel \<times> string \<times> any list \<Rightarrow> LogElement" where
  "toElement call = (case call of (level, msg, args) \<Rightarrow> \<lparr>log_level = level, formatString = msg, log_args = args\<rparr>)"

text \<open>All calls go to one logger: none of them fails, its file stays the one of the first call, and the queue gets the
  messages in the order of the calls as far as there is room.\<close>

lemma logThrough_one:
  assumes "queue_wf (logQueue L)"
  shows "\<exists>q. logThrough d opened (Some L) call = Inr (Some (L\<lparr>logQueue := q\<rparr>)) \<and> queue_wf q \<and>
    vsize (queue q) = vsize (queue (logQueue L)) \<and>
    contents q = take (vsize (queue (logQueue L))) (contents (logQueue L) @ [toElement call])"
proof -
  obtain level msg args where c: "call = (level, msg, args)" by (cases call)
  obtain ok q where q: "push (logQueue L) (toElement call) = Inr (ok, q)" "queue_wf q" "vsize (queue q) = vsize (queue (logQueue L))"
    "contents q = take (vsize (queue (logQueue L))) (contents (logQueue L) @ [toElement call])"
    using lfq.offer_total [OF assms, of "[toElement call]"] by auto
  then show ?thesis by (intro exI [of _ q]) (simp add: c logThrough_def getInstance_def log_def toElement_def)
qed

theorem one_logger_serves_all:
  assumes "queue_wf (logQueue L)"
  shows "\<exists>L'. runAll (\<lambda>inst (opened, call). logThrough d opened inst call) (Some L) calls = Inr (Some L') \<and>
    logFile L' = logFile L \<and> running L' = running L \<and>
    contents (logQueue L') = take (vsize (queue (logQueue L))) (contents (logQueue L) @ map (toElement \<circ> snd) calls)"
  using assms
proof (induction calls arbitrary: L)
  case Nil
  then show ?case using queue_wf_le [of "logQueue L"] by simp
next
  case (Cons c calls)
  obtain opened call where c: "c = (opened, call)" by (cases c)
  obtain q where q: "logThrough d opened (Some L) call = Inr (Some (L\<lparr>logQueue := q\<rparr>))" "queue_wf q"
    "vsize (queue q) = vsize (queue (logQueue L))"
    "contents q = take (vsize (queue (logQueue L))) (contents (logQueue L) @ [toElement call])"
    using logThrough_one [OF Cons.prems] by blast
  have "take n (take n (xs @ [y]) @ ys) = take n (xs @ y # ys)" for n xs and y :: LogElement and ys
    by (cases "length xs < n") (simp_all add: take_append)
  with Cons.IH [of "L\<lparr>logQueue := q\<rparr>"] q show ?case by (auto simp: c simp del: take_append)
qed

theorem one_logger_serves_all_witness:
  "\<exists>L L'. Logger_init (toElement (INFO, [], [])) (Some []) = Inr L \<and>
    runAll (\<lambda>inst (opened, call). logThrough (toElement (INFO, [], [])) opened inst call) (Some L)
      [(None, (INFO, ''a'', [])), (Some ''other'', (ERROR, ''b'', []))] = Inr (Some L') \<and>
    logFile L' = [] \<and> map formatString (contents (logQueue L')) = [''a'', ''b'']"
proof -
  let ?calls = "[(None, (INFO, ''a'', [])), (Some ''other'', (ERROR, ''b'', []))]"
  obtain L where L: "Logger_init (toElement (INFO, [], [])) (Some []) = Inr L" "logFile L = []"
    "logQueue L = LFQueue_init (toElement (INFO, [], [])) LOG_QUEUE_SIZE" unfolding Logger_init_def setLogFile_def by simp
  have wf: "queue_wf (logQueue L)" by (simp add: L(3) LFQueue_init_wf LOG_QUEUE_SIZE_def)
  from one_logger_serves_all [OF wf, of "toElement (INFO, [], [])" ?calls] obtain L' where
    "runAll (\<lambda>inst (opened, call). logThrough (toElement (INFO, [], [])) opened inst call) (Some L) ?calls = Inr (Some L')"
    "logFile L' = []" "contents (logQueue L') = take (vsize (queue (logQueue L))) (contents (logQueue L) @ map (toElement \<circ> snd) ?calls)"
    unfolding L(2) by (elim exE conjE)
  moreover from this(3) have "map formatString (contents (logQueue L')) = [''a'', ''b'']"
    by (simp add: L(3) LOG_QUEUE_SIZE_def toElement_def)
  ultimately show ?thesis using L(1) by (intro exI [of _ L] exI [of _ L'] conjI)
qed

section \<open>Properties\<close>

text \<open>C35: the loop of \<open>formatMessage\<close>, which replaces in the middle of the text it walks over, computes the same as
  the plain recursion over the format: every pair of braces takes the next argument as long as there is one, nothing else
  changes, and braces inside an inserted argument are left alone.\<close>

theorem formatMessage_interpolates: "formatMessage fs args = interpolate fs args"
  using formatLoop_interpolates [of "[]" fs args] by (simp add: formatMessage_def)

text \<open>C36: while the logger runs and its writes succeed, rounds enough for the waiting elements write them all, each as
  one line, in the order in which they were logged.\<close>

theorem logger_writes_in_order:
  assumes "queue_wf (logQueue L)" "fileGood L" "running L" "\<forall>r\<in>set rounds. snd r" "length (contents (logQueue L)) \<le> 100 * length rounds"
  shows "\<exists>L'. flushQueue rounds L = Inr L' \<and> contents (logQueue L') = [] \<and>
    logFile L' = logFile L @ linesIn rounds (contents (logQueue L))"
  using flushQueue_writes [OF assms(1-4)] assms(5) by auto

abbreviation sampleEntry :: "any list \<Rightarrow> LogElement" where
  "sampleEntry as \<equiv> \<lparr>log_level = INFO, formatString = ''a {}'', log_args = as\<rparr>"

abbreviation sampleLogger :: "LogElement LFQueue \<Rightarrow> Logger" where
  "sampleLogger q \<equiv> \<lparr>logFile = [], fileGood = True, logQueue = q, running = True\<rparr>"

theorem logger_writes_in_order_witness:
  "\<exists>q L'. offer push (LFQueue_init (sampleEntry []) 4) [sampleEntry [AnyBool True], sampleEntry []] = Inr q \<and>
    flushQueue [(\<lambda>_. ''12:00'', True)] (sampleLogger q) = Inr L' \<and>
    logFile L' = ''[12:00] [INFO] a true'' @ [CHR 0x0A] @ ''[12:00] [INFO] a {}'' @ [CHR 0x0A]"
proof -
  let ?es = "[sampleEntry [AnyBool True], sampleEntry []]"
  obtain q where q: "offer push (LFQueue_init (sampleEntry []) 4) ?es = Inr q" "queue_wf q" "contents q = ?es"
    using lfq.offer_total [OF LFQueue_init_wf, of 4 "sampleEntry []" ?es] by auto
  have len: "length (contents (logQueue (sampleLogger q))) \<le> 100 * length [(\<lambda>_ :: nat. ''12:00'', True)]" unfolding Logger.simps q(3) by simp
  obtain L' where "flushQueue [(\<lambda>_. ''12:00'', True)] (sampleLogger q) = Inr L'" "logFile L' = linesIn [(\<lambda>_. ''12:00'', True)] ?es"
    using logger_writes_in_order [OF _ _ _ _ len] q(2,3) by auto
  moreover have "linesIn [(\<lambda>_. ''12:00'', True)] ?es = ''[12:00] [INFO] a true'' @ [CHR 0x0A] @ ''[12:00] [INFO] a {}'' @ [CHR 0x0A]"
    using formatLoop_interpolates [of "[]"] by (simp add: appendToBuffer_def formatMessage_def)
  ultimately show ?thesis using q(1) by auto
qed

text \<open>C37: the destructor writes at most what one round takes: of the elements that are still waiting, all behind the first 100,
  or all of them when no round has begun, never reach the file.\<close>

theorem logger_destructor_drops:
  assumes "queue_wf (logQueue L)" "fileGood L" "running L"
  shows "\<exists>L'. Logger_destroy inRound time True L = Inr L' \<and>
    logFile L' = logFile L @ linesOf time (take (if inRound then 100 else 0) (contents (logQueue L))) \<and>
    contents (logQueue L') = drop (if inRound then 100 else 0) (contents (logQueue L))"
proof (cases inRound)
  case True
  with flushBatch_writes [OF assms(1,2), of time] show ?thesis by (auto simp: Logger_destroy_def)
qed (simp add: Logger_destroy_def)

theorem logger_destructor_drops_witness:
  "\<exists>q L'. offer push (LFQueue_init (sampleEntry []) 4) [sampleEntry [AnyBool True], sampleEntry []] = Inr q \<and>
    Logger_destroy False (\<lambda>_. ''12:00'') True (sampleLogger q) = Inr L' \<and> logFile L' = [] \<and>
    contents (logQueue L') = [sampleEntry [AnyBool True], sampleEntry []]"
proof -
  let ?es = "[sampleEntry [AnyBool True], sampleEntry []]"
  obtain q where q: "offer push (LFQueue_init (sampleEntry []) 4) ?es = Inr q" "queue_wf q" "contents q = ?es"
    using lfq.offer_total [OF LFQueue_init_wf, of 4 "sampleEntry []" ?es] by auto
  obtain L' where "Logger_destroy False (\<lambda>_. ''12:00'') True (sampleLogger q) = Inr L'" "logFile L' = []" "contents (logQueue L') = ?es"
    using logger_destructor_drops [of "sampleLogger q" False] q(2,3) by auto
  then show ?thesis using q(1) by blast
qed

end
