(* ===== verification/Process.thy ===== *)
theory Process
  imports Exchange_Refine Book_Print Logger
begin

text \<open>
  The process: \<open>main\<close> and \<open>shutdown_handler\<close> (src/src/core/main.cpp), the worker thread of the engine, the
  thread of the logger, and the destruction of the engine (src/src/core/matching_engine/matching_engine.cpp).
  The threads' steps interleave freely. One signal SIGINT can arrive at any time, at any thread;
  what \<open>exit\<close> destroys is the logger, the only object with static lifetime the threads use.
\<close>

section \<open>Destruction of the engine\<close>

text \<open>The array of books is destroyed from its end; each book logs its text first.\<close>

fun destroyBooks :: "nat \<Rightarrow> OrderBook option vec \<Rightarrow> string list res" where
  "destroyBooks 0 v = Inr []"
| "destroyBooks (Suc i) v =
     bind_res (vget v i) (\<lambda>p.
     bind_res (case p of None \<Rightarrow> Inr [] | Some b \<Rightarrow> bind_res (OrderBook_destroy b) (\<lambda>(s, b'). Inr [s])) (\<lambda>s.
     bind_res (destroyBooks i v) (\<lambda>ss. Inr (s @ ss))))"

text \<open>The destructor stops the worker first: \<open>None\<close> while it waits in \<open>join\<close>.\<close>

definition MatchingEngine_destroy :: "Engine \<Rightarrow> string list res option" where
  "MatchingEngine_destroy E =
     (let E' = requestStop E in
      if joinReturns E' then Some (destroyBooks (vsize (orderBookForTicker E')) (orderBookForTicker E')) else None)"

text \<open>Books that pass the check of \<open>toString\<close> in their destructor.\<close>

definition printable :: "AbstractBook \<Rightarrow> bool" where
  "printable B \<longleftrightarrow> (\<forall>sd\<in>sides. passesCheck sd (levels B sd))"

definition finalText :: "Engine \<Rightarrow> (nat \<Rightarrow> AbstractBook) \<Rightarrow> nat \<Rightarrow> string" where
  "finalText E A i = bookText (assignedTicker (the (velem (orderBookForTicker E) i))) False (A i) @ nl"

lemma destroyBooks_ok:
  assumes "engineRepresents E A" "n \<le> MAX_TICKERS"
  shows "if \<forall>i < n. printable (A i) then destroyBooks n (orderBookForTicker E) = Inr (map (finalText E A) (rev [0..<n]))
    else \<exists>m. destroyBooks n (orderBookForTicker E) = Inl (Uncaught m)"
  using assms(2)
proof (induction n)
  case (Suc i)
  obtain b where b: "velem (orderBookForTicker E) i = Some b" "represents (b, meQueues E) (A i)" "vsize (orderBookForTicker E) = MAX_TICKERS"
    using assms(1) Suc.prems unfolding engineRepresents_def by (metis Suc_le_lessD)
  have get: "vget (orderBookForTicker E) i = Inr (Some b)" using b Suc.prems by simp
  show ?case
  proof (cases "printable (A i)")
    case True
    then obtain b' where "OrderBook_destroy b = Inr (finalText E A i, b')"
      using destroy_ok [OF b(2)] b(1) by (auto simp: printable_def finalText_def)
    with Suc get True show ?thesis by (auto simp: less_Suc_eq simp del: vget_eq_Inr bind_res_eq_Inr split: if_splits)
  next
    case False
    then obtain m where "OrderBook_destroy b = Inl (Uncaught m)" using destroy_ok [OF b(2)] by (auto simp: printable_def split: if_splits)
    with get False show ?thesis by (auto simp del: vget_eq_Inr bind_res_eq_Inr)
  qed
qed simp

section \<open>The process\<close>

text \<open>\<open>main\<close> before and after \<open>std::signal\<close>, and in its loop. A thread that took the signal, with the number of
  sleeps of the handler that are left. How the process ended.\<close>

datatype mainStage = Booting | Preparing | Serving

datatype thread = MainThread | WorkerThread | LogThread

datatype ending = ExitStatus int | KilledBySignal | Faulted fault

record Process =
  mainPhase :: mainStage
  engineOf :: "Engine option"
  theLogger :: "Logger option"
  loggerGone :: bool
  handler :: "(thread \<times> nat) option"
  elapsed :: nat
  outcome :: "ending option"

definition Process_init :: Process where
  "Process_init = \<lparr>mainPhase = Booting, engineOf = None, theLogger = None, loggerGone = False, handler = None,
     elapsed = 0, outcome = None\<rparr>"

text \<open>Logging from any thread: after the destruction of the logger it works on a dead object.\<close>

definition logInfo :: "LogElement \<Rightarrow> string option \<Rightarrow> string \<Rightarrow> Process \<Rightarrow> Process" where
  "logInfo d opened msg P =
     (if loggerGone P then P\<lparr>outcome := Some (Faulted UseAfterFree)\<rparr>
      else case LOG_INFO d opened (theLogger P) msg [] of Inl e \<Rightarrow> P\<lparr>outcome := Some (Faulted e)\<rparr>
           | Inr L \<Rightarrow> P\<lparr>theLogger := L\<rparr>)"

text \<open>What a thread does after a message, unless the message was its last deed.\<close>

definition andThen :: "Process \<Rightarrow> (Process \<Rightarrow> Process) \<Rightarrow> Process" where
  "andThen P f = (if outcome P = None then f P else P)"

definition canRun :: "thread \<Rightarrow> Process \<Rightarrow> bool" where
  "canRun t P \<longleftrightarrow> outcome P = None \<and> (\<forall>n. handler P \<noteq> Some (t, n))"

definition threadExists :: "thread \<Rightarrow> Process \<Rightarrow> bool" where
  "threadExists t P = (case t of MainThread \<Rightarrow> True | WorkerThread \<Rightarrow> engineOf P \<noteq> None | LogThread \<Rightarrow> theLogger P \<noteq> None)"

text \<open>\<open>main\<close>: the handler is installed; a message, the queues, the engine and its thread; then rounds of a message and a
  sleep of 100 ms.\<close>

inductive mainMoves :: "LogElement \<Rightarrow> string option \<Rightarrow> Process \<Rightarrow> Process \<Rightarrow> bool" for d opened where
  install: "canRun MainThread P \<Longrightarrow> mainPhase P = Booting \<Longrightarrow> mainMoves d opened P (P\<lparr>mainPhase := Preparing\<rparr>)"
| launch: "canRun MainThread P \<Longrightarrow> mainPhase P = Preparing \<Longrightarrow> main_start = Inr E \<Longrightarrow>
    mainMoves d opened P (andThen (logInfo d opened ''Starting matching engine...'' P)
      (\<lambda>P. P\<lparr>mainPhase := Serving, engineOf := Some E\<rparr>))"
| idle: "canRun MainThread P \<Longrightarrow> mainPhase P = Serving \<Longrightarrow>
    mainMoves d opened P (andThen (logInfo d opened ''Sleeping for some ms...'' P) (\<lambda>P. P\<lparr>elapsed := elapsed P + 100\<rparr>))"

text \<open>The worker: it enters its loop with a message; an iteration with a request logs it.\<close>

inductive workerMoves :: "stray \<Rightarrow> LogElement \<Rightarrow> string option \<Rightarrow> Process \<Rightarrow> Process \<Rightarrow> bool" for stray d opened where
  enter: "canRun WorkerThread P \<Longrightarrow> engineOf P = Some E \<Longrightarrow> workerPhase E = Created \<Longrightarrow>
    workerMoves stray d opened P (logInfo d opened ''Matching engine thread started''
      (P\<lparr>engineOf := Some (E\<lparr>isRunning := True, workerPhase := Looping\<rparr>)\<rparr>))"
| iterate: "canRun WorkerThread P \<Longrightarrow> engineOf P = Some E \<Longrightarrow> workerPhase E = Looping \<Longrightarrow> isRunning E \<Longrightarrow>
    pollRequest stray E = Inr E' \<Longrightarrow>
    workerMoves stray d opened P (andThen (if size_q (rxRequests E) = 0 then P else logInfo d opened ''rx request: {} {}'' P)
      (\<lambda>P. P\<lparr>engineOf := Some E'\<rparr>))"
| fault: "canRun WorkerThread P \<Longrightarrow> engineOf P = Some E \<Longrightarrow> workerPhase E = Looping \<Longrightarrow> isRunning E \<Longrightarrow>
    pollRequest stray E = Inl e \<Longrightarrow> workerMoves stray d opened P (P\<lparr>outcome := Some (Faulted e)\<rparr>)"
| leave: "canRun WorkerThread P \<Longrightarrow> engineOf P = Some E \<Longrightarrow> workerPhase E = Looping \<Longrightarrow> \<not> isRunning E \<Longrightarrow>
    workerMoves stray d opened P (P\<lparr>engineOf := Some (E\<lparr>workerPhase := Finished\<rparr>)\<rparr>)"

inductive logMoves :: "Process \<Rightarrow> Process \<Rightarrow> bool" where
  flush: "canRun LogThread P \<Longrightarrow> theLogger P = Some L \<Longrightarrow> \<not> loggerGone P \<Longrightarrow> running L \<Longrightarrow>
    flushBatch time ok L = Inr L' \<Longrightarrow> logMoves P (P\<lparr>theLogger := Some L'\<rparr>)"

text \<open>The signal, and the handler on the thread that took it: two sleeps of five seconds, then \<open>exit\<close>, which destroys the
  logger (its destructor joins the logger's thread, and a thread cannot join itself) and ends the process. Before
  \<open>std::signal\<close> the signal kills the process.\<close>

inductive signalMoves :: "Process \<Rightarrow> Process \<Rightarrow> bool" where
  kill: "outcome P = None \<Longrightarrow> mainPhase P = Booting \<Longrightarrow> signalMoves P (P\<lparr>outcome := Some KilledBySignal\<rparr>)"
| arrive: "outcome P = None \<Longrightarrow> mainPhase P \<noteq> Booting \<Longrightarrow> handler P = None \<Longrightarrow> threadExists t P \<Longrightarrow>
    signalMoves P (P\<lparr>handler := Some (t, 2)\<rparr>)"
| sleep: "outcome P = None \<Longrightarrow> handler P = Some (t, Suc n) \<Longrightarrow>
    signalMoves P (P\<lparr>handler := Some (t, n), elapsed := elapsed P + 5000\<rparr>)"
| self_join: "outcome P = None \<Longrightarrow> handler P = Some (LogThread, 0) \<Longrightarrow>
    signalMoves P (P\<lparr>outcome := Some (Faulted (Uncaught ''std::system_error''))\<rparr>)"
| destroy: "outcome P = None \<Longrightarrow> handler P = Some (t, 0) \<Longrightarrow> t \<noteq> LogThread \<Longrightarrow> \<not> loggerGone P \<Longrightarrow> theLogger P = Some L \<Longrightarrow>
    Logger_destroy inRound time ok L = Inr L' \<Longrightarrow> signalMoves P (P\<lparr>theLogger := Some L', loggerGone := True\<rparr>)"
| exit: "outcome P = None \<Longrightarrow> handler P = Some (t, 0) \<Longrightarrow> loggerGone P \<or> theLogger P = None \<Longrightarrow>
    signalMoves P (P\<lparr>outcome := Some (ExitStatus 0)\<rparr>)"

inductive processRun :: "stray \<Rightarrow> LogElement \<Rightarrow> string option \<Rightarrow> Process \<Rightarrow> Process \<Rightarrow> bool" for stray d opened where
  refl: "processRun stray d opened P P"
| main: "processRun stray d opened P P' \<Longrightarrow> mainMoves d opened P' P'' \<Longrightarrow> processRun stray d opened P P''"
| worker: "processRun stray d opened P P' \<Longrightarrow> workerMoves stray d opened P' P'' \<Longrightarrow> processRun stray d opened P P''"
| log: "processRun stray d opened P P' \<Longrightarrow> logMoves P' P'' \<Longrightarrow> processRun stray d opened P P''"
| signal: "processRun stray d opened P P' \<Longrightarrow> signalMoves P' P'' \<Longrightarrow> processRun stray d opened P P''"

inductive_cases mainMovesE: "mainMoves d opened P P'"
inductive_cases workerMovesE: "workerMoves stray d opened P P'"
inductive_cases logMovesE: "logMoves P P'"
inductive_cases signalMovesE: "signalMoves P P'"

section \<open>What holds in every state\<close>

text \<open>An engine nobody sends requests to.\<close>

definition idle :: "Engine \<Rightarrow> bool" where
  "idle E \<longleftrightarrow> engineRepresents E (\<lambda>_. emptyBook) \<and> queue_wf (rxRequests E) \<and> contents (rxRequests E) = [] \<and>
     contents (txResponses (meQueues E)) = [] \<and> contents (txMarketUpdates (meQueues E)) = [] \<and> onItsWay E"

definition loggerFine :: "Process \<Rightarrow> bool" where
  "loggerFine P \<longleftrightarrow> (\<forall>L. theLogger P = Some L \<longrightarrow> queue_wf (logQueue L))"

text \<open>How far the handler is.\<close>

definition handlerFine :: "Process \<Rightarrow> bool" where
  "handlerFine P \<longleftrightarrow> (case handler P of None \<Rightarrow> \<not> loggerGone P
     | Some (t, n) \<Rightarrow> mainPhase P \<noteq> Booting \<and> n \<le> 2 \<and> 5000 * (2 - n) \<le> elapsed P \<and> threadExists t P \<and>
         (loggerGone P \<longrightarrow> n = 0 \<and> t \<noteq> LogThread))"

definition endingFine :: "Process \<Rightarrow> bool" where
  "endingFine P \<longleftrightarrow> (case outcome P of None \<Rightarrow> True
     | Some (ExitStatus s) \<Rightarrow> s = 0 \<and> (\<exists>t. handler P = Some (t, 0) \<and> t \<noteq> LogThread)
     | Some KilledBySignal \<Rightarrow> mainPhase P = Booting
     | Some (Faulted e) \<Rightarrow> e = UseAfterFree \<and> loggerGone P \<or>
         e = Uncaught ''std::system_error'' \<and> handler P = Some (LogThread, 0))"

definition processFine :: "Process \<Rightarrow> bool" where
  "processFine P \<longleftrightarrow> (case engineOf P of None \<Rightarrow> mainPhase P \<noteq> Serving
       | Some E \<Rightarrow> mainPhase P = Serving \<and> idle E \<and> (theLogger P \<noteq> None \<or> loggerGone P)) \<and>
     loggerFine P \<and> handlerFine P \<and> endingFine P"

lemmas fine_defs = processFine_def loggerFine_def handlerFine_def endingFine_def threadExists_def canRun_def

lemma log_total:
  assumes "\<forall>L. inst = Some L \<longrightarrow> queue_wf (logQueue L)"
  shows "\<exists>L. LOG_INFO d (Some old) inst msg args = Inr (Some L) \<and> queue_wf (logQueue L)"
proof (cases inst)
  case None
  let ?L = "\<lparr>logFile = old, fileGood = True, logQueue = LFQueue_init d LOG_QUEUE_SIZE, running = True\<rparr>"
  have "LOG_INFO d (Some old) inst msg args = LOG_INFO d (Some old) (Some ?L) msg args"
    by (simp add: None LOG_INFO_def logThrough_def getInstance_def Logger_init_def setLogFile_def)
  moreover have "queue_wf (logQueue ?L)" by (simp add: LFQueue_init_wf LOG_QUEUE_SIZE_def)
  ultimately show ?thesis using logThrough_one [of ?L d "Some old" "(INFO, msg, args)"] by (auto simp: LOG_INFO_def)
next
  case (Some L)
  with assms logThrough_one [of L d "Some old" "(INFO, msg, args)"] show ?thesis by (auto simp: LOG_INFO_def)
qed

text \<open>Logging changes the logger, or faults after its destruction.\<close>

lemma logInfo_cases:
  assumes "loggerFine P"
  obtains "loggerGone P" "logInfo d (Some old) msg P = P\<lparr>outcome := Some (Faulted UseAfterFree)\<rparr>"
  | L where "\<not> loggerGone P" "logInfo d (Some old) msg P = P\<lparr>theLogger := Some L\<rparr>" "queue_wf (logQueue L)"
proof (cases "loggerGone P")
  case True
  with that(1) show thesis by (simp add: logInfo_def)
next
  case False
  obtain L where "LOG_INFO d (Some old) (theLogger P) msg [] = Inr (Some L)" "queue_wf (logQueue L)"
    using log_total [of "theLogger P" d old msg "[]"] assms by (auto simp: loggerFine_def)
  with that(2) [of L] False show thesis by (simp add: logInfo_def)
qed

lemma idle_start: "main_start = Inr E \<Longrightarrow> idle E"
  using main_start_ok by (auto simp: idle_def newQueues_def LFQueue_init_wf limits onItsWay_def main_start_def startMatchingEngine_def)

lemma idle_poll: "idle E \<Longrightarrow> pollRequest stray E = Inr E"
  using pop_none [of "rxRequests E"] by (simp add: idle_def pollRequest_def)

lemma idle_size: "idle E \<Longrightarrow> size_q (rxRequests E) = 0"
  by (metis idle_def length_contents list.size(3) size_q_def)

lemma collect_wf: "queue_wf q \<Longrightarrow> collect n time q buffer = Inr (s, q') \<Longrightarrow> queue_wf q'"
  using collect_takes [of q n time buffer] by auto

lemma flushBatch_wf: "queue_wf (logQueue L) \<Longrightarrow> flushBatch time ok L = Inr L' \<Longrightarrow> queue_wf (logQueue L')"
  by (auto simp: flushBatch_def writeToFile_def dest: collect_wf split: if_splits)

lemma Logger_destroy_wf: "queue_wf (logQueue L) \<Longrightarrow> Logger_destroy inRound time ok L = Inr L' \<Longrightarrow> queue_wf (logQueue L')"
  by (auto simp: Logger_destroy_def dest: flushBatch_wf split: if_splits)

lemma main_fine:
  assumes "mainMoves d (Some old) P P'" "processFine P"
  shows "processFine P'"
  using assms(1)
proof cases
  case install
  with assms(2) show ?thesis by (auto simp: fine_defs andThen_def split: option.splits prod.splits thread.splits)
next
  case (launch E)
  have "loggerFine P" using assms(2) by (simp add: processFine_def)
  then show ?thesis
  proof (cases rule: logInfo_cases [where d = d and old = old and msg = "''Starting matching engine...''"])
    case 1
    with launch assms(2) idle_start [OF launch(4)] show ?thesis
      by (auto simp: fine_defs andThen_def split: option.splits prod.splits thread.splits)
  next
    case (2 L)
    with launch assms(2) idle_start [OF launch(4)] show ?thesis
      by (auto simp: fine_defs andThen_def split: option.splits prod.splits thread.splits)
  qed
next
  case idle
  have "loggerFine P" using assms(2) by (simp add: processFine_def)
  then show ?thesis
  proof (cases rule: logInfo_cases [where d = d and old = old and msg = "''Sleeping for some ms...''"])
    case 1
    with idle assms(2) show ?thesis by (auto simp: fine_defs andThen_def split: option.splits prod.splits thread.splits)
  next
    case (2 L)
    with idle assms(2) show ?thesis by (auto simp: fine_defs andThen_def split: option.splits prod.splits thread.splits)
  qed
qed

lemma idle_enter: "idle E \<Longrightarrow> idle (E\<lparr>isRunning := True, workerPhase := Looping\<rparr>)"
  by (simp add: idle_def onItsWay_def engineRepresents_def)

lemma worker_fine:
  assumes "workerMoves stray d (Some old) P P'" "processFine P"
  shows "processFine P'"
  using assms(1)
proof cases
  case (enter E)
  let ?P = "P\<lparr>engineOf := Some (E\<lparr>isRunning := True, workerPhase := Looping\<rparr>)\<rparr>"
  have i: "idle E" and lf: "loggerFine ?P" using enter(3) assms(2) by (simp_all add: processFine_def loggerFine_def)
  from lf show ?thesis
  proof (cases rule: logInfo_cases [where d = d and old = old and msg = "''Matching engine thread started''"])
    case 1
    with enter idle_enter [OF i(1)] assms(2) show ?thesis
      by (auto simp: fine_defs andThen_def split: option.splits prod.splits thread.splits)
  next
    case (2 L)
    with enter idle_enter [OF i(1)] assms(2) show ?thesis
      by (auto simp: fine_defs andThen_def split: option.splits prod.splits thread.splits)
  qed
next
  case (iterate E E')
  then have "idle E" using assms(2) by (simp add: processFine_def)
  then have "P' = P\<lparr>engineOf := Some E\<rparr>" using iterate idle_poll idle_size by (auto simp: andThen_def canRun_def)
  moreover have "P\<lparr>engineOf := Some E\<rparr> = P" using iterate(3) by (cases P) simp
  ultimately show ?thesis using assms(2) by simp
next
  case (fault E e)
  then show ?thesis using idle_poll assms(2) by (simp add: processFine_def)
next
  case (leave E)
  then show ?thesis using assms(2) by (simp add: processFine_def idle_def onItsWay_def)
qed

lemma log_fine: "logMoves P P' \<Longrightarrow> processFine P \<Longrightarrow> processFine P'"
  by (elim logMovesE) (auto simp: fine_defs dest: flushBatch_wf split: option.splits prod.splits thread.splits)

lemma signal_fine:
  assumes "signalMoves P P'" "processFine P"
  shows "processFine P'"
  using assms
  by (cases rule: signalMoves.cases)
    (auto simp: fine_defs dest: Logger_destroy_wf split: option.splits prod.splits thread.splits)

lemma run_fine: "processRun stray d (Some old) P P' \<Longrightarrow> processFine P \<Longrightarrow> processFine P'"
  by (induction rule: processRun.induct) (auto intro: main_fine worker_fine log_fine signal_fine)

lemma init_fine: "processFine Process_init"
  by (simp add: fine_defs Process_init_def)

section \<open>A shutdown on the main thread\<close>

text \<open>Once the worker is in its loop, nobody logs any more while the main thread is in the handler.\<close>

definition shuttingDown :: "Process \<Rightarrow> bool" where
  "shuttingDown P \<longleftrightarrow> (\<exists>n E. handler P = Some (MainThread, n) \<and> engineOf P = Some E \<and> workerPhase E = Looping) \<and>
     (outcome P = None \<or> outcome P = Some (ExitStatus 0))"

lemma shuttingDown_run:
  assumes "processRun stray d (Some old) P P'" "processFine P" "shuttingDown P"
  shows "shuttingDown P'"
  using assms
proof (induction rule: processRun.induct)
  case (main P P' P'')
  then show ?case by (auto simp: shuttingDown_def canRun_def elim!: mainMovesE)
next
  case (worker P P' P'')
  then have sd: "shuttingDown P'" and fine: "processFine P'" using run_fine by simp_all
  from worker.hyps(2) show ?case
  proof cases
    case (iterate E E')
    then have "idle E" using fine by (simp add: processFine_def)
    with iterate sd idle_poll idle_size show ?thesis by (auto simp: shuttingDown_def andThen_def)
  next
    case (fault E e)
    with fine idle_poll show ?thesis by (simp add: processFine_def)
  next
    case (leave E)
    with fine show ?thesis by (simp add: processFine_def idle_def onItsWay_def)
  qed (use sd in \<open>auto simp: shuttingDown_def\<close>)
next
  case (log P P' P'')
  then show ?case by (auto simp: shuttingDown_def elim!: logMovesE)
next
  case (signal P P' P'')
  then have "shuttingDown P'" "processFine P'" using run_fine by simp_all
  with signal.hyps(2) show ?case by (cases rule: signalMoves.cases) (auto simp: shuttingDown_def fine_defs)
qed

lemma processRun_trans: "processRun stray d opened P' P'' \<Longrightarrow> processRun stray d opened P P' \<Longrightarrow> processRun stray d opened P P''"
  by (induction rule: processRun.induct) (auto intro: processRun.intros)

text \<open>Once a thread other than the logger's is in the handler, it can go on to the destruction of the logger and to the end.\<close>

lemma handler_runs:
  assumes "outcome P = None" "handler P = Some (t, n)" "t \<noteq> LogThread" "\<not> loggerGone P" "theLogger P = Some L"
  shows "\<exists>P'. processRun stray d opened P P' \<and> handler P' = Some (t, 0) \<and> loggerGone P' \<and> outcome P' = None \<and>
    engineOf P' = engineOf P \<and> mainPhase P' = mainPhase P"
  using assms
proof (induction n arbitrary: P)
  case 0
  have "Logger_destroy False (\<lambda>_. []) True L = Inr (L\<lparr>running := False\<rparr>)" by (simp add: Logger_destroy_def)
  from processRun.signal [OF processRun.refl signalMoves.destroy [OF 0(1-5) this], of stray d opened] 0 show ?case
    by (intro exI [of _ "P\<lparr>theLogger := Some (L\<lparr>running := False\<rparr>), loggerGone := True\<rparr>"]) simp
next
  case (Suc n)
  let ?P = "P\<lparr>handler := Some (t, n), elapsed := elapsed P + 5000\<rparr>"
  have step: "processRun stray d opened P ?P"
    by (rule processRun.signal [OF processRun.refl signalMoves.sleep [OF Suc.prems(1,2)]])
  from Suc.IH [of ?P] Suc.prems obtain P' where P': "processRun stray d opened ?P P'" "handler P' = Some (t, 0)" "loggerGone P'"
    "outcome P' = None" "engineOf P' = engineOf P" "mainPhase P' = mainPhase P" by auto
  from processRun_trans [OF P'(1) step] P'(2-6) show ?case by blast
qed

text \<open>The way into the loops of both threads.\<close>

lemma reaches_loops:
  "\<exists>P E L. processRun stray d (Some old) Process_init P \<and> mainPhase P = Serving \<and> engineOf P = Some E \<and> workerPhase E = Looping \<and>
    theLogger P = Some L \<and> \<not> loggerGone P \<and> handler P = None \<and> outcome P = None"
proof -
  obtain E where E: "main_start = Inr E" "workerPhase E = Created"
    using main_start_ok by (auto simp: main_start_def startMatchingEngine_def)
  let ?P1 = "Process_init\<lparr>mainPhase := Preparing\<rparr>"
  have 1: "mainMoves d (Some old) Process_init ?P1" by (rule mainMoves.install) (simp_all add: canRun_def Process_init_def)
  have fine1: "loggerFine ?P1" by (simp add: loggerFine_def Process_init_def)
  obtain L1 where L1: "logInfo d (Some old) ''Starting matching engine...'' ?P1 = ?P1\<lparr>theLogger := Some L1\<rparr>" "queue_wf (logQueue L1)"
    by (rule logInfo_cases [OF fine1, of d old "''Starting matching engine...''"]) (simp_all add: Process_init_def)
  let ?P2 = "?P1\<lparr>theLogger := Some L1, mainPhase := Serving, engineOf := Some E\<rparr>"
  have 2: "mainMoves d (Some old) ?P1 ?P2"
    using mainMoves.launch [OF _ _ E(1), of ?P1 d "Some old"] by (simp add: canRun_def Process_init_def andThen_def L1 [unfolded Process_init_def, simplified])
  let ?P3 = "?P2\<lparr>engineOf := Some (E\<lparr>isRunning := True, workerPhase := Looping\<rparr>)\<rparr>"
  have fine3: "loggerFine ?P3" using L1(2) by (simp add: loggerFine_def)
  obtain L2 where L2: "logInfo d (Some old) ''Matching engine thread started'' ?P3 = ?P3\<lparr>theLogger := Some L2\<rparr>"
    by (rule logInfo_cases [OF fine3, of d old "''Matching engine thread started''"]) (simp_all add: Process_init_def)
  have 3: "workerMoves stray d (Some old) ?P2 (?P3\<lparr>theLogger := Some L2\<rparr>)"
    using workerMoves.enter [of ?P2 E stray d "Some old"] E(2) unfolding L2 by (simp add: canRun_def Process_init_def)
  have "processRun stray d (Some old) Process_init (?P3\<lparr>theLogger := Some L2\<rparr>)"
    by (rule processRun.worker [OF processRun.main [OF processRun.main [OF processRun.refl 1] 2] 3])
  then show ?thesis
    by (intro exI [of _ "?P3\<lparr>theLogger := Some L2\<rparr>"] exI [of _ "E\<lparr>isRunning := True, workerPhase := Looping\<rparr>"] exI [of _ L2])
      (simp add: Process_init_def)
qed

lemma interrupted:
  assumes "t \<noteq> LogThread"
  shows "\<exists>P. processRun stray d (Some old) Process_init P \<and> handler P = Some (t, 0) \<and> loggerGone P \<and> outcome P = None \<and>
    mainPhase P = Serving"
proof -
  obtain P E L where P: "processRun stray d (Some old) Process_init P" "mainPhase P = Serving" "engineOf P = Some E"
    "theLogger P = Some L" "\<not> loggerGone P" "handler P = None" "outcome P = None" using reaches_loops by blast
  have "threadExists t P" using assms P(3) by (cases t) (simp_all add: threadExists_def)
  with P have 1: "processRun stray d (Some old) Process_init (P\<lparr>handler := Some (t, 2)\<rparr>)"
    by (intro processRun.signal [OF P(1) signalMoves.arrive]) simp_all
  from handler_runs [of "P\<lparr>handler := Some (t, 2)\<rparr>" t 2 L stray d "Some old"] P assms obtain P' where
    "processRun stray d (Some old) (P\<lparr>handler := Some (t, 2)\<rparr>) P'" "handler P' = Some (t, 0)" "loggerGone P'" "outcome P' = None"
    "mainPhase P' = Serving" by auto
  with processRun_trans [OF this(1) 1] show ?thesis by blast
qed

section \<open>Properties\<close>

text \<open>C20: destroying an engine. If its thread was never started, the destructor ends; it logs the texts of the books from the last to
  the first, if all of them pass the check of \<open>toString\<close>, and otherwise an exception leaves it. Once the thread was
  started, the destructor waits for it, in whatever state the threads bring the engine to.\<close>

theorem engine_destructor:
  assumes "engineRepresents E A"
  shows "(workerPhase E = NotStarted \<longrightarrow>
      (if \<forall>i < MAX_TICKERS. printable (A i) then MatchingEngine_destroy E = Some (Inr (map (finalText E A) (rev [0..<MAX_TICKERS])))
       else \<exists>m. MatchingEngine_destroy E = Some (Inl (Uncaught m)))) \<and>
    (\<forall>E'. engineReaches stray (startMatchingEngine E) E' \<longrightarrow> MatchingEngine_destroy E' = None)"
proof -
  have v: "vsize (orderBookForTicker E) = MAX_TICKERS" using assms by (simp add: engineRepresents_def)
  have "onItsWay (startMatchingEngine E)" by (simp add: onItsWay_def startMatchingEngine_def)
  then have "onItsWay E'" if "engineReaches stray (startMatchingEngine E) E'" for E' using engineReaches_onItsWay [OF that] by simp
  then have "MatchingEngine_destroy E' = None" if "engineReaches stray (startMatchingEngine E) E'" for E'
    using that by (fastforce simp: MatchingEngine_destroy_def requestStop_def joinReturns_def onItsWay_def)
  with destroyBooks_ok [OF assms, of MAX_TICKERS] v show ?thesis
    by (auto simp: MatchingEngine_destroy_def requestStop_def joinReturns_def Let_def)
qed

theorem engine_destructor_witness:
  "\<exists>E. MatchingEngine_init (LFQueue_init OMEClientRequest_default 4) newQueues = Inr E \<and>
    (\<exists>ts. MatchingEngine_destroy E = Some (Inr ts) \<and> length ts = 8) \<and> MatchingEngine_destroy (startMatchingEngine E) = None"
proof -
  obtain E where E: "MatchingEngine_init (LFQueue_init OMEClientRequest_default 4) newQueues = Inr E"
    "engineRepresents E (\<lambda>_. emptyBook)" "workerPhase E = NotStarted"
    using MatchingEngine_init_ok [OF newQueues_ok] by blast
  have "printable emptyBook" by (simp add: printable_def passesCheck_def inOrder_def emptyBook_def)
  with engine_destructor [OF E(2), of strayZero] E engineReaches.refl show ?thesis by (auto simp: MAX_TICKERS_def)
qed

text \<open>C17: in the process \<open>main\<close> makes, the engine never gets a request: whatever the threads and the signal do, its queue is
  empty, it has sent nothing, and its books are empty.\<close>

theorem process_serves_nobody:
  assumes "processRun stray d (Some old) Process_init P" "engineOf P = Some E"
  shows "contents (rxRequests E) = [] \<and> contents (txResponses (meQueues E)) = [] \<and> contents (txMarketUpdates (meQueues E)) = [] \<and>
    engineRepresents E (\<lambda>_. emptyBook) \<and> workerPhase E \<in> {Created, Looping}"
  using run_fine [OF assms(1) init_fine] assms(2) by (auto simp: processFine_def idle_def onItsWay_def)

theorem process_serves_nobody_witness:
  "\<exists>P E. processRun strayZero (toElement (INFO, [], [])) (Some []) Process_init P \<and> mainPhase P = Serving \<and> engineOf P = Some E \<and>
    workerPhase E = Looping \<and> contents (rxRequests E) = []"
proof -
  obtain P E where P: "processRun strayZero (toElement (INFO, [], [])) (Some []) Process_init P" "mainPhase P = Serving"
    "engineOf P = Some E" "workerPhase E = Looping" using reaches_loops by blast
  with process_serves_nobody [OF P(1,3)] show ?thesis by blast
qed

text \<open>C39: the outcomes of a shutdown. Only a signal ends the process. It ends with status 0 only if a thread other than the
  logger's took the signal, at least ten seconds after; if the logger's thread took it, it can only end by the exception of a
  thread that joins itself; and every other fault is a message to the logger after its destruction.\<close>

theorem shutdown_outcomes:
  assumes "processRun stray d (Some old) Process_init P" "outcome P = Some e"
  shows "case e of ExitStatus s \<Rightarrow> s = 0 \<and> 10000 \<le> elapsed P \<and> (\<exists>t. handler P = Some (t, 0) \<and> t \<noteq> LogThread)
    | KilledBySignal \<Rightarrow> mainPhase P = Booting
    | Faulted f \<Rightarrow> (if handler P = Some (LogThread, 0) then f = Uncaught ''std::system_error''
        else f = UseAfterFree \<and> loggerGone P \<and> (\<exists>t. handler P = Some (t, 0)))"
  using run_fine [OF assms(1) init_fine] assms(2)
  by (auto simp: fine_defs split: option.splits prod.splits ending.splits if_splits)

text \<open>If the worker's thread takes the signal, \<open>main\<close> goes on and logs to the destroyed logger.\<close>

theorem shutdown_outcomes_witness:
  "\<exists>P. processRun strayZero (toElement (INFO, [], [])) (Some []) Process_init P \<and> handler P = Some (WorkerThread, 0) \<and>
    outcome P = Some (Faulted UseAfterFree) \<and> loggerGone P"
proof -
  let ?d = "toElement (INFO, [], [])"
  obtain P where P: "processRun strayZero ?d (Some []) Process_init P" "handler P = Some (WorkerThread, 0)" "loggerGone P"
    "outcome P = None" "mainPhase P = Serving" using interrupted [of WorkerThread] by blast
  let ?P = "andThen (logInfo ?d (Some []) ''Sleeping for some ms...'' P) (\<lambda>P. P\<lparr>elapsed := elapsed P + 100\<rparr>)"
  have "mainMoves ?d (Some []) P ?P" by (rule mainMoves.idle) (simp_all add: canRun_def P)
  then have run: "processRun strayZero ?d (Some []) Process_init ?P" by (rule processRun.main [OF P(1)])
  have over: "outcome ?P = Some (Faulted UseAfterFree)" "handler ?P = Some (WorkerThread, 0)"
    by (simp_all add: andThen_def logInfo_def P)
  with shutdown_outcomes [OF run over(1)] over run show ?thesis by auto
qed

text \<open>C29: a clean shutdown. When the main thread has taken the signal and the worker is in its loop, nothing the threads do is a
  fault, and the process can go on to its end with status 0.\<close>

theorem clean_shutdown:
  assumes "processRun stray d (Some old) Process_init P" "handler P = Some (MainThread, n)" "outcome P = None"
    and "engineOf P = Some E" "workerPhase E = Looping"
  shows "(\<forall>P'. processRun stray d (Some old) P P' \<longrightarrow> outcome P' \<in> {None, Some (ExitStatus 0)}) \<and>
    (\<exists>P'. processRun stray d (Some old) P P' \<and> outcome P' = Some (ExitStatus 0))"
proof -
  have fine: "processFine P" by (rule run_fine [OF assms(1) init_fine])
  have "shuttingDown P" using assms(2-5) by (simp add: shuttingDown_def)
  from shuttingDown_run [OF _ fine this] have safe: "\<forall>P'. processRun stray d (Some old) P P' \<longrightarrow> outcome P' \<in> {None, Some (ExitStatus 0)}"
    by (auto simp: shuttingDown_def)
  obtain P' where P': "processRun stray d (Some old) P P'" "handler P' = Some (MainThread, 0)" "loggerGone P'" "outcome P' = None"
  proof (cases "loggerGone P")
    case True
    with that [OF processRun.refl] assms(2,3) fine show thesis by (simp add: fine_defs)
  next
    case False
    then obtain L where "theLogger P = Some L" using fine assms(4) by (auto simp: processFine_def)
    from handler_runs [OF assms(3,2) _ False this, of stray d "Some old"] that show thesis by blast
  qed
  have "processRun stray d (Some old) P (P'\<lparr>outcome := Some (ExitStatus 0)\<rparr>)"
    by (rule processRun.signal [OF P'(1) signalMoves.exit [OF P'(4,2)]]) (simp add: P'(3))
  then have "\<exists>P'. processRun stray d (Some old) P P' \<and> outcome P' = Some (ExitStatus 0)"
    by (intro exI [of _ "P'\<lparr>outcome := Some (ExitStatus 0)\<rparr>"]) simp
  with safe show ?thesis by blast
qed

theorem clean_shutdown_witness:
  "\<exists>P. processRun strayZero (toElement (INFO, [], [])) (Some []) Process_init P \<and> outcome P = Some (ExitStatus 0)"
proof -
  let ?d = "toElement (INFO, [], [])"
  obtain P E L where P: "processRun strayZero ?d (Some []) Process_init P" "mainPhase P = Serving" "engineOf P = Some E"
    "workerPhase E = Looping" "handler P = None" "outcome P = None" using reaches_loops by blast
  let ?P = "P\<lparr>handler := Some (MainThread, 2)\<rparr>"
  have run: "processRun strayZero ?d (Some []) Process_init ?P"
    by (rule processRun.signal [OF P(1) signalMoves.arrive]) (simp_all add: P threadExists_def)
  from clean_shutdown [OF run, of 2 E] P obtain P' where "processRun strayZero ?d (Some []) ?P P'" "outcome P' = Some (ExitStatus 0)"
    by auto
  with processRun_trans [OF this(1) run] show ?thesis by blast
qed

end
