(* ===== verification/Unit_Tests.thy ===== *)
theory Unit_Tests
  imports LF_Queue_Concurrent Memory_Pool Logger TCP_Socket "HOL-Library.Sublist"
begin

text \<open>
  Unit tests of the repository (src/tests) as functions on the model: a test gives \<open>Inr True\<close> if no operation
  fails and every expectation holds. A test with two threads is a step relation.
  The tests that only ask the operating system about a socket or a thread are left out.
\<close>

section \<open>Memory pool\<close>

definition POOL_SIZE :: nat where
  "POOL_SIZE = 32"

text \<open>The doubles of the test data are whole numbers.\<close>

type_synonym TestData = "int \<times> int"

definition count_up :: "TestData list" where
  "count_up = map (\<lambda>i. (int i, int i)) [0..<POOL_SIZE]"

definition testInitialStateIsEmpty :: "bool res" where
  "testInitialStateIsEmpty =
     bind_res (MemoryPool_init POOL_SIZE) (\<lambda>p.
     bind_res (alloc_list allocate p (replicate POOL_SIZE ((0, 0) :: TestData))) (\<lambda>(as, p).
     bind_res (allocate p (0, 0)) (\<lambda>(a, p).
       Inr (None \<notin> set as \<and> a = None))))"

definition testAllocateAndDeallocate :: "bool res" where
  "testAllocateAndDeallocate =
     bind_res (MemoryPool_init POOL_SIZE) (\<lambda>p.
     bind_res (allocate p ((1, 2) :: TestData)) (\<lambda>(ptr, p).
     bind_res (deref p ptr) (\<lambda>x.
     bind_res (deallocate p (the ptr)) (\<lambda>p.
     bind_res (allocate p (3, 4)) (\<lambda>(new_ptr, p).
     bind_res (deref p new_ptr) (\<lambda>y.
       Inr (x = (1, 2) \<and> new_ptr = ptr \<and> y = (3, 4))))))))"

definition testAllocateUntilFull :: "bool res" where
  "testAllocateUntilFull =
     bind_res (MemoryPool_init POOL_SIZE) (\<lambda>p.
     bind_res (alloc_list allocate p count_up) (\<lambda>(allocated, p).
     bind_res (allocate p (int POOL_SIZE, int POOL_SIZE)) (\<lambda>(overflowPtr, p).
     bind_res (runAll deallocate p (map the allocated)) (\<lambda>p.
       Inr (None \<notin> set allocated \<and> overflowPtr = None)))))"

definition testDeallocateAll :: "bool res" where
  "testDeallocateAll =
     bind_res (MemoryPool_init POOL_SIZE) (\<lambda>p.
     bind_res (alloc_list allocate p count_up) (\<lambda>(allocated, p).
     bind_res (runAll deallocate p (map the allocated)) (\<lambda>p.
     bind_res (alloc_list allocate p (replicate POOL_SIZE ((0, 0) :: TestData))) (\<lambda>(as, p).
       Inr (None \<notin> set as)))))"

text \<open>The worker of the test with one thread: every second round takes a block, the others give back the one taken last.\<close>

definition testWorker :: "TestData MemoryPool \<times> nat list \<Rightarrow> nat \<Rightarrow> (TestData MemoryPool \<times> nat list) res" where
  "testWorker s i =
     (case s of (p, local_allocated) \<Rightarrow>
        if i mod 2 = 0 \<or> local_allocated = []
        then bind_res (allocate p (int i, int i)) (\<lambda>(ptr, p).
               Inr (p, case ptr of None \<Rightarrow> local_allocated | Some a \<Rightarrow> a # local_allocated))
        else bind_res (deallocate p (hd local_allocated)) (\<lambda>p. Inr (p, tl local_allocated)))"

definition testConcurrentAllocateAndDeallocate :: "bool res" where
  "testConcurrentAllocateAndDeallocate =
     bind_res (MemoryPool_init POOL_SIZE) (\<lambda>p.
     bind_res (runAll testWorker (p, []) [0..<POOL_SIZE * 10]) (\<lambda>(p, local_allocated).
     bind_res (runAll deallocate p (rev local_allocated)) (\<lambda>p.
     bind_res (alloc_list allocate p (replicate POOL_SIZE ((0, 0) :: TestData))) (\<lambda>(as, p).
       Inr (length (filter (\<lambda>a. a \<noteq> None) as) = POOL_SIZE)))))"

definition testOverAllocate :: "bool res" where
  "testOverAllocate =
     bind_res (MemoryPool_init POOL_SIZE) (\<lambda>p.
     bind_res (alloc_list allocate p (map (\<lambda>i. (int i, 0 :: int)) [0..<POOL_SIZE])) (\<lambda>(as, p).
     bind_res (allocate p (int POOL_SIZE, 0)) (\<lambda>(a, p).
       Inr (None \<notin> set as \<and> a = None \<and> getFreeBlocksCount p = 0))))"

text \<open>Filling a pool.\<close>

lemma test_pool:
  obtains p :: "TestData MemoryPool" where "MemoryPool_init POOL_SIZE = Inr p" "pool_wf p" "live p = Map.empty" "vsize (memoryBlocks p) = POOL_SIZE"
  using MemoryPool_init_wf [of POOL_SIZE] by (auto simp: POOL_SIZE_def)

lemma fill_pool:
  assumes "pool_wf p" "live p = Map.empty" "vsize (memoryBlocks p) = POOL_SIZE" "length xs = POOL_SIZE"
  obtains as p' where "alloc_list allocate p xs = Inr (map Some as, p')" "pool_wf p'" "distinct as" "length as = POOL_SIZE"
    "dom (live p') = set as" "vsize (memoryBlocks p') = POOL_SIZE" "allocate p' x = Inr (None, p')" "getFreeBlocksCount p' = 0"
proof -
  obtain as p' where a: "alloc_list allocate p xs = Inr (map Some as, p')" "pool_wf p'" "distinct as" "length as = length xs"
    "live p' = (live p)(as [\<mapsto>] xs)" "vsize (memoryBlocks p') = vsize (memoryBlocks p)"
    using mp.alloc_all_room [OF assms(1), of xs] assms(2-4) by auto
  have dom: "dom (live p') = set as" using a(4,5) assms(2) by simp
  moreover have "card (dom (live p')) = vsize (memoryBlocks p')" using a(3,4,6) assms(3,4) by (simp add: dom distinct_card)
  moreover from this have "getFreeBlocksCount p' = 0" using a(2) by (simp add: getFreeBlocksCount_def pool_wf_def)
  ultimately show thesis using that [OF a(1-3)] a(4,6) assms(3,4) allocate_full [OF a(2)] by simp
qed

lemma empty_pool:
  assumes "pool_wf p" "distinct is" "dom (live p) = set is"
  obtains p' where "runAll deallocate p is = Inr p'" "pool_wf p'" "live p' = Map.empty" "vsize (memoryBlocks p') = vsize (memoryBlocks p)"
proof -
  obtain p' where p': "runAll deallocate p is = Inr p'" "pool_wf p'" "live p' = live p |` (- set is)"
    "vsize (memoryBlocks p') = vsize (memoryBlocks p)" using mp.dealloc_all [OF assms(1,2)] assms(3) by auto
  moreover have "live p |` (- set is) = Map.empty" using assms(3) by (auto simp: restrict_map_def fun_eq_iff)
  ultimately show thesis using that by simp
qed

lemma testWorker_ok:
  assumes "pool_wf p" "distinct taken_blocks" "dom (live p) = set taken_blocks"
  shows "\<exists>p' bs. runAll testWorker (p, taken_blocks) is = Inr (p', bs) \<and> pool_wf p' \<and> distinct bs \<and> dom (live p') = set bs \<and>
    vsize (memoryBlocks p') = vsize (memoryBlocks p)"
  using assms
proof (induction "is" arbitrary: p taken_blocks)
  case (Cons i js)
  have "\<exists>p1 bs. testWorker (p, taken_blocks) i = Inr (p1, bs) \<and> pool_wf p1 \<and> distinct bs \<and> dom (live p1) = set bs \<and>
      vsize (memoryBlocks p1) = vsize (memoryBlocks p)"
  proof (cases "i mod 2 = 0 \<or> taken_blocks = []")
    case True
    show ?thesis
    proof (cases "card (dom (live p)) < vsize (memoryBlocks p)")
      case room: True
      let ?n = "nextFreeIndex p"
      obtain p1 where p1: "allocate p (int i, int i) = Inr (Some ?n, p1)" "pool_wf p1" "live p ?n = None"
        "live p1 = (live p)(?n \<mapsto> (int i, int i))" "vsize (memoryBlocks p1) = vsize (memoryBlocks p)"
        using mp.alloc_room [OF Cons.prems(1) room] by blast
      have "?n \<notin> set taken_blocks" using p1(3) Cons.prems(3) by auto
      with p1 True Cons.prems(2,3) show ?thesis
        by (intro exI [of _ p1] exI [of _ "?n # taken_blocks"]) (simp add: testWorker_def)
    next
      case False
      then have "card (dom (live p)) = vsize (memoryBlocks p)" using card_dom_live_le [of p] by simp
      from allocate_full [OF Cons.prems(1) this, of "(int i, int i)"] True Cons.prems show ?thesis by (auto simp: testWorker_def)
    qed
  next
    case False
    then obtain b bs where bs: "taken_blocks = b # bs" by (cases taken_blocks) auto
    then have "b \<in> dom (live p)" using Cons.prems(3) by simp
    then have "live p b = Some (the (live p b))" by (metis domD option.sel)
    from mp.dealloc_live [OF Cons.prems(1) this] obtain p1 where p1: "deallocate p b = Inr p1" "pool_wf p1"
      "live p1 = (live p)(b := None)" "vsize (memoryBlocks p1) = vsize (memoryBlocks p)" by blast
    with bs False Cons.prems(2,3) show ?thesis by (intro exI [of _ p1] exI [of _ bs]) (auto simp: testWorker_def)
  qed
  then obtain p1 bs where "testWorker (p, taken_blocks) i = Inr (p1, bs)" "pool_wf p1" "distinct bs" "dom (live p1) = set bs"
    "vsize (memoryBlocks p1) = vsize (memoryBlocks p)" by blast
  with Cons.IH [of p1 bs] show ?case by auto
qed auto

lemma pool_tests:
  "testInitialStateIsEmpty = Inr True" "testAllocateAndDeallocate = Inr True" "testAllocateUntilFull = Inr True"
  "testDeallocateAll = Inr True" "testConcurrentAllocateAndDeallocate = Inr True" "testOverAllocate = Inr True"
proof -
  obtain p :: "TestData MemoryPool" where p: "MemoryPool_init POOL_SIZE = Inr p" "pool_wf p" "live p = Map.empty"
    "vsize (memoryBlocks p) = POOL_SIZE" by (rule test_pool)
  have len: "length (replicate POOL_SIZE (0, 0)) = POOL_SIZE" "length count_up = POOL_SIZE"
    "length (map (\<lambda>i. (int i, 0 :: int)) [0..<POOL_SIZE]) = POOL_SIZE" by (simp_all add: count_up_def)
  obtain as p1 where a: "alloc_list allocate p (replicate POOL_SIZE (0, 0)) = Inr (map Some as, p1)" "allocate p1 (0, 0) = Inr (None, p1)"
    by (rule fill_pool [OF p(2-4) len(1)])
  show "testInitialStateIsEmpty = Inr True" using a by (simp add: testInitialStateIsEmpty_def p(1) del: bind_res_eq_Inr)
  obtain as p1 where b: "alloc_list allocate p count_up = Inr (map Some as, p1)" "pool_wf p1" "distinct as" "dom (live p1) = set as"
    "vsize (memoryBlocks p1) = POOL_SIZE" "allocate p1 (int POOL_SIZE, int POOL_SIZE) = Inr (None, p1)"
    by (rule fill_pool [OF p(2-4) len(2)])
  obtain p2 where e: "runAll deallocate p1 as = Inr p2" "pool_wf p2" "live p2 = Map.empty" "vsize (memoryBlocks p2) = POOL_SIZE"
    using empty_pool [OF b(2-4)] b(5) by metis
  have the: "map the (map Some as) = as" by (simp add: map_idI)
  show "testAllocateUntilFull = Inr True"
    using b(1,6) e(1) by (auto simp: testAllocateUntilFull_def p(1) the simp del: map_map)
  obtain cs p3 where c: "alloc_list allocate p2 (replicate POOL_SIZE (0, 0)) = Inr (map Some cs, p3)"
    by (rule fill_pool [OF e(2-4) len(1)])
  show "testDeallocateAll = Inr True" using b(1) e(1) c by (auto simp: testDeallocateAll_def p(1) the simp del: map_map)
  obtain as p1 where o: "alloc_list allocate p (map (\<lambda>i. (int i, 0)) [0..<POOL_SIZE]) = Inr (map Some as, p1)"
    "allocate p1 (int POOL_SIZE, 0) = Inr (None, p1)" "getFreeBlocksCount p1 = 0"
    by (rule fill_pool [OF p(2-4) len(3)])
  show "testOverAllocate = Inr True" using o by (auto simp: testOverAllocate_def p(1))
  obtain p4 bs where w: "runAll testWorker (p, []) [0..<POOL_SIZE * 10] = Inr (p4, bs)" "pool_wf p4" "distinct bs" "dom (live p4) = set bs"
    "vsize (memoryBlocks p4) = POOL_SIZE" using testWorker_ok [OF p(2), of "[]" "[0..<POOL_SIZE * 10]"] p(3,4) by auto
  obtain p5 where f: "runAll deallocate p4 (rev bs) = Inr p5" "pool_wf p5" "live p5 = Map.empty" "vsize (memoryBlocks p5) = POOL_SIZE"
    using empty_pool [OF w(2), of "rev bs"] w(3-5) by (metis distinct_rev set_rev)
  obtain ds p6 where g: "alloc_list allocate p5 (replicate POOL_SIZE (0, 0)) = Inr (map Some ds, p6)" "length ds = POOL_SIZE"
    by (rule fill_pool [OF f(2-4) len(1)])
  show "testConcurrentAllocateAndDeallocate = Inr True"
    using w(1) f(1) g by (simp add: testConcurrentAllocateAndDeallocate_def p(1) filter_map comp_def)
  have room: "card (dom (live p)) < vsize (memoryBlocks p)" using p(3,4) by (simp add: POOL_SIZE_def)
  obtain q where q: "allocate p (1, 2) = Inr (Some (nextFreeIndex p), q)" "pool_wf q" "live q (nextFreeIndex p) = Some (1, 2)"
    using mp.alloc_room [OF p(2) room] by fastforce
  obtain q1 q2 where r: "deallocate q (nextFreeIndex p) = Inr q1" "allocate q1 (3, 4) = Inr (Some (nextFreeIndex p), q2)"
    "live q2 = (live q)(nextFreeIndex p \<mapsto> (3, 4))" using mp.realloc_same_addr [OF q(2,3), of "(3, 4)"] by blast
  show "testAllocateAndDeallocate = Inr True" using q r by (simp add: testAllocateAndDeallocate_def p(1))
qed

section \<open>Queue\<close>

definition QUEUE_SIZE :: nat where
  "QUEUE_SIZE = 100"

text \<open>A loop of pushes with the expectation that each succeeds, and a loop of pops with the expectation on each value.\<close>

fun pushEach :: "int LFQueue \<Rightarrow> int list \<Rightarrow> (bool \<times> int LFQueue) res" where
  "pushEach q [] = Inr (True, q)"
| "pushEach q (i # is) = bind_res (push q i) (\<lambda>(ok, q). bind_res (pushEach q is) (\<lambda>(oks, q). Inr (ok \<and> oks, q)))"

fun popEach :: "int LFQueue \<Rightarrow> int list \<Rightarrow> (bool \<times> int LFQueue) res" where
  "popEach q [] = Inr (True, q)"
| "popEach q (i # is) = bind_res (pop q) (\<lambda>(result, q). bind_res (popEach q is) (\<lambda>(oks, q). Inr (result = Some i \<and> oks, q)))"

definition testQueueInitialState :: bool where
  "testQueueInitialState \<longleftrightarrow> size_q (LFQueue_init (0 :: int) QUEUE_SIZE) = 0"

definition testPushAndPopSingleElement :: "bool res" where
  "testPushAndPopSingleElement =
     bind_res (push (LFQueue_init 0 QUEUE_SIZE) (42 :: int)) (\<lambda>(ok, q).
     bind_res (pop q) (\<lambda>(result, q').
       Inr (ok \<and> size_q q = 1 \<and> result = Some 42 \<and> size_q q' = 0)))"

definition testPushUntilFull :: "bool res" where
  "testPushUntilFull =
     bind_res (pushEach (LFQueue_init 0 QUEUE_SIZE) (map int [0..<QUEUE_SIZE])) (\<lambda>(ok, q).
     bind_res (push q (int QUEUE_SIZE)) (\<lambda>(over, q').
       Inr (ok \<and> size_q q = QUEUE_SIZE \<and> \<not> over)))"

definition testPopUntilEmpty :: "bool res" where
  "testPopUntilEmpty =
     bind_res (pushEach (LFQueue_init 0 QUEUE_SIZE) (map int [0..<QUEUE_SIZE])) (\<lambda>(ok, q).
     bind_res (popEach q (map int [0..<QUEUE_SIZE])) (\<lambda>(ok', q).
     bind_res (pop q) (\<lambda>(result, q').
       Inr (ok \<and> ok' \<and> size_q q = 0 \<and> result = None))))"

definition testPushPopMultipleElements :: "nat \<Rightarrow> bool res" where
  "testPushPopMultipleElements num_elements =
     bind_res (pushEach (LFQueue_init 0 QUEUE_SIZE) (map int [0..<num_elements])) (\<lambda>(ok, q).
     bind_res (popEach q (map int [0..<num_elements])) (\<lambda>(ok', q').
       Inr (ok \<and> size_q q = num_elements \<and> ok' \<and> size_q q' = 0)))"

definition VaryingElementCounts :: "nat list" where
  "VaryingElementCounts = [1, 10, 50, 99, 100]"

lemma pushEach_fits:
  assumes "queue_wf q" "length (contents q) + length is \<le> vsize (queue q)"
  shows "\<exists>q'. pushEach q is = Inr (True, q') \<and> queue_wf q' \<and> contents q' = contents q @ is \<and> vsize (queue q') = vsize (queue q)"
  using assms
proof (induction "is" arbitrary: q)
  case (Cons i js)
  then obtain q1 where q1: "push q i = Inr (True, q1)" "queue_wf q1" "contents q1 = contents q @ [i]" "vsize (queue q1) = vsize (queue q)"
    using push_room [OF Cons.prems(1), of i] by auto
  moreover have "length (contents q1) + length js \<le> vsize (queue q1)" using Cons.prems(2) q1(3,4) unfolding q1(3) by simp
  ultimately show ?case using Cons.IH [of q1] by auto
qed simp

lemma popEach_expected:
  assumes "queue_wf q" "contents q = is @ js"
  shows "\<exists>q'. popEach q is = Inr (True, q') \<and> queue_wf q' \<and> contents q' = js"
  using assms
proof (induction "is" arbitrary: q)
  case (Cons i ks)
  then obtain q1 where "pop q = Inr (Some i, q1)" "queue_wf q1" "contents q1 = ks @ js" using pop_some [of q i "ks @ js"] by auto
  with Cons.IH [of q1] show ?case by auto
qed simp

lemma size_contents: "size_q q = length (contents q)"
  by (simp add: size_q_def)

lemma push_pop_each:
  assumes "length is \<le> QUEUE_SIZE"
  obtains q q' where "pushEach (LFQueue_init 0 QUEUE_SIZE) is = Inr (True, q)" "queue_wf q" "contents q = is" "vsize (queue q) = QUEUE_SIZE"
    "popEach q is = Inr (True, q')" "contents q' = []" "pop q' = Inr (None, q')"
proof -
  have "queue_wf (LFQueue_init (0 :: int) QUEUE_SIZE)" by (rule LFQueue_init_wf) (simp add: QUEUE_SIZE_def)
  from pushEach_fits [OF this, of "is"] assms obtain q where q: "pushEach (LFQueue_init 0 QUEUE_SIZE) is = Inr (True, q)" "queue_wf q"
    "contents q = is" "vsize (queue q) = QUEUE_SIZE" by auto
  from popEach_expected [OF q(2), of "is" "[]"] q(3) obtain q' where "popEach q is = Inr (True, q')" "contents q' = []" by auto
  with q that pop_none show thesis by blast
qed

lemma testPushPopMultipleElements_ok: "n \<le> QUEUE_SIZE \<Longrightarrow> testPushPopMultipleElements n = Inr True"
  by (rule push_pop_each [of "map int [0..<n]"])
    (auto simp: testPushPopMultipleElements_def size_contents simp del: length_contents)

lemma queue_tests:
  "testQueueInitialState" "testPushAndPopSingleElement = Inr True" "testPushUntilFull = Inr True" "testPopUntilEmpty = Inr True"
  "\<forall>n\<in>set VaryingElementCounts. testPushPopMultipleElements n = Inr True"
proof -
  show "testQueueInitialState" by (simp add: testQueueInitialState_def size_q_def LFQueue_init_def)
  show "\<forall>n\<in>set VaryingElementCounts. testPushPopMultipleElements n = Inr True"
    using testPushPopMultipleElements_ok by (simp add: VaryingElementCounts_def QUEUE_SIZE_def)
  obtain q q' where "pushEach (LFQueue_init 0 QUEUE_SIZE) [42] = Inr (True, q)" "contents q = [42]"
    "popEach q [42] = Inr (True, q')" "contents q' = []" by (rule push_pop_each [of "[42]"]) (simp add: QUEUE_SIZE_def, blast)
  then show "testPushAndPopSingleElement = Inr True"
    by (auto simp: testPushAndPopSingleElement_def size_contents simp del: length_contents)
  obtain q q' where q: "pushEach (LFQueue_init 0 QUEUE_SIZE) (map int [0..<QUEUE_SIZE]) = Inr (True, q)" "queue_wf q"
    "contents q = map int [0..<QUEUE_SIZE]" "vsize (queue q) = QUEUE_SIZE"
    "popEach q (map int [0..<QUEUE_SIZE]) = Inr (True, q')" "contents q' = []" "pop q' = Inr (None, q')"
    by (rule push_pop_each [of "map int [0..<QUEUE_SIZE]"]) auto
  have size: "size_q q = QUEUE_SIZE" "size_q q' = 0" using q(3,6) by (simp_all add: size_contents del: length_contents)
  have "push q (int QUEUE_SIZE) = Inr (False, q)" by (rule push_full) (use q(4) size(1) in \<open>simp add: size_q_def\<close>)
  then show "testPushUntilFull = Inr True" "testPopUntilEmpty = Inr True"
    using q(1,5,7) size by (simp_all add: testPushUntilFull_def testPopUntilEmpty_def)
qed

text \<open>The test with two threads: the producer pushes the numbers from 1 on, each until it is accepted, and stops after
  \<open>N\<close>; the consumer pops until it has \<open>N\<close> numbers.\<close>

inductive concurrentPushPop :: "nat \<Rightarrow> int SharedQueue \<Rightarrow> int SharedQueue \<Rightarrow> bool" for N s where
  start: "concurrentPushPop N s s"
| next_push: "concurrentPushPop N s s' \<Longrightarrow> producers s' 0 = PIdle \<Longrightarrow> length (accepted s') < N \<Longrightarrow>
    concurrentPushPop N s (setProducer s' 0 (PCheck (int (Suc (length (accepted s'))))))"
| producer: "concurrentPushPop N s s' \<Longrightarrow> producers s' 0 \<noteq> PIdle \<Longrightarrow> producerStep 0 s' s'' \<Longrightarrow> concurrentPushPop N s s''"
| consumer: "concurrentPushPop N s s' \<Longrightarrow> length (taken s') < N \<Longrightarrow> consumerStep s' s'' \<Longrightarrow> concurrentPushPop N s s''"

text \<open>Both threads have returned; what the test then expects of the numbers taken.\<close>

definition joined :: "nat \<Rightarrow> int SharedQueue \<Rightarrow> bool" where
  "joined N s \<longleftrightarrow> producers s 0 = PIdle \<and> length (accepted s) = N \<and> consumer s = CIdle \<and> length (taken s) = N"

definition expectedSum :: "nat \<Rightarrow> int SharedQueue \<Rightarrow> bool" where
  "expectedSum N s \<longleftrightarrow> length (taken s) = N \<and> sum_list (taken s) = int N * (int N + 1) div 2"

fun inHandOf :: "'a producer \<Rightarrow> 'a option" where
  "inHandOf PIdle = None"
| "inHandOf (PCheck v) = Some v"
| "inHandOf (PStore v slot) = Some v"
| "inHandOf (PIndex v) = Some v"
| "inHandOf (PCount v) = Some v"

definition counting :: "nat \<Rightarrow> int SharedQueue \<Rightarrow> bool" where
  "counting N s \<longleftrightarrow> accepted s = map int [1..<Suc (length (accepted s))] \<and>
     (\<forall>v. inHandOf (producers s 0) = Some v \<longrightarrow> v = int (Suc (length (accepted s)))) \<and>
     length (accepted s) \<le> N \<and> (length (accepted s) = N \<longrightarrow> producers s 0 = PIdle) \<and>
     length (taken s) \<le> N \<and> (length (taken s) = N \<longrightarrow> consumer s = CIdle)"

lemma counting_producer: "producerStep 0 s s' \<Longrightarrow> producers s 0 \<noteq> PIdle \<Longrightarrow> counting N s \<Longrightarrow> counting N s'"
  by (cases rule: producerStep.cases) (auto simp: counting_def setProducer_def)

lemma counting_consumer: "consumerStep s s' \<Longrightarrow> length (taken s) < N \<Longrightarrow> counting N s \<Longrightarrow> counting N s'"
  by (cases rule: consumerStep.cases) (auto simp: counting_def)

lemma concurrentPushPop_inv:
  assumes "concurrentPushPop N s s'" "shared_inv s" "counting N s"
  shows "shared_inv s' \<and> counting N s'"
  using assms
proof (induction rule: concurrentPushPop.induct)
  case (next_push s')
  then have "shared_inv (setProducer s' 0 (PCheck (int (Suc (length (accepted s'))))))"
    using producerStep_inv [OF producerStep.begin_push [OF next_push.hyps(2)]] by simp
  with next_push show ?case by (auto simp: counting_def setProducer_def)
next
  case (producer s' s'')
  then show ?case using counting_producer [of s' s'' N] producerStep_inv [of s' s''] by simp
next
  case (consumer s' s'')
  then show ?case using counting_consumer [of s' s'' N] consumerStep_inv [of s' s''] by simp
qed simp

lemma concurrent_start: "shared_inv (SharedQueue_init (0 :: int) QUEUE_SIZE)" "counting N (SharedQueue_init 0 QUEUE_SIZE)"
  using SharedQueue_init_inv [of QUEUE_SIZE] by (simp_all add: QUEUE_SIZE_def counting_def SharedQueue_init_def)

lemma sum_first: "sum_list (map int [1..<Suc n]) = int n * (int n + 1) div 2"
proof (induction n)
  case (Suc n)
  then have "sum_list (map int [1..<Suc (Suc n)]) = int n * (int n + 1) div 2 + (int n + 1)" by simp
  also have "\<dots> = (int n * (int n + 1) + (int n + 1) * 2) div 2" by simp
  also have "int n * (int n + 1) + (int n + 1) * 2 = int (Suc n) * (int (Suc n) + 1)" by (simp add: algebra_simps)
  finally show ?case .
qed simp

lemma concurrent_sum:
  assumes "shared_inv s" "counting N s" "joined N s"
  shows "expectedSum N s"
proof -
  have "take (length (taken s)) (accepted s) = taken s" using assms(1) by (simp add: shared_inv_def)
  with assms(3) have "taken s = accepted s" by (simp add: joined_def)
  also have "\<dots> = map int [1..<Suc N]" using assms(2,3) unfolding counting_def joined_def by metis
  finally show ?thesis using sum_first [of N] assms(3) unfolding expectedSum_def joined_def by simp
qed

text \<open>The steps left: every step but a refused push and an empty pop brings the end nearer, and there always is such a step.\<close>

fun producerPhase :: "'a producer \<Rightarrow> nat" where
  "producerPhase PIdle = 0"
| "producerPhase (PCheck v) = 1"
| "producerPhase (PStore v slot) = 2"
| "producerPhase (PIndex v) = 3"
| "producerPhase (PCount v) = 4"

fun consumerPhase :: "'a consumer \<Rightarrow> nat" where
  "consumerPhase CIdle = 0"
| "consumerPhase CCheck = 1"
| "consumerPhase (CLoad slot) = 2"
| "consumerPhase (CAssert v) = 3"
| "consumerPhase (CIndex v) = 4"
| "consumerPhase (CCount v) = 5"
| "consumerPhase CFailed = 0"

definition stepsDone :: "'a SharedQueue \<Rightarrow> nat" where
  "stepsDone s = 5 * length (accepted s) + producerPhase (producers s 0) + 6 * length (taken s) + consumerPhase (consumer s)"

lemma consumer_advances:
  assumes "consumerStep s s'" "consumer s = CCheck \<Longrightarrow> numElements (shared s) \<noteq> 0" "shared_inv s"
  shows "stepsDone s < stepsDone s'"
  using assms by (cases rule: consumerStep.cases) (auto simp: stepsDone_def getNextToRead_def inv_defs split: if_splits)

lemma producer_advances:
  assumes "producerStep 0 s s'" "producers s 0 \<noteq> PIdle" "numElements (shared s) = 0" "shared_inv s"
  shows "stepsDone s < stepsDone s'"
  using assms by (cases rule: producerStep.cases) (auto simp: stepsDone_def getNextToWrite_def inv_defs split: if_splits)

lemma concurrent_advances:
  assumes "shared_inv s" "counting N s" "\<not> joined N s"
  shows "\<exists>s'. concurrentPushPop N s s' \<and> stepsDone s < stepsDone s'"
proof (cases "length (taken s) < N \<and> (consumer s = CCheck \<longrightarrow> numElements (shared s) \<noteq> 0)")
  case True
  obtain s' where "consumerStep s s'" using consumer_live [OF assms(1)] by blast
  with True consumer_advances [OF this _ assms(1)] concurrentPushPop.consumer [OF concurrentPushPop.start] show ?thesis by blast
next
  case False
  have len: "length (accepted s) = length (taken s) + numElements (shared s)" using assms(1) by (simp add: shared_inv_def)
  have open_end: "length (taken s) < N"
  proof (rule ccontr)
    assume "\<not> length (taken s) < N"
    then have "length (taken s) = N" "length (accepted s) = N" using assms(2) len by (auto simp: counting_def)
    with assms(2,3) show False by (auto simp: joined_def counting_def)
  qed
  with False have none: "numElements (shared s) = 0" by simp
  show ?thesis
  proof (cases "producers s 0 = PIdle")
    case True
    have "length (accepted s) < N" using open_end none len by simp
    from concurrentPushPop.next_push [OF concurrentPushPop.start True this] True show ?thesis
      by (auto simp: stepsDone_def setProducer_def)
  next
    case False
    obtain s' where "producerStep 0 s s'" using producer_live [OF assms(1)] by blast
    with False producer_advances [OF this False none assms(1)] concurrentPushPop.producer [OF concurrentPushPop.start]
    show ?thesis by blast
  qed
qed

lemma concurrentPushPop_trans: "concurrentPushPop N s' s'' \<Longrightarrow> concurrentPushPop N s s' \<Longrightarrow> concurrentPushPop N s s''"
  by (induction rule: concurrentPushPop.induct) (blast intro: concurrentPushPop.intros)+

lemma stepsDone_le:
  assumes "counting N s"
  shows "stepsDone s \<le> 11 * N + 9"
proof -
  have "producerPhase (producers s 0) \<le> 4" by (cases "producers s 0") auto
  moreover have "consumerPhase (consumer s) \<le> 5" by (cases "consumer s") auto
  moreover have "length (accepted s) \<le> N" "length (taken s) \<le> N" using assms by (simp_all add: counting_def)
  ultimately show ?thesis unfolding stepsDone_def by linarith
qed

lemma concurrent_joins:
  assumes "shared_inv s" "counting N s"
  shows "\<exists>s'. concurrentPushPop N s s' \<and> joined N s'"
  using assms
proof (induction "11 * N + 9 - stepsDone s" arbitrary: s rule: less_induct)
  case less
  show ?case
  proof (cases "joined N s")
    case True
    then show ?thesis using concurrentPushPop.start by blast
  next
    case False
    from concurrent_advances [OF less.prems False] obtain s1 where s1: "concurrentPushPop N s s1" "stepsDone s < stepsDone s1" by blast
    have inv: "shared_inv s1" "counting N s1" using concurrentPushPop_inv [OF s1(1) less.prems] by auto
    have "11 * N + 9 - stepsDone s1 < 11 * N + 9 - stepsDone s" using s1(2) stepsDone_le [OF inv(2)] by linarith
    from less.hyps [OF this inv] s1(1) concurrentPushPop_trans show ?thesis by blast
  qed
qed

section \<open>Logger\<close>

text \<open>A test of the logger: its file is replaced by a fresh one, the messages are logged, the writer thread has some rounds, and
  the file is read back.\<close>

definition loggerTest :: "((nat \<Rightarrow> string) \<times> bool) list \<Rightarrow> Logger \<Rightarrow> (LogLevel \<times> string \<times> any list) list \<Rightarrow> string res" where
  "loggerTest rounds L calls =
     bind_res (setLogFile L (Some [])) (\<lambda>L1.
     bind_res (runAll (logThrough (toElement (INFO, [], [])) None) (Some L1) calls) (\<lambda>inst.
     bind_res (flushQueue rounds (the inst)) (\<lambda>L2. Inr (logFile L2))))"

abbreviation found :: "string list \<Rightarrow> string res \<Rightarrow> bool" where
  "found expected r \<equiv> (case r of Inl e \<Rightarrow> False | Inr logContent \<Rightarrow> list_all (\<lambda>m. sublist m logContent) expected)"

definition testLogLevels :: "((nat \<Rightarrow> string) \<times> bool) list \<Rightarrow> Logger \<Rightarrow> bool" where
  "testLogLevels rounds L \<longleftrightarrow>
     found [''[DEBUG] Debug message'', ''[INFO] Info message'', ''[WARNING] Warning message'', ''[ERROR] Error message'']
       (loggerTest rounds L [(DEBUG, ''Debug message'', []), (INFO, ''Info message'', []), (WARNING, ''Warning message'', []),
          (ERROR, ''Error message'', [])])"

definition testFormatString :: "((nat \<Rightarrow> string) \<times> bool) list \<Rightarrow> Logger \<Rightarrow> bool" where
  "testFormatString rounds L \<longleftrightarrow>
     found [''Formatted message: Hello World'']
       (loggerTest rounds L [(INFO, ''Formatted message: {} {}'', [AnyCharPtr ''Hello'', AnyCharPtr ''World''])])"

definition testMultipleArguments :: "((nat \<Rightarrow> string) \<times> bool) list \<Rightarrow> Logger \<Rightarrow> bool" where
  "testMultipleArguments rounds L \<longleftrightarrow>
     found [''Multiple types: 42 3.140000 true A'']
       (loggerTest rounds L
          [(INFO, ''Multiple types: {} {} {} {}'', [AnyInt 42, AnyDouble ''3.140000'', AnyBool True, AnyCharPtr ''A''])])"

definition testSingleProducerLogging :: "((nat \<Rightarrow> string) \<times> bool) list \<Rightarrow> Logger \<Rightarrow> bool" where
  "testSingleProducerLogging rounds L \<longleftrightarrow>
     found (map (\<lambda>i. ''Message '' @ to_string_nat i @ '' from iteration'') [0..<4])
       (loggerTest rounds L (map (\<lambda>i. (INFO, ''Message {} from iteration'', [AnyInt (word_of_nat i)])) [0..<4]))"

definition testLargeNumberOfLogs :: "((nat \<Rightarrow> string) \<times> bool) list \<Rightarrow> Logger \<Rightarrow> bool" where
  "testLargeNumberOfLogs rounds L \<longleftrightarrow>
     (case loggerTest rounds L (map (\<lambda>i. (INFO, ''Log message {}'', [AnyInt (word_of_nat i)])) [0..<3000]) of
        Inl e \<Rightarrow> False
      | Inr logContent \<Rightarrow> length (filter (\<lambda>c. c = CHR 0x0A) logContent) = 3000)"

text \<open>A logger between two tests: nothing waits, the thread runs.\<close>

definition quiet :: "Logger \<Rightarrow> bool" where
  "quiet L \<longleftrightarrow> queue_wf (logQueue L) \<and> contents (logQueue L) = [] \<and> vsize (queue (logQueue L)) = LOG_QUEUE_SIZE \<and> running L"

lemma log_all:
  assumes "queue_wf (logQueue L)" "length (contents (logQueue L)) + length calls \<le> vsize (queue (logQueue L))"
  shows "\<exists>L1. runAll (logThrough d None) (Some L) calls = Inr (Some L1) \<and> queue_wf (logQueue L1) \<and> logFile L1 = logFile L \<and>
    fileGood L1 = fileGood L \<and> running L1 = running L \<and> contents (logQueue L1) = contents (logQueue L) @ map toElement calls"
  using assms
proof (induction calls arbitrary: L)
  case (Cons c cs)
  obtain q where q: "logThrough d None (Some L) c = Inr (Some (L\<lparr>logQueue := q\<rparr>))" "queue_wf q"
    "vsize (queue q) = vsize (queue (logQueue L))" "contents q = contents (logQueue L) @ [toElement c]"
    using logThrough_one [OF Cons.prems(1), of d None c] Cons.prems(2) by auto
  have "length (contents q) + length cs \<le> vsize (queue q)" using Cons.prems(2) q(3) unfolding q(4) by simp
  with Cons.IH [of "L\<lparr>logQueue := q\<rparr>"] q show ?case by auto
qed simp

lemma loggerTest_file:
  assumes "quiet L" "\<forall>r\<in>set rounds. snd r" "length calls \<le> 100 * length rounds" "length calls \<le> LOG_QUEUE_SIZE"
  shows "loggerTest rounds L calls = Inr (linesIn rounds (map toElement calls))"
proof -
  let ?L = "L\<lparr>logFile := [], fileGood := True\<rparr>"
  have L: "queue_wf (logQueue ?L)" "length (contents (logQueue ?L)) + length calls \<le> vsize (queue (logQueue ?L))"
    using assms(1,4) unfolding quiet_def by simp_all
  obtain L1 where L1: "runAll (logThrough (toElement (INFO, [], [])) None) (Some ?L) calls = Inr (Some L1)" "queue_wf (logQueue L1)"
    "logFile L1 = []" "fileGood L1" "running L1" "contents (logQueue L1) = map toElement calls"
    using log_all [OF L, of "toElement (INFO, [], [])"] assms(1) by (auto simp: quiet_def simp del: length_contents)
  obtain L2 where "flushQueue rounds L1 = Inr L2" "logFile L2 = linesIn rounds (map toElement calls)"
    using flushQueue_writes [OF L1(2,4,5) assms(2)] L1(3,6) by auto
  with L1(1) show ?thesis by (simp add: loggerTest_def setLogFile_def)
qed

lemma linesOf_has:
  "e \<in> set es \<Longrightarrow> \<exists>t. sublist (appendToBuffer t e []) (linesOf time es)"
proof (induction es arbitrary: time)
  case (Cons f es)
  show ?case
  proof (cases "e = f")
    case True
    then show ?thesis by (auto intro: exI [of _ "time 0"])
  next
    case False
    then obtain t where "sublist (appendToBuffer t e []) (linesOf (\<lambda>k. time (Suc k)) es)"
      using Cons.prems Cons.IH [of "\<lambda>k. time (Suc k)"] by auto
    from sublist_order.order.trans [OF this sublist_append_leftI] show ?thesis by auto
  qed
qed simp

lemma linesIn_has:
  "e \<in> set es \<Longrightarrow> length es \<le> 100 * length rounds \<Longrightarrow> \<exists>t. sublist (appendToBuffer t e []) (linesIn rounds es)"
proof (induction rounds arbitrary: es)
  case (Cons r rounds)
  obtain time ok where r: "r = (time, ok)" by (cases r)
  have "e \<in> set (take 100 es) \<or> e \<in> set (drop 100 es)" using Cons.prems(1) by (metis append_take_drop_id Un_iff set_append)
  then show ?case
  proof
    assume "e \<in> set (take 100 es)"
    from linesOf_has [OF this, of time] obtain t where "sublist (appendToBuffer t e []) (linesOf time (take 100 es))" ..
    from sublist_order.order.trans [OF this sublist_append_rightI] r show ?thesis by auto
  next
    assume "e \<in> set (drop 100 es)"
    moreover have "length (drop 100 es) \<le> 100 * length rounds" using Cons.prems(2) by simp
    ultimately obtain t where "sublist (appendToBuffer t e []) (linesIn rounds (drop 100 es))" using Cons.IH by blast
    from sublist_order.order.trans [OF this sublist_append_leftI] r show ?thesis by auto
  qed
qed simp

text \<open>A message in the file, from its level on.\<close>

definition messageText :: "LogLevel \<times> string \<times> any list \<Rightarrow> string" where
  "messageText call = (case call of (level, fs, args) \<Rightarrow> ''['' @ logLevelStr level @ ''] '' @ interpolate fs args)"

lemma line_has_message: "appendToBuffer t (toElement call) [] = (''['' @ t @ ''] '') @ messageText call @ [CHR 0x0A]"
  using formatLoop_interpolates [of "[]"]
  by (simp add: appendToBuffer_def toElement_def messageText_def formatMessage_def split: prod.split)

lemma message_found:
  assumes "quiet L" "\<forall>r\<in>set rounds. snd r" "length calls \<le> 100 * length rounds" "length calls \<le> LOG_QUEUE_SIZE"
    "\<forall>m\<in>set expected. \<exists>c\<in>set calls. sublist m (messageText c)"
  shows "found expected (loggerTest rounds L calls)"
proof -
  have "sublist m (linesIn rounds (map toElement calls))" if "m \<in> set expected" for m
  proof -
    from assms(5) that obtain c where c: "c \<in> set calls" "sublist m (messageText c)" by blast
    have "\<exists>t. sublist (appendToBuffer t (toElement c) []) (linesIn rounds (map toElement calls))"
      by (rule linesIn_has) (use c(1) assms(3) in simp_all)
    then obtain t where t: "sublist (appendToBuffer t (toElement c) []) (linesIn rounds (map toElement calls))" ..
    have "sublist (messageText c) (appendToBuffer t (toElement c) [])" unfolding line_has_message by (rule sublist_appendI)
    from sublist_order.order.trans [OF c(2) sublist_order.order.trans [OF this t]] show ?thesis .
  qed
  then show ?thesis by (simp add: loggerTest_file [OF assms(1-4)] list_all_iff)
qed

lemma sint_small: "n < 2 ^ 31 \<Longrightarrow> sint (word_of_nat n :: 32 word) = int n"
  by (simp add: signed_of_nat signed_take_bit_int_eq_self)

lemma interpolate_pre: "CHR ''{'' \<notin> set pre \<Longrightarrow> interpolate (pre @ CHR ''{'' # CHR ''}'' # fs) (a # as) = pre @ anyToString a @ interpolate fs as"
proof (induction pre)
  case (Cons c pre)
  then obtain d ds where d: "pre @ CHR ''{'' # CHR ''}'' # fs = d # ds" by (cases pre) auto
  with Cons show ?case by auto
qed simp

lemma no_line_end: "CHR 0x0A \<notin> set (to_string_nat n)"
  using to_string_nat_digits [of n] by auto

text \<open>The line ends in the file are those between the messages.\<close>

abbreviation lineEnds :: "string \<Rightarrow> nat" where
  "lineEnds s \<equiv> length (filter (\<lambda>c. c = CHR 0x0A) s)"

lemma linesOf_ends:
  assumes "\<forall>k. CHR 0x0A \<notin> set (time k)" "\<forall>c\<in>set calls. CHR 0x0A \<notin> set (messageText c)"
  shows "lineEnds (linesOf time (map toElement calls)) = length calls"
  using assms
proof (induction calls arbitrary: time)
  case (Cons c cs)
  have "lineEnds (appendToBuffer (time 0) (toElement c) []) = 1"
    using Cons.prems unfolding line_has_message by (auto simp: filter_empty_conv)
  with Cons.IH [of "\<lambda>k. time (Suc k)"] Cons.prems show ?case by simp
qed simp

lemma linesIn_ends:
  assumes "\<forall>r\<in>set rounds. \<forall>k. CHR 0x0A \<notin> set (fst r k)" "\<forall>c\<in>set calls. CHR 0x0A \<notin> set (messageText c)"
    "length calls \<le> 100 * length rounds"
  shows "lineEnds (linesIn rounds (map toElement calls)) = length calls"
  using assms
proof (induction rounds arbitrary: calls)
  case (Cons r rounds)
  obtain time ok where r: "r = (time, ok)" by (cases r)
  have "lineEnds (linesOf time (map toElement (take 100 calls))) = length (take 100 calls)"
    by (rule linesOf_ends) (use Cons.prems r in \<open>auto dest: in_set_takeD\<close>)
  moreover have "lineEnds (linesIn rounds (map toElement (drop 100 calls))) = length (drop 100 calls)"
    by (rule Cons.IH) (use Cons.prems in \<open>auto dest: in_set_dropD\<close>)
  ultimately show ?case by (simp add: r take_map drop_map)
qed simp

lemma numbered_text:
  assumes "i < 2 ^ 31" "CHR ''{'' \<notin> set pre"
  shows "messageText (level, pre @ CHR ''{'' # CHR ''}'' # fs, [AnyInt (word_of_nat i)]) =
    ''['' @ logLevelStr level @ ''] '' @ pre @ to_string_nat i @ fs"
  using sint_small [OF assms(1)] interpolate_pre [OF assms(2)] by (simp add: messageText_def to_string_int_def)

lemma logger_tests:
  assumes "quiet L" "\<forall>r\<in>set rounds. snd r" "30 \<le> length rounds" "\<forall>r\<in>set rounds. \<forall>k. CHR 0x0A \<notin> set (fst r k)"
  shows "testLogLevels rounds L" "testFormatString rounds L" "testMultipleArguments rounds L" "testSingleProducerLogging rounds L"
    "testLargeNumberOfLogs rounds L"
proof -
  note found = message_found [OF assms(1,2)]
  show "testLogLevels rounds L" unfolding testLogLevels_def
    by (rule found) (use assms(3) in \<open>simp_all add: LOG_QUEUE_SIZE_def messageText_def\<close>)
  show "testFormatString rounds L" unfolding testFormatString_def
    by (rule found) (use assms(3) in \<open>simp_all add: LOG_QUEUE_SIZE_def messageText_def sublist_code\<close>)
  show "testMultipleArguments rounds L" unfolding testMultipleArguments_def
    by (rule found) (use assms(3) in \<open>simp_all add: LOG_QUEUE_SIZE_def messageText_def to_string_int_def to_string_nat.simps char_of_def bit_0 sublist_code\<close>)
  have small: "messageText (INFO, ''Message {} from iteration'', [AnyInt (word_of_nat i)]) =
      ''[INFO] '' @ (''Message '' @ to_string_nat i @ '' from iteration'')" if "i < 4" for i
    using numbered_text [of i "''Message ''" INFO "'' from iteration''"] that by simp
  show "testSingleProducerLogging rounds L" unfolding testSingleProducerLogging_def
  proof (rule found, goal_cases)
    case 3
    show ?case
    proof
      fix m assume "m \<in> set (map (\<lambda>i. ''Message '' @ to_string_nat i @ '' from iteration'') [0..<4])"
      then obtain i where "i < 4" "m = ''Message '' @ to_string_nat i @ '' from iteration''" by auto
      with small [of i] show "\<exists>c\<in>set (map (\<lambda>i. (INFO, ''Message {} from iteration'', [AnyInt (word_of_nat i)])) [0..<4]).
          sublist m (messageText c)"
        by (intro bexI [of _ "(INFO, ''Message {} from iteration'', [AnyInt (word_of_nat i)])"]) (simp_all only: sublist_append_leftI set_map set_upt, auto)
    qed
  qed (use assms(3) in \<open>simp_all add: LOG_QUEUE_SIZE_def\<close>)
  let ?calls = "map (\<lambda>i. (INFO, ''Log message {}'', [AnyInt (word_of_nat i)])) [0..<3000]"
  have "messageText (INFO, ''Log message {}'', [AnyInt (word_of_nat i)]) = ''[INFO] Log message '' @ to_string_nat i" if "i < 3000" for i
    using numbered_text [of i "''Log message ''" INFO "[]"] that by simp
  then have "lineEnds (linesIn rounds (map toElement ?calls)) = length ?calls"
    by (intro linesIn_ends) (use assms(3,4) no_line_end in auto)
  moreover have "loggerTest rounds L ?calls = Inr (linesIn rounds (map toElement ?calls))"
    by (rule loggerTest_file [OF assms(1,2)]) (use assms(3) in \<open>simp_all add: LOG_QUEUE_SIZE_def\<close>)
  ultimately show "testLargeNumberOfLogs rounds L" unfolding testLargeNumberOfLogs_def by simp
qed

section \<open>Socket\<close>

definition testConstructorInitialization :: bool where
  "testConstructorInitialization \<longleftrightarrow>
     (let clientSocket = TCPSocket_init in
      socketFd clientSocket = - 1 \<and> nextSendValidIndex clientSocket = 0 \<and> nextRcvValidIndex clientSocket = 0 \<and>
      vsize (inboundData clientSocket) = TCPBufferSize \<and> vsize (outboundData clientSocket) = TCPBufferSize)"

definition testResetIndices :: "bool res" where
  "testResetIndices =
     bind_res (send TCPSocket_init (map of_char ''Test'')) (\<lambda>s1.
       let s2 = restNextSendValidIndex s1; s3 = setNextRcvValidIndex s2 10; s4 = restNextRcvValidIndex s3
       in Inr (nextSendValidIndex s1 = 4 \<and> nextSendValidIndex s2 = 0 \<and> nextRcvValidIndex s3 = 10 \<and> nextRcvValidIndex s4 = 0))"

definition testSetSocketFd :: bool where
  "testSetSocketFd \<longleftrightarrow> (let testFd = 42 in socketFd (setSocketFd TCPSocket_init testFd) = testFd)"

lemma socket_tests: "testConstructorInitialization" "testResetIndices = Inr True" "testSetSocketFd"
  by (simp_all add: testConstructorInitialization_def testResetIndices_def testSetSocketFd_def TCPSocket_init_def TCPBufferSize_def
    send_def vwrite_def restNextSendValidIndex_def restNextRcvValidIndex_def setNextRcvValidIndex_def setSocketFd_def Let_def)

section \<open>Properties\<close>

text \<open>The tests that run in one thread pass: those of the pool, the queue and the socket as they are, those of the logger whenever
  its thread gets the thirty rounds they wait for, its writes succeed and the time texts are lines.\<close>

theorem unit_tests_pass:
  assumes "quiet L" "30 \<le> length rounds" "\<forall>r\<in>set rounds. snd r \<and> (\<forall>k. CHR 0x0A \<notin> set (fst r k))"
  shows "testInitialStateIsEmpty = Inr True \<and> testAllocateAndDeallocate = Inr True \<and> testAllocateUntilFull = Inr True \<and>
    testDeallocateAll = Inr True \<and> testConcurrentAllocateAndDeallocate = Inr True \<and> testOverAllocate = Inr True \<and>
    testQueueInitialState \<and> testPushAndPopSingleElement = Inr True \<and> testPushUntilFull = Inr True \<and> testPopUntilEmpty = Inr True \<and>
    (\<forall>n\<in>set VaryingElementCounts. testPushPopMultipleElements n = Inr True) \<and>
    testConstructorInitialization \<and> testResetIndices = Inr True \<and> testSetSocketFd \<and>
    testLogLevels rounds L \<and> testFormatString rounds L \<and> testMultipleArguments rounds L \<and> testSingleProducerLogging rounds L \<and>
    testLargeNumberOfLogs rounds L"
  using pool_tests queue_tests socket_tests logger_tests [OF assms(1) _ assms(2)] assms(3) by simp

theorem unit_tests_pass_witness:
  "\<exists>L. Logger_init (toElement (INFO, [], [])) (Some []) = Inr L \<and> testLogLevels (replicate 30 (\<lambda>_. ''12:00:00'', True)) L"
proof -
  obtain L where L: "Logger_init (toElement (INFO, [], [])) (Some []) = Inr L" "running L"
    "logQueue L = LFQueue_init (toElement (INFO, [], [])) LOG_QUEUE_SIZE" unfolding Logger_init_def setLogFile_def by simp
  have "queue_wf (LFQueue_init (toElement (INFO, [], [])) LOG_QUEUE_SIZE)" by (rule LFQueue_init_wf) (simp add: LOG_QUEUE_SIZE_def)
  then have "quiet L" using L(2,3) by (simp add: quiet_def)
  from unit_tests_pass [OF this, of "replicate 30 (\<lambda>_. ''12:00:00'', True)"] L(1) show ?thesis by auto
qed

text \<open>C32: the test with a producer and a consumer thread, for any number of elements: in every interleaving the consumer's
  assertion holds and the threads can always be brought to return; once both have, the consumer has got every element and their sum
  is the one the test expects.\<close>

theorem concurrent_push_pop_passes:
  assumes "concurrentPushPop N (SharedQueue_init 0 QUEUE_SIZE) s"
  shows "consumer s \<noteq> CFailed \<and> (\<exists>s'. concurrentPushPop N s s' \<and> joined N s' \<and> expectedSum N s') \<and>
    (joined N s \<longrightarrow> expectedSum N s)"
proof -
  have inv: "shared_inv s" "counting N s" using concurrentPushPop_inv [OF assms concurrent_start] by auto
  obtain s' where s': "concurrentPushPop N s s'" "joined N s'" using concurrent_joins [OF inv] by blast
  have "shared_inv s'" "counting N s'" using concurrentPushPop_inv [OF s'(1) inv] by auto
  with concurrent_sum s' concurrent_sum [OF inv] inv(1) show ?thesis by (auto simp: shared_inv_def consumer_inv_def)
qed

theorem concurrent_push_pop_passes_witness:
  "\<exists>s. concurrentPushPop 10000 (SharedQueue_init 0 QUEUE_SIZE) s \<and> joined 10000 s \<and> sum_list (taken s) = 50005000"
  using concurrent_push_pop_passes [OF concurrentPushPop.start, of 10000] by (auto simp: expectedSum_def)

end
