(* ===== verification/Spec2Isabelle.thy ===== *)
theory Spec2Isabelle
  imports Exchange_Refine Book_Feed Queue_Atomic Engine_Pipeline Process Unit_Tests
begin

text \<open>
  A verification library for an electronic exchange written in C++ (src/src): order gateway, FIFO
  sequencer, matching engine with limit order books, and the low-level library they stand on.

  \<^bold>\<open>The program.\<close> Participants send requests over TCP. \<open>OrderGatewayServer\<close> reads them from its
  \<open>TCPServer\<close>, checks socket and sequence number per client, and hands them to \<open>FIFOSequencer\<close>,
  which sorts what one round of reads brought by time of arrival and pushes it into a lock-free queue.
  \<open>MatchingEngine\<close> pops requests and dispatches them to the \<open>OrderBook\<close> of their ticker. A book
  answers with client responses and market updates through two more queues; the gateway numbers the
  responses and sends them to the clients' sockets. \<open>MemoryPool\<close>, \<open>LFQueue\<close> and
  \<open>Logger\<close> serve all of them. \<open>main\<close> creates the queues and starts the engine.

  \<^bold>\<open>The theories.\<close>
  \<^item> \<open>Prelude\<close>: results that can fail, with one value per way the program can stop or leave defined
    behaviour (\<open>fault\<close>); fixed-size arrays; loops over lists; units of time (lib/time_utils.h).
  \<^item> \<open>Memory_Pool\<close> (lib/memory_pool.h): blocks, free count and next free index; a pointer is the index of
    its block. \<open>LF_Queue\<close> (lib/lock_free_queue.h): the ring buffer, one operation at a time;
    \<open>LF_Queue_Concurrent\<close>: the same queue access by access, with producers and a consumer interleaved;
    \<open>Queue_Atomic\<close>: with one producer and one consumer its operations are as good as atomic.
  \<^item> \<open>Exchange_Types\<close>, \<open>Exchange_Messages\<close> (core/exchange): limits, identifiers at their widths,
    requests, responses, market updates, orders and price levels, and their texts.
  \<^item> \<open>Order_Book\<close> (core/matching_engine/order_book): every operation, statement by statement over
    the two pools. \<open>Linked_Rings\<close> has the theory of circular doubly linked lists; \<open>Book_View\<close> splits the
    heaps into data and links; \<open>Book_Inv\<close> states the representation invariant; \<open>Book_Ops\<close>,
    \<open>Book_Remove\<close>, \<open>Book_Insert\<close>, \<open>Book_Match\<close>, \<open>Book_Requests\<close> show that each operation keeps it
    and what it does and sends; \<open>Book_Spec\<close> is the specification and the simulation; \<open>Book_Properties\<close> has the
    properties. \<open>Book_Print\<close> is \<open>toString\<close> and the destructor. \<open>Book_Feed\<close> reads the market updates back
    into a book.
  \<^item> \<open>Matching_Engine\<close> (core/matching_engine/matching_engine): the books per ticker, the request loop and what it
    sends, and the worker thread with the threads around it as a step relation.
  \<^item> \<open>FIFO_Sequencer\<close> (core/gateway/fifo_Sequencer.h), \<open>Wire_Format\<close> (the packed layout of the messages),
    \<open>Order_Gateway\<close> and \<open>Gateway_Properties\<close> (core/gateway/order_gateway_server).
  \<^item> \<open>Socket_Utils\<close>, \<open>TCP_Socket\<close>, \<open>TCP_Server\<close> (lib/socket_utils.h, tcp_socket, tcp_server), in the
    Linux build; \<open>Logger\<close> (lib/logger); \<open>System_Utils\<close> (the texts of lib/time_utils.h, and
    lib/thread_utils.h).
  \<^item> \<open>Exchange\<close>: gateway and engine, as \<open>main\<close> (core/main.cpp) starts it, with the two queues they share, under an
    arbitrary schedule of their actions, and a specification of the whole. \<open>Exchange_Refine\<close>: the simulation, action by
    action, and the invariants of the specification.
  \<^item> \<open>Engine_Pipeline\<close>: the request queue between the gateway's and the engine's thread, access by access, with the
    engine handling what it takes. \<open>Process\<close>: \<open>main\<close> with its signal handler (core/main.cpp), the threads of the engine
    and the logger, and the engine's destructor. \<open>Unit_Tests\<close>: the tests of src/tests that do not ask the operating system.
  \<^item> This theory: the properties of the whole exchange.

  Records, datatypes and functions carry the names of the source, with a suffix or prefix where HOL has
  the name already. State is passed explicitly; logging calls have no effect on the components and are
  left out there; \<open>Process\<close> is where it has one.

  \<^bold>\<open>Interfaces.\<close> Locales state what a component relies on: \<open>bounded_queue\<close> (laws of push and pop),
  \<open>block_pool\<close> (laws of allocation and release), \<open>fixed_codec\<close> (an encoding of fixed length),
  \<open>simulation\<close> (a step that can fail against a specification), \<open>time_sort\<close>
  (what the standard promises of \<open>std::sort\<close>), \<open>recv_handler\<close> (what the server needs of a receive
  callback). Each is interpreted on the model's own definitions: the queue, the pool, the layout of the
  requests, the order book, the engine and the exchange, two sorting functions, the gateway.

  \<^bold>\<open>What is shown.\<close>
  \<^item> Books: acceptable requests run without a fault, do what a specification on lists says and send the messages it says;
    the market updates, as long as their queue has room, are enough to rebuild the book; when the books keep price order and when
    not; what matching and cancelling do exactly; that matching and printing end. Acceptable is a real restriction, which no code
    enforces: a ticker of 8 or more, numbers out of range or in use, and prices that share a slot modulo 256 are outside of it, and
    theorems and findings show what they do.
  \<^item> Engine: it does what its specification says, also when both threads interleave inside the queue's operations, up to the
    first request that is not acceptable, and can always catch up to there; what it sends to whom; that it cannot be stopped.
  \<^item> Gateway: how segments of a byte stream become requests, and that the segmentation matters for the times only; which requests
    are taken and how responses are numbered; the sequencer's order, as far as the queue has room; that one read can bring more
    requests than the sequencer takes, which ends the process; the invariants of its state.
  \<^item> Exchange: from the bytes read to the bytes handed to the sockets it follows its specification under every interleaving whose
    actions meet their conditions, and every response goes to the socket of its client with the next number; an iteration of the
    gateway's loop is a schedule of the actions this is stated for.
  \<^item> Queues and pool: the queue under every interleaving of one producer and one consumer, which makes its operations linearizable;
    capacity of pool and server. Logger: what it writes, in which order, and what its destructor loses. Process: how it can end,
    and what destroying an engine does. The repository's own unit tests pass.

  Theorems about runs of the book, the engine and the exchange take every read outside \<open>qtyRemains\<close> (order_book.cpp, line 107)
  to give some value, whichever; what happens otherwise is said where matching is shown to end and where a fill is shown to read
  there. Several theorems state where the code does something else than it means to.

  \<^bold>\<open>Bounds and fuel.\<close> Limits are those of the production build. Three loops of the book run on a number
  of rounds: the search for the place of a level (\<open>findTarget\<close>, \<open>MAX_PRICE_LEVELS\<close> rounds), the
  loops over orders (\<open>MAX_ORDER_IDS\<close>) and over levels (\<open>MAX_PRICE_LEVELS + 1\<close>) in
  \<open>toString\<close>. They only read, and go on from a block of a pool of that size, so a longer run repeats
  itself for ever, which is the failure \<open>Diverges\<close>; on every book that represents a specification they
  are shown to end. All other loops have termination proofs. The read of \<open>*qtyRemains\<close> outside its
  variable is an argument of the matching functions: \<open>None\<close> if the read itself fails, otherwise any value.

  \<^bold>\<open>The schedule.\<close> In \<open>Exchange\<close> an action is a whole operation of one thread on the shared queues: publishing a batch,
  forwarding the waiting responses, one iteration of the engine. That the accesses inside the queue's operations may
  interleave as well is the subject of \<open>LF_Queue_Concurrent\<close>, \<open>Queue_Atomic\<close> and, for the queue of requests with the engine behind it, of
  \<open>Engine_Pipeline\<close>. In \<open>Process\<close> a message, a round of the logger's thread and an iteration of the engine are single
  steps, and one signal arrives at most. The specification leaves out what a fill reports as
  the remaining quantity, which the code reads from outside its variable. Responses and updates beyond the capacity of their
  queues are dropped, in the code and in the specification.

  \<^bold>\<open>Not modelled.\<close> Memory orders weaker than sequential consistency; the macOS branches; a second signal; the
  destruction of static objects other than the logger; the tests of sockets, server and threads, whose outcome is that of
  system calls, and the one of the time format. What else the sources contain is declarations. The answers of system calls, the clock, the
  conversion to local time, the texts of floating-point numbers, and the order \<open>std::sort\<close> gives to equal times, are
  arguments.
\<close>

section \<open>A sample schedule\<close>

text \<open>A connection; a read that brings two new orders of two clients, which match; their publication, the engine's two
  iterations, the responses and their way to the network.\<close>

definition sampleOrders :: "OGSClientRequest list" where
  "sampleOrders = [\<lparr>ogs_nSeq = 1, omeRequest = sampleRequest Req_NEW 1 0 1 SELL 100 3\<rparr>,
     \<lparr>ogs_nSeq = 1, omeRequest = sampleRequest Req_NEW 2 0 1 BUY 100 5\<rparr>]"

definition sampleRead :: Received where
  "sampleRead = \<lparr>rcv_bytes = concat (map encodeOGSRequest sampleOrders), rcv_time = Some (1, 0)\<rparr>"

definition nothingRead :: Received where
  "nothingRead = \<lparr>rcv_bytes = [], rcv_time = None\<rparr>"

definition sampleSchedule :: "exchangeAction list" where
  "sampleSchedule = [Connect \<lparr>acc_fd = 9, acc_optionsOk = True, acc_addOk = True\<rparr>, Serve (Pooled 0) sampleRead, Publish,
     Handle, Handle, Forward, Serve (Pooled 0) nothingRead]"

lemma sample_parses:
  "map decodeOGSRequest (blocks OGS_REQUEST_SIZE (rcv_bytes sampleRead)) = sampleOrders"
  "leftover OGS_REQUEST_SIZE (rcv_bytes sampleRead) = []"
proof -
  have "list_all request_proper sampleOrders"
    by (simp add: sampleOrders_def request_proper_def side_proper_def reqType_proper_def side_of_byte_def reqType_of_byte_def)
  from request_codec.stream_parse [OF this, of "[]"]
  show "map decodeOGSRequest (blocks OGS_REQUEST_SIZE (rcv_bytes sampleRead)) = sampleOrders"
    "leftover OGS_REQUEST_SIZE (rcv_bytes sampleRead) = []" by (simp_all add: sampleRead_def OGS_REQUEST_SIZE_def)
qed

lemma sample_bytes: "length (rcv_bytes sampleRead) = 76" "rcv_bytes sampleRead \<noteq> []"
proof -
  show "length (rcv_bytes sampleRead) = 76" by (simp add: sampleRead_def sampleOrders_def OGS_REQUEST_SIZE_def)
  then show "rcv_bytes sampleRead \<noteq> []" by auto
qed

lemma sample_arrives:
  assumes "partials A p = []"
  shows "arrivals A p sampleRead = map (\<lambda>r. (p, 1000000000, r)) sampleOrders"
proof -
  have "kernelTime (rcv_time sampleRead) = 1000000000" by (simp add: kernelTime_def sampleRead_def NANOS_TO_SECS_def NANOS_TO_MILLIS_def MILLIS_TO_SECS_def NANOS_TO_MICROS_def MICROS_TO_MILLIS_def)
  then have "arrivals A p sampleRead = map (\<lambda>r. (p, 1000000000, r)) (map decodeOGSRequest (blocks OGS_REQUEST_SIZE (rcv_bytes sampleRead)))"
    using assms sample_bytes(2) by (simp add: arrivals_def comp_def)
  then show ?thesis unfolding sample_parses .
qed

lemma nothing_arrives [simp]: "arrivals A p nothingRead = []" "rcv_bytes nothingRead = []"
  by (simp_all add: arrivals_def nothingRead_def)

lemmas sample_eval =
  sampleSchedule_def newExchange_def sample_arrives isConnected_def sample_bytes sample_parses sampleOrders_def
  MAX_EVENTS_def TCPBufferSize_def acceptableAt_def specHandle_def specReplies_def toRequest_def toPending_def
  sweepResponses_def sweepFills_def fills.simps fillResponses_def afterFill_def sort_key_def

lemma sample_ready: "allowed ready (specStep (sort_key arrival)) newExchange sampleSchedule"
  by (simp add: sample_eval spec_eval)

lemma sample_delivers:
  "map (\<lambda>(n, r). (n, res_type r, replyClient r)) (delivered (foldl (specStep (sort_key arrival)) newExchange sampleSchedule) (Pooled 0)) =
    [(1, Res_ACCEPTED, 1), (1, Res_ACCEPTED, 2), (2, Res_FILLED, 2), (2, Res_FILLED, 1)]"
  by (simp add: sample_eval spec_eval acceptedResponse_def fillAggressor_def fillMatched_def eraseRest_def)

section \<open>Properties\<close>

text \<open>C1: the whole exchange. Gateway and engine, as \<open>main\<close> starts it, share the queues of requests and responses.
  Whatever the order of their actions (events and connections of the poll, reads and writes of sockets, publication by the
  sequencer, iterations of the engine, forwarding of responses), as long as each action meets its condition in the specification
  and every read outside \<open>qtyRemains\<close> gives some value, no action fails, and the bytes kept, the tables, the sequencer, the
  queues, the books, and the bytes handed to \<open>::send\<close> for every socket are what the specification says. In particular the assertion that a response has a socket to go to never fails.\<close>

theorem exchange_refines:
  assumes "time_sort sorter" "allowed ready (specStep sorter) newExchange as"
  shows "\<exists>X X'. exchange_start ifname port = Inr X \<and>
    runAll (exchangeStep sorter (\<lambda>b k. Some (f b k))) X as = Inr X' \<and>
    exchangeRelated X' (foldl (specStep sorter) newExchange as)"
  using exchange_start_related [of ifname port] simulation.runs [OF exchange_simulates [OF assms(1)] _ assms(2), of _ f] by blast

theorem exchange_refines_witness:
  "\<exists>X X'. exchange_start ''eth0'' 12345 = Inr X \<and>
    runAll (exchangeStep (sort_key arrival) strayZero) X sampleSchedule = Inr X' \<and>
    length (wire X' (Pooled 0)) = 200"
proof -
  let ?A = "foldl (specStep (sort_key arrival)) newExchange sampleSchedule"
  obtain X X' where X: "exchange_start ''eth0'' 12345 = Inr X" "exchangeRelated X' ?A"
    "runAll (exchangeStep (sort_key arrival) strayZero) X sampleSchedule = Inr X'"
    using exchange_refines [OF stable.time_sort_axioms sample_ready, of "''eth0''" 12345 "\<lambda>_ _. 0"] by blast
  have "length (delivered ?A (Pooled 0)) = 4" using arg_cong [OF sample_delivers, of length] by simp
  moreover have "framed (wire X' (Pooled 0)) (delivered ?A (Pooled 0))" using X(2) by (simp add: exchangeRelated_def)
  ultimately have "length (wire X' (Pooled 0)) = 200" using framed_length by fastforce
  with X show ?thesis by blast
qed

text \<open>C7: every response reaches its client. After any such schedule, what was handed to \<open>::send\<close> for a socket and what
  waits there is a sequence of whole frames; each is for a client that owns the socket; and the frames of one
  client carry the numbers 1, 2, 3 and so on without a gap.\<close>

theorem responses_reach_owners:
  assumes "time_sort sorter" "allowed ready (specStep sorter) newExchange as"
  shows "\<exists>X X'. exchange_start ifname port = Inr X \<and>
    runAll (exchangeStep sorter (\<lambda>b k. Some (f b k))) X as = Inr X' \<and>
    (\<forall>p s. sock (server (gws X')) p = Some s \<longrightarrow> (\<exists>nrs. wire X' p @ outBytes s = concat (map responseFrame nrs) \<and>
      (\<forall>nr\<in>set nrs. velem (mapClientToSocket (gateway (gws X'))) (replyClient (snd nr)) = Some p) \<and>
      (\<forall>c. let mine = filter (\<lambda>nr. replyClient (snd nr) = c) nrs in
        map fst mine = map (\<lambda>k. 1 + word_of_nat k) [0..<length mine])))"
proof -
  let ?A = "foldl (specStep sorter) newExchange as"
  obtain X X' where X: "exchange_start ifname port = Inr X" "exchangeRelated X' ?A"
    "runAll (exchangeStep sorter (\<lambda>b k. Some (f b k))) X as = Inr X'"
    using exchange_start_related [of ifname port] simulation.runs [OF exchange_simulates [OF assms(1)] _ assms(2), of _ f] by blast
  have inv: "sound ?A" "counted ?A" using run_counted [OF assms(1) sound_new counted_new assms(2)] by simp_all
  have own: "velem (mapClientToSocket (gateway (gws X'))) = owners ?A" using X(2) by (simp add: exchangeRelated_def gatewayRelated_def)
  have "\<exists>nrs. wire X' p @ outBytes s = concat (map responseFrame nrs) \<and>
      (\<forall>nr\<in>set nrs. owners ?A (replyClient (snd nr)) = Some p) \<and>
      (\<forall>c. let mine = filter (\<lambda>nr. replyClient (snd nr) = c) nrs in
        map fst mine = map (\<lambda>k. 1 + word_of_nat k) [0..<length mine])" if s: "sock (server (gws X')) p = Some s" for p s
    using frames_of_socket [OF inv framed_append] X(2) s by (simp add: exchangeRelated_def socketsRelated_def)
  with X(1,3) own show ?thesis by auto
qed

theorem responses_reach_owners_witness:
  "\<exists>X X' s nrs. exchange_start ''eth0'' 12345 = Inr X \<and>
    runAll (exchangeStep (sort_key arrival) strayZero) X sampleSchedule = Inr X' \<and> sock (server (gws X')) (Pooled 0) = Some s \<and>
    wire X' (Pooled 0) @ outBytes s = concat (map responseFrame nrs) \<and>
    map fst (filter (\<lambda>nr. replyClient (snd nr) = 2) nrs) =
      map (\<lambda>k. 1 + word_of_nat k) [0..<length (filter (\<lambda>nr. replyClient (snd nr) = 2) nrs)]"
proof -
  let ?A = "foldl (specStep (sort_key arrival)) newExchange sampleSchedule" and ?step = "exchangeStep (sort_key arrival) strayZero"
  obtain X X' where X: "exchange_start ''eth0'' 12345 = Inr X" "runAll ?step X sampleSchedule = Inr X'" "exchangeRelated X' ?A"
    using exchange_start_related [of "''eth0''" 12345] exchange.runs [OF _ sample_ready, of _ "\<lambda>_ _. 0"] by blast
  have "isConnected ?A (Pooled 0)" by (simp add: sampleSchedule_def isConnected_def connections_step del: specStep.simps)
  moreover have "socketsRelated (server (gws X')) ?A" using X(3) by (simp add: exchangeRelated_def)
  ultimately obtain s where s: "sock (server (gws X')) (Pooled 0) = Some s" using connected_sock by blast
  obtain Y Y' where Y: "exchange_start ''eth0'' 12345 = Inr Y" "runAll ?step Y sampleSchedule = Inr Y'"
    "\<forall>p s. sock (server (gws Y')) p = Some s \<longrightarrow> (\<exists>nrs. wire Y' p @ outBytes s = concat (map responseFrame nrs) \<and>
      (\<forall>c. let mine = filter (\<lambda>nr. replyClient (snd nr) = c) nrs in map fst mine = map (\<lambda>k. 1 + word_of_nat k) [0..<length mine]))"
    using responses_reach_owners [OF stable.time_sort_axioms sample_ready, of "''eth0''" 12345 "\<lambda>_ _. 0"] by blast
  have "Y' = X'" using X(1,2) Y(1,2) by simp
  with Y(3) s obtain nrs where "wire X' (Pooled 0) @ outBytes s = concat (map responseFrame nrs)"
    "\<forall>c. let mine = filter (\<lambda>nr. replyClient (snd nr) = c) nrs in map fst mine = map (\<lambda>k. 1 + word_of_nat k) [0..<length mine]" by blast
  with X(1,2) s show ?thesis unfolding Let_def by blast
qed

text \<open>C26: the actions are those of the code. Every iteration of the gateway's loop that completes is a schedule: the
  events of the poll, the new connections if the listener has any, the sockets that can be read, the publication if
  anything was received, the sockets that can be written, and the responses, in this order.\<close>

theorem iteration_is_schedule:
  assumes "runOnce sorter events accs netR netS (gws X) = Inr (S', w)"
  shows "\<exists>X' conns reads pub writes. runAll (exchangeStep sorter stray) X
      (map Poll events @ map Connect conns @ map (\<lambda>(p, rx). Serve p rx) reads @ pub @ map (\<lambda>(p, rx). Serve p rx) writes @ [Forward]) = Inr X' \<and>
    gws X' = S' \<and> conns \<in> {[], accs} \<and> pub \<in> {[], [Publish]}"
proof -
  let ?step = "exchangeStep sorter stray" and ?S = "gws X"
  from assms obtain srv1 srv2 g where 1: "poll (server ?S) events accs = Inr srv1"
    "sendAndReceive rxCallback (rxDoneCallback sorter) netR netS srv1 (gateway ?S) = Inr (srv2, g, w)"
    "forwardLoop (?S\<lparr>server := srv2, gateway := g\<rparr>) = Inr S'" by (auto simp: runOnce_def)
  obtain b srv0 where poll: "runAll pollEvent (False, server ?S) events = Inr (b, srv0)"
    "(if b then runAll acceptOne srv0 accs else Inr srv0) = Inr srv1" using 1(1) by (auto simp: poll_def split: if_splits)
  let ?X1 = "X\<lparr>gws := ?S\<lparr>server := srv1\<rparr>\<rparr>" and ?conns = "if b then accs else []"
  have c1: "runAll ?step X (map Poll events @ map Connect ?conns) = Inr ?X1"
    using polls_schedule [OF poll(1), of sorter stray] connects_schedule [of "X\<lparr>gws := ?S\<lparr>server := srv0\<rparr>\<rparr>" accs srv1 sorter stray] poll(2)
    by (auto simp: runAll_append split: if_splits)
  define reads where "reads = zip (receiveSockets srv1) (map netR [0..<length (receiveSockets srv1)])"
  obtain recv srvA gA wA gB where sr: "runAll (serveSocket rxCallback) (False, srv1, gateway ?S, []) reads = Inr (recv, srvA, gA, wA)"
    "(if recv then (if hasRecvFinishedCallback srvA then rxDoneCallback sorter gA else Inl (Uncaught ''std::bad_function_call'')) else Inr gA) = Inr gB"
    and sw: "\<exists>b2. runAll (serveSocket rxCallback) (False, srvA, gB, wA) (zip (sendSockets srvA) (map netS [0..<length (sendSockets srvA)])) = Inr (b2, srv2, g, w)"
    using 1(2) by (auto simp: sendAndReceive_def reads_def)
  obtain wire2 where c2: "runAll ?step ?X1 (map (\<lambda>(p, rx). Serve p rx) reads) =
      Inr (?X1\<lparr>gws := (gws ?X1)\<lparr>server := srvA, gateway := gA\<rparr>, wire := wire2\<rparr>)"
    using serves_schedule [of False ?X1 "[]" reads recv srvA gA wA sorter stray] sr(1) by auto
  let ?X2 = "?X1\<lparr>gws := (gws ?X1)\<lparr>server := srvA, gateway := gA\<rparr>, wire := wire2\<rparr>"
  define pub where "pub = (if recv then [Publish] else [])"
  obtain X3 where c3: "runAll ?step ?X2 pub = Inr X3" "gws X3 = (gws ?X2)\<lparr>gateway := gB\<rparr>"
    using sr(2) by (cases recv) (auto simp: pub_def split: if_splits)
  define writes where "writes = zip (sendSockets srvA) (map netS [0..<length (sendSockets srvA)])"
  obtain b2 where "runAll (serveSocket rxCallback) (False, server (gws X3), gateway (gws X3), wA) writes = Inr (b2, srv2, g, w)"
    using sw c3(2) by (auto simp: writes_def)
  from serves_schedule [OF this, of sorter stray] obtain wire4 where c4: "runAll ?step X3 (map (\<lambda>(p, rx). Serve p rx) writes) =
      Inr (X3\<lparr>gws := (gws X3)\<lparr>server := srv2, gateway := g\<rparr>, wire := wire4\<rparr>)" by blast
  let ?X4 = "X3\<lparr>gws := (gws X3)\<lparr>server := srv2, gateway := g\<rparr>, wire := wire4\<rparr>"
  have "gws ?X4 = ?S\<lparr>server := srv2, gateway := g\<rparr>" by (simp add: c3(2))
  then obtain X5 where c5: "?step ?X4 Forward = Inr X5" "gws X5 = S'" using 1(3) by auto
  have "runAll ?step ?X4 [Forward] = Inr X5" using c5(1) by (simp del: exchangeStep.simps)
  then have "runAll ?step X ((map Poll events @ map Connect ?conns) @ map (\<lambda>(p, rx). Serve p rx) reads @ pub @
      map (\<lambda>(p, rx). Serve p rx) writes @ [Forward]) = Inr X5"
    by (rule runAll_then [OF c1 runAll_then [OF c2 runAll_then [OF c3(1) runAll_then [OF c4]]]])
  with c5(2) show ?thesis by (intro exI [of _ X5] exI [of _ ?conns] exI [of _ reads] exI [of _ pub] exI [of _ writes]) (auto simp: pub_def)
qed

theorem iteration_is_schedule_witness:
  "\<exists>X S' w X' reads pub writes. exchange_start ''eth0'' 12345 = Inr X \<and>
    runOnce (sort_key arrival) [] [] (\<lambda>_. nothingRead) (\<lambda>_. nothingRead) (gws X) = Inr (S', w) \<and>
    runAll (exchangeStep (sort_key arrival) strayZero) X
      (map (\<lambda>(p, rx). Serve p rx) reads @ pub @ map (\<lambda>(p, rx). Serve p rx) writes @ [Forward]) = Inr X' \<and> gws X' = S'"
proof -
  obtain X where X: "exchange_start ''eth0'' 12345 = Inr X" "receiveSockets (server (gws X)) = []" "sendSockets (server (gws X)) = []"
    "numElements (rxResponses (gws X)) = 0" using exchange_start_idle by blast
  have run: "runOnce (sort_key arrival) [] [] (\<lambda>_. nothingRead) (\<lambda>_. nothingRead) (gws X) = Inr (gws X, [])"
    using X(2-4) by (simp add: runOnce_def poll_def sendAndReceive_def, subst forwardLoop.simps) (simp add: getNextToRead_def)
  from iteration_is_schedule [OF run, of strayZero] obtain X' conns reads pub writes where
    s: "runAll (exchangeStep (sort_key arrival) strayZero) X (map Poll [] @ map Connect conns @
      map (\<lambda>(p, rx). Serve p rx) reads @ pub @ map (\<lambda>(p, rx). Serve p rx) writes @ [Forward]) = Inr X'"
    "gws X' = gws X" "conns \<in> {[], []}" by metis
  then have "conns = []" by simp
  from s(1) [unfolded this list.map(1) append.simps(1)] s(2) X(1) run show ?thesis by blast
qed

end
